(* ===== verification/Prelude.thy ===== *)
theory Prelude
  imports Complex_Main "HOL-Library.AList"
begin

text \<open>
  Shared vocabulary of the development: Python text as lists of code points, JSON documents,
  insertion-ordered dictionaries, exceptions as values, and the conversions of the Python
  standard library the modelled code uses (\<open>str\<close>, \<open>strip\<close>, \<open>upper\<close>, \<open>find\<close>, slices, truth
  values).  Every component theory imports this one.
\<close>

named_theorems dict_simps \<open>equations about dictionary lookup and update\<close>
named_theorems json_wf \<open>well-formedness of JSON documents\<close>

section \<open>Text\<close>

text \<open>
  A Python \<open>str\<close> is a sequence of Unicode code points.  \<open>u\<close> turns an ASCII literal into one.
  The case conversions act on ASCII letters and leave every other code point alone; the code
  applies them before it compares with ASCII constants only.
\<close>

type_synonym ustr = "nat list"

definition u :: "string \<Rightarrow> ustr" where
  "u s = map of_char s"

definition is_space :: "nat \<Rightarrow> bool" where
  "is_space c \<longleftrightarrow> (9 \<le> c \<and> c \<le> 13) \<or> (28 \<le> c \<and> c \<le> 32) \<or> c = 133 \<or> c = 160 \<or> c = 5760 \<or>
     (8192 \<le> c \<and> c \<le> 8202) \<or> c = 8232 \<or> c = 8233 \<or> c = 8239 \<or> c = 8287 \<or> c = 12288"

definition strip :: "ustr \<Rightarrow> ustr" where
  "strip s = rev (dropWhile is_space (rev (dropWhile is_space s)))"

definition ch_upper :: "nat \<Rightarrow> nat" where
  "ch_upper c = (if 97 \<le> c \<and> c \<le> 122 then c - 32 else c)"

definition ch_lower :: "nat \<Rightarrow> nat" where
  "ch_lower c = (if 65 \<le> c \<and> c \<le> 90 then c + 32 else c)"

definition upper :: "ustr \<Rightarrow> ustr" where
  "upper s = map ch_upper s"

definition lower :: "ustr \<Rightarrow> ustr" where
  "lower s = map ch_lower s"

definition is_digit :: "nat \<Rightarrow> bool" where
  "is_digit c \<longleftrightarrow> 48 \<le> c \<and> c \<le> 57"

definition startswith :: "ustr \<Rightarrow> ustr \<Rightarrow> bool" where
  "startswith s p \<longleftrightarrow> take (length p) s = p"

text \<open>\<open>join_with sep parts\<close> is \<open>sep.join(parts)\<close>; \<open>split_on c s\<close> is \<open>s.split(c)\<close> for one character.\<close>

fun join_with :: "ustr \<Rightarrow> ustr list \<Rightarrow> ustr" where
  "join_with sep [] = []"
| "join_with sep [p] = p"
| "join_with sep (p # q # ps) = p @ sep @ join_with sep (q # ps)"

fun split_on :: "nat \<Rightarrow> ustr \<Rightarrow> ustr list" where
  "split_on c [] = [[]]"
| "split_on c (x # xs) =
     (if x = c then [] # split_on c xs
      else case split_on c xs of [] \<Rightarrow> [[x]] | p # ps \<Rightarrow> (x # p) # ps)"

text \<open>\<open>last_n n s\<close> is the slice \<open>s[-n:]\<close> for positive \<open>n\<close>.\<close>

definition last_n :: "nat \<Rightarrow> 'a list \<Rightarrow> 'a list" where
  "last_n n s = drop (length s - n) s"

fun nat_str :: "nat \<Rightarrow> ustr" where
  "nat_str n = (if n < 10 then [48 + n] else nat_str (n div 10) @ [48 + n mod 10])"

declare nat_str.simps [simp del]

definition int_str :: "int \<Rightarrow> ustr" where
  "int_str i = (if i < 0 then u ''-'' @ nat_str (nat (- i)) else nat_str (nat i))"

section \<open>Exceptions\<close>

datatype pyexc =
    ValueError ustr
  | TypeError ustr
  | KeyError ustr
  | RuntimeError ustr
  | OverflowError ustr
  | IndexError ustr

type_synonym 'a result = "pyexc + 'a"

definition exc_str :: "pyexc \<Rightarrow> ustr" where
  "exc_str e = (case e of ValueError m \<Rightarrow> m | TypeError m \<Rightarrow> m | KeyError m \<Rightarrow> m
     | RuntimeError m \<Rightarrow> m | OverflowError m \<Rightarrow> m | IndexError m \<Rightarrow> m)"

definition rbind :: "'a result \<Rightarrow> ('a \<Rightarrow> 'b result) \<Rightarrow> 'b result" where
  "rbind r f = (case r of Inl e \<Rightarrow> Inl e | Inr x \<Rightarrow> f x)"

fun rmap :: "('a \<Rightarrow> 'b result) \<Rightarrow> 'a list \<Rightarrow> 'b list result" where
  "rmap f [] = Inr []"
| "rmap f (x # xs) = rbind (f x) (\<lambda>y. rbind (rmap f xs) (\<lambda>ys. Inr (y # ys)))"

section \<open>JSON documents\<close>

text \<open>
  The values an event or a configuration column can hold.  A dictionary is an association
  list in insertion order; \<open>json_ok\<close> says its keys are distinct at every level, as they are in
  Python.  A finite float is its exact rational value with the text \<open>repr\<close> prints for it.
\<close>

datatype pyfloat = Fin rat ustr | PosInf | NegInf | NaN

datatype json =
    JNull
  | JBool bool
  | JInt int
  | JFloat pyfloat
  | JStr ustr
  | JList "json list"
  | JDict "(ustr \<times> json) list"

type_synonym dict = "(ustr \<times> json) list"

abbreviation dget :: "('k \<times> 'v) list \<Rightarrow> 'k \<Rightarrow> 'v option" where
  "dget d k \<equiv> map_of d k"

abbreviation dset :: "'k \<Rightarrow> 'v \<Rightarrow> ('k \<times> 'v) list \<Rightarrow> ('k \<times> 'v) list" where
  "dset k v d \<equiv> AList.update k v d"

abbreviation ddel :: "'k \<Rightarrow> ('k \<times> 'v) list \<Rightarrow> ('k \<times> 'v) list" where
  "ddel k d \<equiv> AList.delete k d"

text \<open>\<open>dget_none d k\<close> is \<open>d.get(k)\<close>, where a missing key reads as \<open>None\<close>.\<close>

definition dget_none :: "dict \<Rightarrow> ustr \<Rightarrow> json" where
  "dget_none d k = (case dget d k of None \<Rightarrow> JNull | Some v \<Rightarrow> v)"

definition dget_default :: "dict \<Rightarrow> ustr \<Rightarrow> json \<Rightarrow> json" where
  "dget_default d k x = (case dget d k of None \<Rightarrow> x | Some v \<Rightarrow> v)"

definition is_dict :: "json \<Rightarrow> bool" where
  "is_dict v = (case v of JDict _ \<Rightarrow> True | _ \<Rightarrow> False)"

definition is_list :: "json \<Rightarrow> bool" where
  "is_list v = (case v of JList _ \<Rightarrow> True | _ \<Rightarrow> False)"

definition float_truthy :: "pyfloat \<Rightarrow> bool" where
  "float_truthy f = (case f of Fin r _ \<Rightarrow> r \<noteq> 0 | _ \<Rightarrow> True)"

definition truthy :: "json \<Rightarrow> bool" where
  "truthy v = (case v of JNull \<Rightarrow> False | JBool b \<Rightarrow> b | JInt i \<Rightarrow> i \<noteq> 0
     | JFloat f \<Rightarrow> float_truthy f | JStr s \<Rightarrow> s \<noteq> [] | JList xs \<Rightarrow> xs \<noteq> [] | JDict d \<Rightarrow> d \<noteq> [])"

lemma size_dict_member [termination_simp]:
  "(k, v) \<in> set d \<Longrightarrow> size (v :: json) < Suc (size_list (size_prod (\<lambda>_. 0) size) d)"
  by (induction d) auto

fun json_ok :: "json \<Rightarrow> bool" where
  "json_ok (JList xs) = (\<forall>x \<in> set xs. json_ok x)"
| "json_ok (JDict d) = (distinct (map fst d) \<and> (\<forall>(k, v) \<in> set d. json_ok v))"
| "json_ok _ = True"

text \<open>\<open>str\<close> of a value: text is itself, everything else prints as \<open>repr\<close> does.\<close>

definition hex_digit :: "nat \<Rightarrow> nat" where
  "hex_digit n = (if n < 10 then 48 + n else 87 + n)"

definition repr_char :: "nat \<Rightarrow> nat \<Rightarrow> ustr" where
  "repr_char q c =
     (if c = q \<or> c = 92 then [92, c]
      else if c = 9 then u [CHR 92, CHR ''t'']
      else if c = 10 then u [CHR 92, CHR ''n'']
      else if c = 13 then u [CHR 92, CHR ''r'']
      else if c < 32 \<or> (127 \<le> c \<and> c < 161) \<or> c = 173
        then u [CHR 92, CHR ''x''] @ [hex_digit (c div 16), hex_digit (c mod 16)]
      else [c])"

definition repr_str :: "ustr \<Rightarrow> ustr" where
  "repr_str s = (let q = (if 39 \<in> set s \<and> 34 \<notin> set s then 34 else 39)
     in [q] @ concat (map (repr_char q) s) @ [q])"

definition float_str :: "pyfloat \<Rightarrow> ustr" where
  "float_str f = (case f of Fin _ t \<Rightarrow> t | PosInf \<Rightarrow> u ''inf'' | NegInf \<Rightarrow> u ''-inf'' | NaN \<Rightarrow> u ''nan'')"

fun py_repr :: "json \<Rightarrow> ustr" where
  "py_repr JNull = u ''None''"
| "py_repr (JBool b) = (if b then u ''True'' else u ''False'')"
| "py_repr (JInt i) = int_str i"
| "py_repr (JFloat f) = float_str f"
| "py_repr (JStr s) = repr_str s"
| "py_repr (JList xs) = u ''['' @ join_with (u '', '') (map py_repr xs) @ u '']''"
| "py_repr (JDict d) =
     u ''{'' @ join_with (u '', '') (map (\<lambda>(k, v). repr_str k @ u '': '' @ py_repr v) d) @ u ''}''"

definition py_str :: "json \<Rightarrow> ustr" where
  "py_str v = (case v of JStr s \<Rightarrow> s | _ \<Rightarrow> py_repr v)"

text \<open>\<open>str(value or "")\<close>, the guard the code puts before it reads a text column.\<close>

definition str_or_empty :: "json \<Rightarrow> ustr" where
  "str_or_empty v = (if truthy v then py_str v else [])"

text \<open>
  \<open>int\<close> of a value: text is a decimal number with an optional sign, single underscores between
  digits and surrounding white space (non-ASCII digits, which Python also takes, are refused
  here); a float is truncated towards zero.
\<close>

fun read_digits :: "int \<Rightarrow> bool \<Rightarrow> ustr \<Rightarrow> int option" where
  "read_digits acc digit [] = (if digit then Some acc else None)"
| "read_digits acc digit (c # cs) =
     (if is_digit c then read_digits (acc * 10 + int (c - 48)) True cs
      else if c = 95 \<and> digit then read_digits acc False cs
      else None)"

definition int_of_text :: "ustr \<Rightarrow> int option" where
  "int_of_text s = (case strip s of
     [] \<Rightarrow> None
   | c # cs \<Rightarrow> if c = 43 then read_digits 0 False cs
               else if c = 45 then map_option uminus (read_digits 0 False cs)
               else read_digits 0 False (c # cs))"

definition rat_trunc :: "rat \<Rightarrow> int" where
  "rat_trunc r = (if r < 0 then - \<lfloor>- r\<rfloor> else \<lfloor>r\<rfloor>)"

definition py_int :: "json \<Rightarrow> int result" where
  "py_int v = (case v of
     JInt i \<Rightarrow> Inr i
   | JBool b \<Rightarrow> Inr (if b then 1 else 0)
   | JStr s \<Rightarrow> (case int_of_text s of
       Some i \<Rightarrow> Inr i
     | None \<Rightarrow> Inl (ValueError (u ''invalid literal for int() with base 10: '' @ repr_str s)))
   | JFloat (Fin r t) \<Rightarrow> Inr (rat_trunc r)
   | JFloat NaN \<Rightarrow> Inl (ValueError (u ''cannot convert float NaN to integer''))
   | JFloat f \<Rightarrow> Inl (OverflowError (u ''cannot convert float infinity to integer''))
   | _ \<Rightarrow> Inl (TypeError (u ''int() argument must be a string, a bytes-like object or a real number'')))"

section \<open>Generic lemmas\<close>

lemma u_eq_iff [simp]: "u a = u b \<longleftrightarrow> a = b"
  unfolding u_def by (rule inj_map_eq_map) (rule inj_of_char)

lemma u_Nil [simp]: "u [] = []"
  by (simp add: u_def)

lemma u_eq_Nil [simp]: "u s = [] \<longleftrightarrow> s = []"
  by (simp add: u_def)

lemma Nil_eq_u [simp]: "[] = u s \<longleftrightarrow> s = []"
  by (auto simp: u_def)

lemma length_u [simp]: "length (u s) = length s"
  by (simp add: u_def)

lemma rbind_simps [simp]:
  "rbind (Inl e) f = Inl e"
  "rbind (Inr x) f = f x"
  by (simp_all add: rbind_def)

lemma rbind_Inr_iff: "rbind r f = Inr y \<longleftrightarrow> (\<exists>x. r = Inr x \<and> f x = Inr y)"
  by (cases r) auto

lemma dset_lookup [dict_simps]: "dget (dset k v d) j = (if j = k then Some v else dget d j)"
  by (simp add: update_conv')

lemma ddel_lookup [dict_simps]: "dget (ddel k d) j = (if j = k then None else dget d j)"
  by (auto simp: delete_conv')

lemma dset_mem: "(a, b) \<in> set (dset k v d) \<Longrightarrow> (a, b) = (k, v) \<or> (a, b) \<in> set d"
  by (induction d) (auto split: if_splits)

lemma ddel_mem: "(a, b) \<in> set (ddel k d) \<Longrightarrow> (a, b) \<in> set d"
  by (auto simp: AList.delete_eq)

lemma json_ok_dset [json_wf]: "json_ok (JDict d) \<Longrightarrow> json_ok v \<Longrightarrow> json_ok (JDict (dset k v d))"
  by (auto simp: distinct_update dest!: dset_mem)

lemma json_ok_ddel [json_wf]: "json_ok (JDict d) \<Longrightarrow> json_ok (JDict (ddel k d))"
  by (auto simp: distinct_delete dest!: ddel_mem)

lemma json_ok_dget [json_wf]: "json_ok (JDict d) \<Longrightarrow> dget d k = Some v \<Longrightarrow> json_ok v"
  by (auto dest!: map_of_SomeD)

lemma json_ok_nth [json_wf]: "json_ok (JList xs) \<Longrightarrow> i < length xs \<Longrightarrow> json_ok (xs ! i)"
  by simp

lemma json_ok_update [json_wf]:
  "json_ok (JList xs) \<Longrightarrow> json_ok v \<Longrightarrow> json_ok (JList (xs[i := v]))"
  using set_update_subset_insert [of xs i v] by auto

lemma dset_same: "dget d k = Some v \<Longrightarrow> distinct (map fst d) \<Longrightarrow> dset k v d = d"
  by (induction d) (auto simp: rev_image_eqI split: if_splits)

lemma find_append: "find P (xs @ ys) = (case find P xs of None \<Rightarrow> find P ys | Some x \<Rightarrow> Some x)"
  by (induction xs) auto

end
