(* ===== verification/Field_Path.thy ===== *)
theory Field_Path
  imports Prelude
begin

text \<open>
  Protection field paths.  \<open>parse_protection_path\<close> and \<open>read_quoted_key\<close> model
  \<^verbatim>\<open>app/protection/field_path_parser.py\<close>; \<open>quoted_selector_flags\<close> models the second lexical scan
  of \<^verbatim>\<open>app/protection/engine.py\<close>; \<open>append_field_path\<close> models the printer of
  \<^verbatim>\<open>app/schema_observation/path_walker.py\<close>.  The loops over an index \<open>i\<close> into the text become
  recursions over the text that is left.  Proved here: printing and parsing round trip, and the
  two scanners agree on every path the parser accepts.
\<close>

section \<open>Characters of the grammar\<close>

abbreviation ch_dot :: nat where "ch_dot \<equiv> 46"
abbreviation ch_lbrack :: nat where "ch_lbrack \<equiv> 91"
abbreviation ch_rbrack :: nat where "ch_rbrack \<equiv> 93"
abbreviation ch_bslash :: nat where "ch_bslash \<equiv> 92"
abbreviation ch_squote :: nat where "ch_squote \<equiv> 39"
abbreviation ch_dquote :: nat where "ch_dquote \<equiv> 34"
abbreviation ch_u :: nat where "ch_u \<equiv> 117"

text \<open>A token is a member name (the name \<open>[]\<close> is the array wildcard) or an array index.\<close>

datatype seg = SStr ustr | SInt int

abbreviation wildcard :: seg where "wildcard \<equiv> SStr (u ''[]'')"

definition HEX :: "nat \<Rightarrow> bool" where
  "HEX c \<longleftrightarrow> (48 \<le> c \<and> c \<le> 57) \<or> (97 \<le> c \<and> c \<le> 102) \<or> (65 \<le> c \<and> c \<le> 70)"

definition hex_value :: "nat \<Rightarrow> nat" where
  "hex_value c = (if c \<le> 57 then c - 48 else if c \<le> 70 then c - 55 else c - 87)"

fun simple_escapes :: "nat \<Rightarrow> nat option" where
  "simple_escapes c =
     (if c = 92 then Some 92 else if c = 39 then Some 39 else if c = 34 then Some 34
      else if c = 47 then Some 47 else if c = 98 then Some 8 else if c = 102 then Some 12
      else if c = 110 then Some 10 else if c = 114 then Some 13 else if c = 116 then Some 9
      else None)"

declare simple_escapes.simps [simp del]

definition ident_start :: "nat \<Rightarrow> bool" where
  "ident_start c \<longleftrightarrow> (65 \<le> c \<and> c \<le> 90) \<or> (97 \<le> c \<and> c \<le> 122) \<or> c = 95"

definition ident_char :: "nat \<Rightarrow> bool" where
  "ident_char c \<longleftrightarrow> ident_start c \<or> is_digit c"

definition is_bare_key :: "ustr \<Rightarrow> bool" where
  "is_bare_key t = (case t of [] \<Rightarrow> False | c # cs \<Rightarrow> ident_start c \<and> list_all ident_char cs)"

definition is_integer_index :: "ustr \<Rightarrow> bool" where
  "is_integer_index t =
     (let d = (case t of c # cs \<Rightarrow> if c = 45 then cs else t | [] \<Rightarrow> [])
      in d = [48] \<or> (case d of c # cs \<Rightarrow> 49 \<le> c \<and> c \<le> 57 \<and> list_all is_digit cs | [] \<Rightarrow> False))"

fun digits_value :: "ustr \<Rightarrow> nat \<Rightarrow> nat" where
  "digits_value [] n = n"
| "digits_value (c # cs) n = digits_value cs (10 * n + (c - 48))"

definition int_of_token :: "ustr \<Rightarrow> int" where
  "int_of_token t = (case t of c # cs \<Rightarrow>
     if c = 45 then - int (digits_value cs 0) else int (digits_value t 0) | [] \<Rightarrow> 0)"

section \<open>The parser\<close>

text \<open>The argument is the text after the \<open>u\<close> of the escape.\<close>

definition unicode_escape :: "ustr \<Rightarrow> (nat \<times> ustr) result" where
  "unicode_escape s =
     (let digits = take 4 s
      in if length digits \<noteq> 4 \<or> \<not> list_all HEX digits
         then Inl (ValueError (u ''Invalid Unicode escape in Protection field path''))
         else Inr (foldl (\<lambda>n c. 16 * n + hex_value c) 0 digits, drop 4 s))"

lemma unicode_escape_length: "unicode_escape s = Inr (cp, r) \<Longrightarrow> length r < length s"
  by (auto simp: unicode_escape_def Let_def split: if_splits)

text \<open>
  The escape branch of the loop body: the argument is the text after the backslash, the result
  the code point it denotes and the text after the escape.
\<close>

definition read_escape :: "ustr \<Rightarrow> (nat \<times> ustr) result" where
  "read_escape cs = (case cs of
     [] \<Rightarrow> Inl (ValueError (u ''Unterminated escape in Protection field path''))
   | esc # ds \<Rightarrow>
       (case simple_escapes esc of
          Some v \<Rightarrow> Inr (v, ds)
        | None \<Rightarrow>
            if esc \<noteq> ch_u
            then Inl (ValueError (u ''Unsupported escape in Protection field path''))
            else case unicode_escape ds of
              Inl e \<Rightarrow> Inl e
            | Inr (cp, es) \<Rightarrow>
                if 0xD800 \<le> cp \<and> cp \<le> 0xDBFF then
                  if take 2 es \<noteq> [ch_bslash, ch_u]
                  then Inl (ValueError (u ''Missing low surrogate in Protection field path''))
                  else case unicode_escape (drop 2 es) of
                    Inl e \<Rightarrow> Inl e
                  | Inr (low, fs) \<Rightarrow>
                      if \<not> (0xDC00 \<le> low \<and> low \<le> 0xDFFF)
                      then Inl (ValueError (u ''Invalid low surrogate in Protection field path''))
                      else Inr (0x10000 + (cp - 0xD800) * 1024 + (low - 0xDC00), fs)
                else if 0xDC00 \<le> cp \<and> cp \<le> 0xDFFF
                then Inl (ValueError (u ''Unpaired low surrogate in Protection field path''))
                else Inr (cp, es)))"

lemma read_escape_length: "read_escape s = Inr (cp, r) \<Longrightarrow> length r < length s"
  by (auto simp: read_escape_def split: if_splits list.splits option.splits sum.splits prod.splits
        dest!: unicode_escape_length)

function read_quoted_key :: "nat \<Rightarrow> ustr \<Rightarrow> ustr \<Rightarrow> (ustr \<times> ustr) result" where
  "read_quoted_key q [] acc =
     Inl (ValueError (u ''Unterminated quoted member in Protection field path''))"
| "read_quoted_key q (c # cs) acc =
     (if c = q then
        if acc = u ''[]''
        then Inl (ValueError (u ''Ambiguous literal '[]' member requires a versioned path''))
        else Inr (acc, cs)
      else if c \<noteq> ch_bslash then
        if c < 32 then Inl (ValueError (u ''Unescaped control character in Protection field path''))
        else read_quoted_key q cs (acc @ [c])
      else case read_escape cs of
        Inl e \<Rightarrow> Inl e
      | Inr (cp, ds) \<Rightarrow> read_quoted_key q ds (acc @ [cp]))"
  by pat_completeness auto
termination
  by (relation "measure (\<lambda>(q, s, acc). length s)")
     (auto dest!: read_escape_length)

definition not_boundary :: "nat \<Rightarrow> bool" where
  "not_boundary c \<longleftrightarrow> c \<noteq> ch_dot \<and> c \<noteq> ch_lbrack"

lemma read_quoted_key_length:
  "read_quoted_key q s acc = Inr (m, r) \<Longrightarrow> length r < length s"
proof (induction q s acc rule: read_quoted_key.induct)
  case (2 q c cs acc)
  then show ?case
    by (fastforce split: if_splits sum.splits prod.splits dest!: read_escape_length)
qed simp

text \<open>
  One iteration of the loop of \<open>parse_protection_path\<close>: the marker \<open>m\<close> and the text \<open>r\<close> after
  it give the next token and the text behind it.
\<close>

definition next_token :: "nat \<Rightarrow> ustr \<Rightarrow> (seg \<times> ustr) result" where
  "next_token m r =
     (if m = ch_dot then
        let name = takeWhile not_boundary r
        in if name = [] \<or> ch_rbrack \<in> set name
           then Inl (ValueError (u ''Invalid dot-notation Protection field path''))
           else Inr (SStr name, dropWhile not_boundary r)
      else if m \<noteq> ch_lbrack then Inl (ValueError (u ''Invalid Protection field path selector''))
      else if startswith r (u '']'') then Inr (wildcard, drop 1 r)
      else if startswith r (u ''*]'') then Inr (wildcard, drop 2 r)
      else if startswith r (u '':]'') then Inr (wildcard, drop 2 r)
      else if startswith r (u ''::]'') then Inr (wildcard, drop 3 r)
      else if r \<noteq> [] \<and> (hd r = ch_squote \<or> hd r = ch_dquote) then
        (case read_quoted_key (hd r) (tl r) [] of
           Inl e \<Rightarrow> Inl e
         | Inr (member, rest) \<Rightarrow>
             if rest = [] \<or> hd rest \<noteq> ch_rbrack
             then Inl (ValueError (u ''Missing bracket after quoted Protection member''))
             else Inr (SStr member, tl rest))
      else if ch_rbrack \<notin> set r
      then Inl (ValueError (u ''Unclosed bracket in Protection field path''))
      else
        let token = takeWhile (\<lambda>c. c \<noteq> ch_rbrack) r;
            rest = tl (dropWhile (\<lambda>c. c \<noteq> ch_rbrack) r)
        in if is_integer_index token then Inr (SInt (int_of_token token), rest)
           else if is_bare_key token then Inr (SStr token, rest)
           else Inl (ValueError (u ''Unsupported Protection path bracket selector'')))"

lemma length_tl_dropWhile: "length (dropWhile P xs) - Suc 0 \<le> length xs"
  using length_dropWhile_le [of P xs] by linarith

lemma next_token_length:
  assumes "next_token m r = Inr (t, rest)" shows "length rest \<le> length r"
proof -
  have "length (tl rest') \<le> length r"
    if "read_quoted_key (hd r) (tl r) [] = Inr (mem, rest')" for mem rest'
    using read_quoted_key_length [OF that] by simp
  with assms show ?thesis
    by (auto simp: next_token_def Let_def length_dropWhile_le length_tl_dropWhile
        split: if_splits sum.splits prod.splits)
qed

function parse_tokens :: "ustr \<Rightarrow> seg list result" where
  "parse_tokens [] = Inr []"
| "parse_tokens (m # r) =
     (case next_token m r of
        Inl e \<Rightarrow> Inl e
      | Inr (t, rest) \<Rightarrow> rbind (parse_tokens rest) (\<lambda>ts. Inr (t # ts)))"
  by pat_completeness auto
termination
  by (relation "measure length") (auto dest!: next_token_length)

definition parse_protection_path :: "ustr \<Rightarrow> seg list result" where
  "parse_protection_path path =
     (let text = strip path
      in if text = [] then Inr []
         else let text = (if startswith text (u ''$'') then text else u ''$.'' @ text)
              in if text = u ''$'' then Inr [] else parse_tokens (drop 1 text))"

section \<open>The second scanner of the engine\<close>

fun skip_quoted :: "nat \<Rightarrow> ustr \<Rightarrow> ustr" where
  "skip_quoted q [] = []"
| "skip_quoted q (c # cs) =
     (if c = ch_bslash then skip_quoted q (drop 1 cs)
      else if c = q then cs
      else skip_quoted q cs)"

lemma skip_quoted_length: "length (skip_quoted q s) \<le> length s"
  by (induction q s rule: skip_quoted.induct) auto

definition next_flag :: "nat \<Rightarrow> ustr \<Rightarrow> (bool \<times> ustr) result" where
  "next_flag m r =
     (if m = ch_dot then Inr (False, dropWhile not_boundary r)
      else if m = ch_lbrack then
        if r \<noteq> [] \<and> (hd r = ch_squote \<or> hd r = ch_dquote) then
          let rest = skip_quoted (hd r) (tl r)
          in if rest = [] \<or> hd rest \<noteq> ch_rbrack
             then Inl (ValueError (u ''Malformed quoted Protection selector''))
             else Inr (True, tl rest)
        else if ch_rbrack \<notin> set r then Inl (ValueError (u ''Unclosed Protection selector''))
        else Inr (False, tl (dropWhile (\<lambda>c. c \<noteq> ch_rbrack) r))
      else Inl (ValueError (u ''Unexpected Protection selector boundary'')))"

lemma next_flag_length:
  assumes "next_flag m r = Inr (b, rest)" shows "length rest \<le> length r"
proof -
  have "length (tl (skip_quoted (hd r) (tl r))) \<le> length r"
    using skip_quoted_length [of "hd r" "tl r"] by simp
  with assms show ?thesis
    by (auto simp: next_flag_def Let_def length_dropWhile_le length_tl_dropWhile split: if_splits)
qed

function selector_flags :: "ustr \<Rightarrow> bool list result" where
  "selector_flags [] = Inr []"
| "selector_flags (m # r) =
     (case next_flag m r of
        Inl e \<Rightarrow> Inl e
      | Inr (b, rest) \<Rightarrow> rbind (selector_flags rest) (\<lambda>fs. Inr (b # fs)))"
  by pat_completeness auto
termination
  by (relation "measure length") (auto dest!: next_flag_length)

definition quoted_selector_flags :: "ustr \<Rightarrow> bool list result" where
  "quoted_selector_flags field_path =
     (let value = strip field_path;
          value = (if startswith value (u ''$'') then value else u ''$.'' @ value)
      in selector_flags (drop 1 value))"

section \<open>The printer\<close>

definition encode_char :: "nat \<Rightarrow> ustr" where
  "encode_char c =
     (if c = 92 then [92, 92] else if c = 39 then [92, 39] else if c = 8 then [92, 98]
      else if c = 12 then [92, 102] else if c = 10 then [92, 110] else if c = 13 then [92, 114]
      else if c = 9 then [92, 116]
      else if c < 32 then [92, 117, 48, 48, hex_digit (c div 16), hex_digit (c mod 16)]
      else [c])"

definition append_field_path :: "ustr \<Rightarrow> ustr \<Rightarrow> ustr" where
  "append_field_path parent key =
     (if is_bare_key key then parent @ u ''.'' @ key
      else parent @ u ''['' @ [ch_squote] @ concat (map encode_char key) @ [ch_squote] @ u '']'')"

text \<open>
  The walker descends through object members, whose names it appends with
  \<open>append_field_path\<close>, and through arrays, for which it appends \<open>[]\<close>.
\<close>

datatype step = Member ustr | AnyItem

fun extend_path :: "ustr \<Rightarrow> step \<Rightarrow> ustr" where
  "extend_path p (Member k) = append_field_path p k"
| "extend_path p AnyItem = p @ u ''[]''"

definition path_of_steps :: "step list \<Rightarrow> ustr" where
  "path_of_steps steps = foldl extend_path (u ''$'') steps"

fun seg_of_step :: "step \<Rightarrow> seg" where
  "seg_of_step (Member k) = SStr k"
| "seg_of_step AnyItem = wildcard"

section \<open>Escapes and quoted members\<close>

lemma hex_digit_HEX: "n < 16 \<Longrightarrow> HEX (hex_digit n)"
  by (auto simp: HEX_def hex_digit_def)
lemma hex_value_digit: "n < 16 \<Longrightarrow> hex_value (hex_digit n) = n"
  by (auto simp: hex_value_def hex_digit_def)

lemma read_escape_encode:
  assumes "c < 32 \<or> c = 92 \<or> c = 39"
  shows "\<exists>e. encode_char c = ch_bslash # e \<and> read_escape (e @ r) = Inr (c, r)"
proof -
  have u4: "read_escape ([117, 48, 48, hex_digit (c div 16), hex_digit (c mod 16)] @ r) = Inr (c, r)"
    if "c < 32"
  proof -
    from that have "c div 16 < 16" by simp
    moreover have "c div 16 * 16 + c mod 16 = c" by simp
    ultimately show ?thesis using that
      by (simp add: read_escape_def unicode_escape_def simple_escapes.simps hex_digit_HEX
          hex_value_digit HEX_def [of 48] hex_value_def [of 48])
  qed
  show ?thesis using assms u4
    by (auto simp: encode_char_def read_escape_def simple_escapes.simps)
qed

lemma read_quoted_encode:
  "read_quoted_key ch_squote (concat (map encode_char k) @ ch_squote # r) acc =
     (if acc @ k = u ''[]''
      then Inl (ValueError (u ''Ambiguous literal '[]' member requires a versioned path''))
      else Inr (acc @ k, r))"
proof (induction k arbitrary: acc)
  case (Cons c k)
  show ?case
  proof (cases "c < 32 \<or> c = 92 \<or> c = 39")
    case True
    then obtain e where "encode_char c = ch_bslash # e"
      "read_escape (e @ concat (map encode_char k) @ ch_squote # r) =
         Inr (c, concat (map encode_char k) @ ch_squote # r)"
      using read_escape_encode by blast
    then show ?thesis using Cons.IH [of "acc @ [c]"] by simp
  next
    case False
    then have "encode_char c = [c]" by (auto simp: encode_char_def)
    with False show ?thesis using Cons.IH [of "acc @ [c]"] by simp
  qed
qed simp

lemma HEX_not_special: "HEX c \<Longrightarrow> c \<noteq> 92 \<and> c \<noteq> 39 \<and> c \<noteq> 34"
  by (auto simp: HEX_def)

lemma skip_quoted_hex: "list_all HEX ds \<Longrightarrow> q \<in> {39, 34} \<Longrightarrow> skip_quoted q (ds @ r) = skip_quoted q r"
  by (induction ds) (auto dest!: HEX_not_special)

lemma unicode_escape_split:
  assumes "unicode_escape s = Inr (cp, r)"
  shows "\<exists>ds. s = ds @ r \<and> list_all HEX ds"
proof -
  have "s = take 4 s @ r \<and> list_all HEX (take 4 s)"
    using assms by (auto simp: unicode_escape_def Let_def split: if_splits)
  then show ?thesis by blast
qed

lemma skip_unicode:
  assumes "unicode_escape s = Inr (cp, r)" "q \<in> {39, 34}"
  shows "skip_quoted q s = skip_quoted q r"
  using unicode_escape_split [OF assms(1)] skip_quoted_hex assms(2) by blast

lemma skip_escape:
  assumes "read_escape s = Inr (cp, r)" "q \<in> {39, 34}"
  shows "skip_quoted q (ch_bslash # s) = skip_quoted q r"
proof (cases s)
  case Nil
  with assms show ?thesis by (simp add: read_escape_def)
next
  case (Cons e ds)
  show ?thesis
  proof (cases "simple_escapes e")
    case (Some v)
    with assms Cons show ?thesis by (simp add: read_escape_def)
  next
    case None
    with assms(1) Cons obtain c es where e: "unicode_escape ds = Inr (c, es)"
      and r: "(if 0xD800 \<le> c \<and> c \<le> 0xDBFF then take 2 es = [ch_bslash, ch_u] \<and>
                 (\<exists>low. unicode_escape (drop 2 es) = Inr (low, r)) else r = es)"
      by (auto simp: read_escape_def split: if_splits sum.splits prod.splits)
    have "skip_quoted q (ch_bslash # s) = skip_quoted q es"
      using Cons skip_unicode [OF e assms(2)] by simp
    moreover have "skip_quoted q es = skip_quoted q r"
    proof (cases "0xD800 \<le> c \<and> c \<le> 0xDBFF")
      case True
      with r obtain low where t: "take 2 es = [ch_bslash, ch_u]" and
        l: "unicode_escape (drop 2 es) = Inr (low, r)" by auto
      then have "es = ch_bslash # ch_u # drop 2 es"
        by (metis append_Cons append_Nil append_take_drop_id)
      then have "skip_quoted q es = skip_quoted q (drop 2 es)"
        by (metis drop_Suc_Cons drop0 skip_quoted.simps(2) One_nat_def)
      with skip_unicode [OF l assms(2)] show ?thesis by simp
    next
      case False
      with r show ?thesis by auto
    qed
    ultimately show ?thesis by simp
  qed
qed

lemma read_quoted_skip:
  "read_quoted_key q s acc = Inr (m, r) \<Longrightarrow> q \<in> {39, 34} \<Longrightarrow> skip_quoted q s = r"
proof (induction q s acc rule: read_quoted_key.induct)
  case (2 q c cs acc)
  show ?case
  proof (cases "c = q \<or> c \<noteq> ch_bslash")
    case True
    with 2 show ?thesis by (auto split: if_splits)
  next
    case False
    with "2.prems" obtain cp ds where e: "read_escape cs = Inr (cp, ds)"
      and k: "read_quoted_key q ds (acc @ [cp]) = Inr (m, r)"
      by (auto split: sum.splits)
    from False have "skip_quoted q ds = r"
      using "2.IH"(2) e k "2.prems"(2) by auto
    with skip_escape [OF e "2.prems"(2)] False show ?thesis by simp
  qed
qed simp


section \<open>The two scanners agree\<close>

lemma startswith_split: "startswith s p \<Longrightarrow> s = p @ drop (length p) s"
  by (metis append_take_drop_id startswith_def)

lemma u_brackets:
  "u '']'' = [93]" "u ''*]'' = [42, 93]" "u '':]'' = [58, 93]" "u ''::]'' = [58, 58, 93]"
  "u ''[]'' = [91, 93]" "u ''['' = [91]" "u ''.'' = [46]" "u ''$'' = [36]" "u ''$.'' = [36, 46]"
  by (simp_all add: u_def)

lemma next_flag_bracket:
  assumes "startswith r (pre @ [ch_rbrack])" "list_all (\<lambda>c. c \<notin> {39, 34, 93}) pre"
  shows "next_flag ch_lbrack r = Inr (False, drop (Suc (length pre)) r)"
proof -
  obtain x where x: "r = pre @ ch_rbrack # x" and d: "drop (Suc (length pre)) r = x"
    using startswith_split [OF assms(1)]
    by (metis append.assoc append_Cons append_Nil length_append_singleton)
  have "dropWhile (\<lambda>c. c \<noteq> ch_rbrack) r = ch_rbrack # x"
    using assms(2) unfolding x by (induction pre) auto
  moreover have "hd r \<noteq> ch_squote \<and> hd r \<noteq> ch_dquote"
    using assms(2) unfolding x by (cases pre) auto
  ultimately show ?thesis using d x by (simp add: next_flag_def)
qed

lemmas next_flag_wildcards =
  next_flag_bracket [where pre = "[]", simplified]
  next_flag_bracket [where pre = "[42]", simplified]
  next_flag_bracket [where pre = "[58]", simplified]
  next_flag_bracket [where pre = "[58, 58]", simplified]

lemma next_token_flag:
  assumes "next_token m r = Inr (t, rest)"
  shows "\<exists>b. next_flag m r = Inr (b, rest)"
proof (cases "m = ch_lbrack \<and> (startswith r (u '']'') \<or> startswith r (u ''*]'')
    \<or> startswith r (u '':]'') \<or> startswith r (u ''::]''))")
  case True
  with assms show ?thesis
    by (auto simp: next_token_def u_brackets next_flag_wildcards numeral_2_eq_2 numeral_3_eq_3
        split: if_splits)
next
  case False
  have "skip_quoted (hd r) (tl r) = rest'"
    if "read_quoted_key (hd r) (tl r) [] = Inr (mem, rest')" "hd r = 39 \<or> hd r = 34" for mem rest'
    using read_quoted_skip [OF that(1)] that(2) by auto
  with False assms show ?thesis
    by (auto simp: next_token_def next_flag_def Let_def split: if_splits sum.splits)
qed

lemma parse_tokens_flags:
  "parse_tokens s = Inr ts \<Longrightarrow> \<exists>fs. selector_flags s = Inr fs \<and> length fs = length ts"
proof (induction s arbitrary: ts rule: parse_tokens.induct)
  case (2 m r)
  then obtain t rest ts' where n: "next_token m r = Inr (t, rest)"
    and p: "parse_tokens rest = Inr ts'" "ts = t # ts'"
    by (auto simp: rbind_Inr_iff split: sum.splits)
  with 2(1) next_token_flag [OF n] show ?case by fastforce
qed simp

section \<open>Printing and parsing\<close>

definition step_text :: "step \<Rightarrow> ustr" where
  "step_text s = extend_path [] s"

lemma extend_path_append: "extend_path p s = p @ step_text s"
  by (cases s) (auto simp: step_text_def append_field_path_def)

lemma path_of_steps_eq: "path_of_steps steps = 36 # concat (map step_text steps)"
proof -
  have "foldl extend_path p steps = p @ concat (map step_text steps)" for p
    by (induction steps arbitrary: p) (auto simp: extend_path_append)
  then show ?thesis by (simp add: path_of_steps_def u_brackets)
qed

lemma bare_key_chars: "is_bare_key k \<Longrightarrow> k \<noteq> [] \<and> list_all (\<lambda>c. not_boundary c \<and> c \<noteq> 93 \<and> \<not> is_space c) k"
  by (cases k) (auto simp: is_bare_key_def ident_start_def ident_char_def is_digit_def not_boundary_def
      is_space_def list_all_iff)

lemma step_text_head: "\<exists>c cs. step_text s = c # cs \<and> (c = 46 \<or> c = 91)"
  by (cases s) (auto simp: step_text_def append_field_path_def u_brackets)

lemma steps_text_boundary: "takeWhile not_boundary (concat (map step_text steps)) = []"
  "dropWhile not_boundary (concat (map step_text steps)) = concat (map step_text steps)"
proof -
  show "takeWhile not_boundary (concat (map step_text steps)) = []"
  proof (cases steps)
    case (Cons s ss)
    with step_text_head [of s] show ?thesis by (auto simp: not_boundary_def)
  qed simp
  then show "dropWhile not_boundary (concat (map step_text steps)) = concat (map step_text steps)"
    by (metis append_Nil takeWhile_dropWhile_id)
qed

lemma parse_steps:
  "parse_tokens (concat (map step_text steps)) =
     (if Member (u ''[]'') \<in> set steps
      then Inl (ValueError (u ''Ambiguous literal '[]' member requires a versioned path''))
      else Inr (map seg_of_step steps))"
proof (induction steps)
  case (Cons s steps)
  let ?rest = "concat (map step_text steps)"
  show ?case
  proof (cases s)
    case AnyItem
    then have "step_text s = [91, 93]" by (simp add: step_text_def u_brackets)
    moreover have "next_token 91 (93 # ?rest) = Inr (wildcard, ?rest)"
      by (simp add: next_token_def u_brackets startswith_def)
    ultimately show ?thesis using Cons AnyItem by simp
  next
    case (Member k)
    show ?thesis
    proof (cases "is_bare_key k")
      case True
      then have t: "step_text s = 46 # k" using Member
        by (simp add: step_text_def append_field_path_def u_brackets)
      have k: "k \<noteq> []" "\<And>c. c \<in> set k \<Longrightarrow> not_boundary c" "93 \<notin> set k"
        using bare_key_chars [OF True] by (auto simp: list_all_iff)
      then have "k \<noteq> u ''[]''" by (auto simp: u_brackets)
      moreover have "next_token 46 (k @ ?rest) = Inr (SStr k, ?rest)"
        using k steps_text_boundary [of steps]
        by (simp add: next_token_def takeWhile_append2 dropWhile_append2)
      ultimately show ?thesis using Cons Member t by simp
    next
      case False
      then have t: "step_text s = 91 # 39 # concat (map encode_char k) @ [39, 93]" using Member
        by (simp add: step_text_def append_field_path_def u_brackets)
      have "next_token 91 (39 # concat (map encode_char k) @ 39 # 93 # ?rest) =
        (if k = u ''[]'' then Inl (ValueError (u ''Ambiguous literal '[]' member requires a versioned path''))
         else Inr (SStr k, ?rest))"
        using read_quoted_encode [of k "93 # ?rest" "[]"]
        by (simp add: next_token_def startswith_def u_brackets)
      then show ?thesis using Cons Member t by auto
    qed
  qed
qed simp

lemma strip_id:
  assumes "s \<noteq> []" "\<not> is_space (hd s)" "\<not> is_space (last s)"
  shows "strip s = s"
proof -
  have "dropWhile is_space s = s" using assms by (cases s) auto
  moreover have "dropWhile is_space (rev s) = rev s"
    using assms by (cases s rule: rev_cases) auto
  ultimately show ?thesis by (simp add: strip_def)
qed

lemma step_text_last: "\<not> is_space (last (step_text s))"
proof (cases s)
  case AnyItem
  then show ?thesis by (simp add: step_text_def u_brackets is_space_def)
next
  case (Member k)
  show ?thesis
  proof (cases "is_bare_key k")
    case True
    with bare_key_chars [OF True] Member show ?thesis
      by (simp add: step_text_def append_field_path_def list_all_iff)
  next
    case False
    with Member show ?thesis
      by (simp add: step_text_def append_field_path_def u_brackets is_space_def)
  qed
qed

lemma strip_path_of_steps: "strip (path_of_steps steps) = path_of_steps steps"
proof -
  have "\<not> is_space (last (36 # concat (map step_text steps)))"
  proof (cases steps rule: rev_cases)
    case (snoc ss s)
    with step_text_last [of s] step_text_head [of s] show ?thesis by auto
  qed (simp add: is_space_def)
  then show ?thesis by (intro strip_id) (simp_all add: path_of_steps_eq is_space_def)
qed

text \<open>
  C12. Round trip of field paths.  Parsing the path the schema walker prints for a sequence of
  object members and array steps gives back exactly those tokens, whatever characters the member
  names contain (dots, brackets, quotes, control characters); the only name the parser refuses is
  a literal \<open>[]\<close>, which would collide with the array wildcard.
\<close>

theorem path_roundtrip:
  "parse_protection_path (path_of_steps steps) =
     (if Member (u ''[]'') \<in> set steps
      then Inl (ValueError (u ''Ambiguous literal '[]' member requires a versioned path''))
      else Inr (map seg_of_step steps))"
proof (cases steps)
  case Nil
  then show ?thesis
    by (simp add: path_of_steps_def parse_protection_path_def strip_def u_brackets startswith_def
        is_space_def)
next
  case (Cons s ss)
  then have "concat (map step_text steps) \<noteq> []" using step_text_head [of s] by auto
  then have "parse_protection_path (path_of_steps steps) = parse_tokens (concat (map step_text steps))"
    by (simp add: parse_protection_path_def strip_path_of_steps)
       (auto simp: path_of_steps_eq u_brackets startswith_def)
  then show ?thesis by (simp add: parse_steps)
qed

lemma parsed_path_flags:
  assumes "parse_protection_path p = Inr segs" and "segs \<noteq> []"
  shows "\<exists>flags. quoted_selector_flags p = Inr flags \<and> length flags = length segs"
proof -
  let ?t = "if startswith (strip p) (u ''$'') then strip p else u ''$.'' @ strip p"
  from assms have "parse_tokens (drop 1 ?t) = Inr segs"
    by (auto simp: parse_protection_path_def Let_def split: if_splits)
  then show ?thesis
    using parse_tokens_flags by (auto simp: quoted_selector_flags_def Let_def)
qed

text \<open>
  The two scanners of a protection path agree.  Whenever the parser accepts a path with at
  least one selector, the engine's scan for quoted selectors succeeds on the same text and marks
  exactly one flag per selector, so the boundary-mismatch error is never raised.
\<close>

lemma selector_scanners_agree:
  assumes "parse_protection_path p = Inr segs" and "segs \<noteq> []"
  shows "\<exists>flags. quoted_selector_flags p = Inr flags \<and> length flags = length segs"
  using parsed_path_flags [OF assms] .

lemma selector_scanners_agree_witness:
  "parse_protection_path (u ''$.a[]'') =
     Inr [SStr (u ''a''), wildcard] \<and>
   (\<exists>flags. quoted_selector_flags (u ''$.a[]'') = Inr flags \<and> length flags = 2)"
proof -
  have h: "parse_protection_path (u ''$.a[]'') =
     Inr [SStr (u ''a''), wildcard]"
    by (simp add: parse_protection_path_def strip_def u_def is_space_def startswith_def
        next_token_def not_boundary_def)
  from selector_scanners_agree [OF h] h show ?thesis by (simp add: numeral_2_eq_2)
qed

end
