(* ===== verification/Masking.thy ===== *)
theory Masking
  imports Prelude
begin

text \<open>
  Protection modes, from \<^verbatim>\<open>app/protection/modes.py\<close>: full masking, partial masking (email, phone
  number, other text) and keyed hashing.  The keyed digest itself is the parameter \<open>hmac\<close> of
  \<open>hash_mask_value\<close>.  Proved here: what a mask can still reveal of the value it replaces.
\<close>

section \<open>Text classes of the regular expressions\<close>

text \<open>
  \<open>is_decimal\<close> is the class \<^verbatim>\<open>\d\<close> of Python's \<open>re\<close> on text: the first code points of the blocks
  of ten decimal digits, and the five blocks of mathematical digits.
\<close>

definition decimal_blocks :: "nat list" where
  "decimal_blocks =
     [0x30, 0x660, 0x6f0, 0x7c0, 0x966, 0x9e6, 0xa66, 0xae6, 0xb66, 0xbe6, 0xc66, 0xce6, 0xd66,
      0xde6, 0xe50, 0xed0, 0xf20, 0x1040, 0x1090, 0x17e0, 0x1810, 0x1946, 0x19d0, 0x1a80, 0x1a90,
      0x1b50, 0x1bb0, 0x1c40, 0x1c50, 0xa620, 0xa8d0, 0xa900, 0xa9d0, 0xa9f0, 0xaa50, 0xabf0,
      0xff10, 0x104a0, 0x10d30, 0x11066, 0x110f0, 0x11136, 0x111d0, 0x112f0, 0x11450, 0x114d0,
      0x11650, 0x116c0, 0x11730, 0x118e0, 0x11950, 0x11c50, 0x11d50, 0x11da0, 0x16a60, 0x16ac0,
      0x16b50, 0x1d7ce, 0x1d7d8, 0x1d7e2, 0x1d7ec, 0x1d7f6, 0x1e140, 0x1e2f0, 0x1e950, 0x1fbf0]"

definition is_decimal :: "nat \<Rightarrow> bool" where
  "is_decimal c \<longleftrightarrow> list_ex (\<lambda>b. b \<le> c \<and> c < b + 10) decimal_blocks"

abbreviation ch_at :: nat where "ch_at \<equiv> 64"

text \<open>\<open>partition_at s\<close> is \<^verbatim>\<open>s.partition("@")\<close> without the middle part.\<close>

definition partition_at :: "ustr \<Rightarrow> ustr \<times> ustr" where
  "partition_at s = (takeWhile (\<lambda>c. c \<noteq> ch_at) s, drop 1 (dropWhile (\<lambda>c. c \<noteq> ch_at) s))"

text \<open>
  The regular expression \<^verbatim>\<open>^[^@\s]+@[^@\s]+\.[^@\s]+$\<close> on stripped text: one at-sign, no white
  space, a non-empty local part, and a dot inside the domain with text on both sides.
\<close>

definition EMAIL_RE :: "ustr \<Rightarrow> bool" where
  "EMAIL_RE s \<longleftrightarrow>
     (let (local, domain) = partition_at s
      in ch_at \<in> set s \<and> local \<noteq> [] \<and> ch_at \<notin> set domain \<and>
         list_all (\<lambda>c. \<not> is_space c) s \<and> 46 \<in> set (butlast (drop 1 domain)))"

section \<open>The modes\<close>

definition MASK_LITERAL :: ustr where
  "MASK_LITERAL = u ''********''"

definition full_mask_value :: "json \<Rightarrow> json" where
  "full_mask_value v = (case v of
     JNull \<Rightarrow> JNull
   | JStr _ \<Rightarrow> JStr MASK_LITERAL
   | JBool _ \<Rightarrow> JBool False
   | JInt _ \<Rightarrow> JNull
   | JFloat _ \<Rightarrow> JNull
   | JDict _ \<Rightarrow> JDict []
   | JList _ \<Rightarrow> JList [])"

definition partial_mask_email :: "ustr \<Rightarrow> ustr" where
  "partial_mask_email email =
     (let (local, domain) = partition_at email
      in if local = [] \<or> domain = [] then MASK_LITERAL
         else
           let local_mask = take 1 local @ u ''***'';
               parts = split_on 46 domain
           in if length parts < 2 then local_mask @ u ''@'' @ take 1 domain @ u ''***''
              else
                let tld = last parts; first_label = hd parts;
                    domain_mask = (if first_label \<noteq> [] then take 1 first_label @ u ''***.'' @ tld
                                   else u ''***.'' @ tld)
                in local_mask @ u ''@'' @ domain_mask)"

definition partial_mask_value :: "json \<Rightarrow> json" where
  "partial_mask_value v = (case v of
     JStr value \<Rightarrow>
       (let text = strip value
        in if text = [] then JStr MASK_LITERAL
           else if ch_at \<in> set text \<and> EMAIL_RE text then JStr (partial_mask_email text)
           else
             let digits = filter is_decimal text
             in if 7 \<le> length digits then JStr (u ''***'' @ last_n 4 digits)
                else if length text \<le> 4 then JStr MASK_LITERAL
                else JStr (u ''*******'' @ last_n 4 text))
   | _ \<Rightarrow> full_mask_value v)"

text \<open>
  \<open>value.encode("utf-8")\<close>; a lone surrogate is not encodable and raises.
\<close>

definition utf8_char :: "nat \<Rightarrow> nat list result" where
  "utf8_char c =
     (if c < 0x80 then Inr [c]
      else if c < 0x800 then Inr [0xC0 + c div 64, 0x80 + c mod 64]
      else if 0xD800 \<le> c \<and> c \<le> 0xDFFF then Inl (ValueError (u ''surrogates not allowed''))
      else if c < 0x10000 then Inr [0xE0 + c div 4096, 0x80 + c div 64 mod 64, 0x80 + c mod 64]
      else Inr [0xF0 + c div 262144, 0x80 + c div 4096 mod 64, 0x80 + c div 64 mod 64, 0x80 + c mod 64])"

definition utf8_encode :: "ustr \<Rightarrow> nat list result" where
  "utf8_encode s = rbind (rmap utf8_char s) (\<lambda>bs. Inr (concat bs))"

definition hash_mask_value :: "(nat list \<Rightarrow> nat list \<Rightarrow> ustr) \<Rightarrow> nat list \<Rightarrow> json \<Rightarrow> json result" where
  "hash_mask_value hmac key v = (case v of
     JStr value \<Rightarrow> rbind (utf8_encode value) (\<lambda>msg. Inr (JStr (u ''sha256:'' @ hmac key msg)))
   | _ \<Rightarrow> Inr (full_mask_value v))"

section \<open>What a mask reveals\<close>

text \<open>The Python type of a value, which is all that a full mask depends on.\<close>

datatype jtype = TNull | TBool | TInt | TFloat | TStr | TList | TDict

definition json_type :: "json \<Rightarrow> jtype" where
  "json_type v = (case v of JNull \<Rightarrow> TNull | JBool _ \<Rightarrow> TBool | JInt _ \<Rightarrow> TInt | JFloat _ \<Rightarrow> TFloat
     | JStr _ \<Rightarrow> TStr | JList _ \<Rightarrow> TList | JDict _ \<Rightarrow> TDict)"

text \<open>The values a full mask can produce; none of them holds anything below it.\<close>

definition masked :: "json \<Rightarrow> bool" where
  "masked v \<longleftrightarrow> v \<in> {JNull, JStr MASK_LITERAL, JBool False, JDict [], JList []}"

lemma full_mask_masked [simp]: "masked (full_mask_value v)"
  by (cases v) (auto simp: full_mask_value_def masked_def)

lemma full_mask_of_masked [simp]: "masked v \<Longrightarrow> full_mask_value v = v"
  by (auto simp: full_mask_value_def masked_def)

lemma full_mask_type_only: "json_type v = json_type w \<Longrightarrow> full_mask_value v = full_mask_value w"
  by (cases v; cases w) (auto simp: full_mask_value_def json_type_def)

lemma full_mask_ok [json_wf]: "json_ok (full_mask_value v)"
  by (cases v) (auto simp: full_mask_value_def)

lemma partial_mask_ok [json_wf]: "json_ok (partial_mask_value v)"
  by (cases v) (auto simp: partial_mask_value_def full_mask_value_def Let_def)

lemma hash_mask_ok [json_wf]: "hash_mask_value hmac key v = Inr w \<Longrightarrow> json_ok w"
  by (cases v) (auto simp: hash_mask_value_def full_mask_value_def rbind_Inr_iff)

lemma length_last_n [simp]: "length (last_n n xs) = min n (length xs)"
  by (simp add: last_n_def min_def)

text \<open>
  The part of a text a partial mask may still show: of an email the first character of the local
  part, the first character of the domain and the last domain label; of any other text the last
  four digits (when it has at least seven) or the last four characters (when it has more than
  four).
\<close>

definition disclosed :: "ustr \<Rightarrow> ustr list" where
  "disclosed text =
     (if text = [] then []
      else if EMAIL_RE text then
        let (local, domain) = partition_at text; parts = split_on 46 domain
        in [u ''email'', take 1 local, take 1 (hd parts), last parts]
      else if 7 \<le> length (filter is_decimal text) then [u ''digits'', last_n 4 (filter is_decimal text)]
      else if length text \<le> 4 then []
      else [u ''tail'', last_n 4 text])"

lemma email_at: "EMAIL_RE s \<Longrightarrow> ch_at \<in> set s"
  by (simp add: EMAIL_RE_def Let_def split: prod.splits)

lemma split_on_two: "c \<in> set s \<Longrightarrow> 2 \<le> length (split_on c s)"
proof (induction c s rule: split_on.induct)
  case (2 c x xs)
  have ne: "split_on c xs \<noteq> []" by (cases xs) (auto split: list.splits)
  show ?case
  proof (cases "x = c")
    case True
    with ne show ?thesis by (cases "split_on c xs") auto
  next
    case False
    with 2 show ?thesis by (auto split: list.splits)
  qed
qed simp

lemma email_domain:
  assumes "EMAIL_RE s"
  shows "fst (partition_at s) \<noteq> []" "snd (partition_at s) \<noteq> []"
    "2 \<le> length (split_on 46 (snd (partition_at s)))"
proof -
  let ?d = "snd (partition_at s)"
  from assms have l: "fst (partition_at s) \<noteq> []" and d: "46 \<in> set (butlast (drop 1 ?d))"
    by (simp_all add: EMAIL_RE_def Let_def split: prod.splits)
  from d have m: "46 \<in> set ?d" by (meson in_set_butlastD in_set_dropD)
  from l show "fst (partition_at s) \<noteq> []" .
  from m show "?d \<noteq> []" by auto
  from m show "2 \<le> length (split_on 46 ?d)" by (rule split_on_two)
qed

text \<open>A partial mask is a function of the disclosed part alone.\<close>

definition render_disclosed :: "ustr list \<Rightarrow> ustr" where
  "render_disclosed ds = (case ds of
     [_, a, b, c] \<Rightarrow> a @ u ''***'' @ u ''@'' @ b @ u ''***.'' @ c
   | [tag, x] \<Rightarrow> (if tag = u ''digits'' then u ''***'' else u ''*******'') @ x
   | _ \<Rightarrow> MASK_LITERAL)"

lemma partial_mask_email_disclosed:
  assumes "EMAIL_RE r" shows "partial_mask_email r = render_disclosed (disclosed r)"
proof -
  obtain l d where p: "partition_at r = (l, d)" by (cases "partition_at r")
  moreover have "r \<noteq> []" using email_at [OF assms] by auto
  ultimately show ?thesis using email_domain [OF assms] assms
    by (simp add: partial_mask_email_def disclosed_def render_disclosed_def Let_def)
qed

lemma partial_mask_disclosed:
  "partial_mask_value (JStr s) = JStr (render_disclosed (disclosed (strip s)))"
proof (cases "EMAIL_RE (strip s)")
  case True
  moreover have "strip s \<noteq> []" using email_at [OF True] by auto
  ultimately show ?thesis
    using email_at [OF True] by (simp add: partial_mask_value_def partial_mask_email_disclosed)
next
  case False
  then show ?thesis by (simp add: partial_mask_value_def disclosed_def render_disclosed_def Let_def)
qed

section \<open>Bounded disclosure\<close>

text \<open>
  C15. Partial masking discloses a bounded part of a text: two texts that agree on the disclosed
  part (of an email the first letters of its local part and domain and its last label, otherwise
  the last four digits or characters) have the same partial mask, so the mask reveals nothing
  else about them.
\<close>

theorem partial_mask_noninterference:
  assumes "disclosed (strip s) = disclosed (strip t)"
  shows "partial_mask_value (JStr s) = partial_mask_value (JStr t)"
  using assms by (simp add: partial_mask_disclosed)

theorem partial_mask_noninterference_witness:
  "disclosed (strip (u ''jane@corp.com'')) = disclosed (strip (u ''jill@civil.com'')) \<and>
   partial_mask_value (JStr (u ''jane@corp.com'')) = partial_mask_value (JStr (u ''jill@civil.com''))"
proof -
  have h: "disclosed (strip (u ''jane@corp.com'')) = disclosed (strip (u ''jill@civil.com''))"
    by (simp add: disclosed_def strip_def u_def is_space_def EMAIL_RE_def partition_at_def)
  from partial_mask_noninterference [OF h] h show ?thesis by blast
qed

end
