(* ===== verification/Identity_Vault.thy ===== *)
theory Identity_Vault
  imports Masking
begin

text \<open>
  The identity vault of \<^verbatim>\<open>app/protection/identity_vault.py\<close>: deterministic tokens for sensitive
  values, kept in a table with a unique key (stream, path, hash), unique tokens and a database
  sequence.  \<open>vault\<close> is the committed state of the table, the sequence and the streams that the rows
  refer to.  Other sessions may commit between the lookup and the insert of a token; \<open>interfere\<close> is
  what they do before the insert with a given number of attempts left.  The digest is the parameter
  \<open>sha\<close>.
\<close>

record vault_row =
  vr_stream :: int
  vr_path :: ustr
  vr_hash :: ustr
  vr_token :: ustr
  vr_created :: int
  vr_seen :: int

record vault =
  v_rows :: "vault_row list"
  v_seq :: nat
  v_streams :: "int list"

record vault_env =
  ve_sha :: "nat list \<Rightarrow> ustr"
  ve_vault_salt :: ustr
  ve_protection_salt :: ustr
  ve_now :: int
  ve_interfere :: "nat \<Rightarrow> vault \<Rightarrow> vault"

record token_batch_stats =
  batch_items :: nat
  cache_hits :: nat
  created :: nat

section \<open>Operations\<close>

definition vault_hash_salt :: "vault_env \<Rightarrow> ustr" where
  "vault_hash_salt env =
     (if strip (ve_vault_salt env) \<noteq> [] then strip (ve_vault_salt env)
      else if strip (ve_protection_salt env) \<noteq> [] then strip (ve_protection_salt env)
      else u ''gdc-identity-vault-default-salt'')"

definition hash_original_value :: "vault_env \<Rightarrow> int \<Rightarrow> ustr \<Rightarrow> ustr \<Rightarrow> ustr result" where
  "hash_original_value env stream_id field_path original_value =
     rbind (utf8_encode (int_str stream_id @ [10] @ strip field_path @ [10] @ strip original_value))
       (\<lambda>payload. rbind (utf8_encode (vault_hash_salt env)) (\<lambda>salt. Inr (ve_sha env (salt @ payload))))"

text \<open>\<^verbatim>\<open>f"USER_{sequence:06d}"\<close>\<close>

definition format_token :: "nat \<Rightarrow> ustr" where
  "format_token n = u ''USER_'' @ replicate (6 - length (nat_str n)) 48 @ nat_str n"

definition row_key :: "vault_row \<Rightarrow> int \<times> ustr \<times> ustr" where
  "row_key r = (vr_stream r, vr_path r, vr_hash r)"

definition vault_find :: "vault \<Rightarrow> int \<times> ustr \<times> ustr \<Rightarrow> vault_row option" where
  "vault_find v k = find (\<lambda>r. row_key r = k) (v_rows v)"

text \<open>\<open>existing.last_seen_at = now\<close> for the row with a key.\<close>

definition vault_touch :: "int \<Rightarrow> int \<times> ustr \<times> ustr \<Rightarrow> vault \<Rightarrow> vault" where
  "vault_touch now k v =
     v\<lparr>v_rows := map (\<lambda>r. if row_key r = k then r\<lparr>vr_seen := now\<rparr> else r) (v_rows v)\<rparr>"

text \<open>
  An insert either adds the row or raises an \<open>IntegrityError\<close>: it violates one of the two unique
  constraints, or the stream it refers to does not exist.
\<close>

definition vault_insert :: "vault_row \<Rightarrow> vault \<Rightarrow> vault option" where
  "vault_insert r v =
     (if list_ex (\<lambda>x. row_key x = row_key r \<or> vr_token x = vr_token r) (v_rows v) \<or>
         vr_stream r \<notin> set (v_streams v) then None
      else Some (v\<lparr>v_rows := v_rows v @ [r]\<rparr>))"

fun allocate_attempts ::
  "vault_env \<Rightarrow> int \<times> ustr \<times> ustr \<Rightarrow> nat \<Rightarrow> vault \<Rightarrow> ustr result \<times> vault" where
  "allocate_attempts env k 0 v =
     (Inl (RuntimeError (u ''failed to allocate identity vault token'')), v)"
| "allocate_attempts env k (Suc n) v =
     (let token = format_token (v_seq v);
          v1 = ve_interfere env n (v\<lparr>v_seq := Suc (v_seq v)\<rparr>);
          row = \<lparr>vr_stream = fst k, vr_path = fst (snd k), vr_hash = snd (snd k), vr_token = token,
                 vr_created = ve_now env, vr_seen = ve_now env\<rparr>
      in case vault_insert row v1 of
           Some v2 \<Rightarrow> (Inr token, v2)
         | None \<Rightarrow>
             (case vault_find v1 k of
                Some r \<Rightarrow> (Inr (vr_token r), vault_touch (ve_now env) k v1)
              | None \<Rightarrow> allocate_attempts env k n v1))"

definition get_or_create_token ::
  "vault_env \<Rightarrow> int \<Rightarrow> ustr \<Rightarrow> ustr \<Rightarrow> vault \<Rightarrow> ustr result \<times> vault" where
  "get_or_create_token env stream_id field_path original_value v =
     (let text_value = strip original_value; path = strip field_path
      in if text_value = []
         then (Inl (ValueError (u ''original_value must be non-empty for tokenization'')), v)
         else if \<not> startswith path (u ''$'')
         then (Inl (ValueError (u ''field_path must start with $'')), v)
         else case hash_original_value env stream_id path text_value of
           Inl e \<Rightarrow> (Inl e, v)
         | Inr h \<Rightarrow>
             (case vault_find v (stream_id, path, h) of
                Some r \<Rightarrow> (Inr (vr_token r), vault_touch (ve_now env) (stream_id, path, h) v)
              | None \<Rightarrow> allocate_attempts env (stream_id, path, h) 3 v))"

type_synonym token_map = "((ustr \<times> ustr) \<times> ustr) list"

text \<open>
  \<open>get_or_create_tokens_batch\<close> first drops the items it cannot use and the repetitions, then
  looks up all keys in one query (the rows of \<open>v0\<close>) and creates the missing tokens one by one.
\<close>

fun dedupe_items :: "(ustr \<times> ustr) list \<Rightarrow> (ustr \<times> ustr) list \<Rightarrow> (ustr \<times> ustr) list" where
  "dedupe_items [] seen = []"
| "dedupe_items ((path, value) # items) seen =
     (let p = strip path; w = strip value
      in if \<not> startswith p (u ''$'') \<or> w = [] \<or> (p, w) \<in> set seen then dedupe_items items seen
         else (p, w) # dedupe_items items ((p, w) # seen))"

fun batch_loop ::
  "vault_env \<Rightarrow> int \<Rightarrow> vault \<Rightarrow> ((ustr \<times> ustr) \<times> ustr) list \<Rightarrow> token_map \<Rightarrow> token_batch_stats \<Rightarrow> vault
     \<Rightarrow> (token_map \<times> token_batch_stats) result \<times> vault" where
  "batch_loop env sid v0 [] tm st v = (Inr (tm, st), v)"
| "batch_loop env sid v0 (((path, value), h) # items) tm st v =
     (case vault_find v0 (sid, path, h) of
        Some r \<Rightarrow>
          batch_loop env sid v0 items (dset (path, value) (vr_token r) tm)
            (st\<lparr>cache_hits := Suc (cache_hits st)\<rparr>) (vault_touch (ve_now env) (sid, path, h) v)
      | None \<Rightarrow>
          (case get_or_create_token env sid path value v of
             (Inl e, v1) \<Rightarrow> (Inl e, v1)
           | (Inr token, v1) \<Rightarrow>
               batch_loop env sid v0 items (dset (path, value) token tm)
                 (st\<lparr>created := Suc (created st)\<rparr>) v1))"

definition get_or_create_tokens_batch ::
  "vault_env \<Rightarrow> int \<Rightarrow> (ustr \<times> ustr) list \<Rightarrow> vault \<Rightarrow> (token_map \<times> token_batch_stats) result \<times> vault" where
  "get_or_create_tokens_batch env sid items v =
     (let deduped = dedupe_items items [];
          st = \<lparr>batch_items = length deduped, cache_hits = 0, created = 0\<rparr>
      in case rmap (\<lambda>(p, w). rbind (hash_original_value env sid p w) (\<lambda>h. Inr ((p, w), h))) deduped of
           Inl e \<Rightarrow> (Inl e, v)
         | Inr hashed \<Rightarrow> batch_loop env sid v hashed [] st v)"

text \<open>\<open>tokenize_value\<close>; the database session is \<open>None\<close> or the vault.\<close>

definition tokenize_value ::
  "vault_env \<Rightarrow> int \<Rightarrow> ustr \<Rightarrow> json \<Rightarrow> token_map option \<Rightarrow> vault option \<Rightarrow> json result \<times> vault option" where
  "tokenize_value env stream_id field_path value token_map db = (case value of
     JNull \<Rightarrow> (Inr JNull, db)
   | JStr s \<Rightarrow>
       (let text_value = strip s
        in if text_value = [] then (Inr (full_mask_value value), db)
           else case (case token_map of None \<Rightarrow> None
                        | Some tm \<Rightarrow> dget tm (strip field_path, strip text_value)) of
             Some cached \<Rightarrow> (Inr (JStr cached), db)
           | None \<Rightarrow>
               (case db of
                  None \<Rightarrow> (Inl (ValueError (u ''database session required for tokenization'')), db)
                | Some v \<Rightarrow>
                    (case get_or_create_token env stream_id field_path text_value v of
                       (Inl e, v1) \<Rightarrow> (Inl e, Some v1)
                     | (Inr t, v1) \<Rightarrow> (Inr (JStr t), Some v1))))
   | _ \<Rightarrow> (Inr (full_mask_value value), db))"

section \<open>Token format\<close>

lemma nat_str_nonempty: "nat_str n \<noteq> []"
  by (subst nat_str.simps) simp

lemma nat_str_length_pos: "0 < length (nat_str n)"
  using nat_str_nonempty by simp

lemma nat_str_digits: "c \<in> set (nat_str n) \<Longrightarrow> 48 \<le> c \<and> c < 58"
proof (induction n rule: nat_str.induct)
  case (1 n)
  show ?case
  proof (cases "n < 10")
    case True
    with "1.prems" show ?thesis by (simp add: nat_str.simps [of n])
  next
    case False
    with 1 show ?thesis by (auto simp: nat_str.simps [of n])
  qed
qed

fun digits_val :: "ustr \<Rightarrow> nat" where
  "digits_val s = foldl (\<lambda>n c. 10 * n + (c - 48)) 0 s"

lemma digits_val_nat_str: "digits_val (replicate k 48 @ nat_str n) = n"
proof -
  have z: "foldl (\<lambda>n c. 10 * n + (c - 48)) 0 (replicate k 48) = (0::nat)"
    by (induction k) auto
  have "foldl (\<lambda>n c. 10 * n + (c - 48)) 0 (nat_str n) = n"
  proof (induction n rule: nat_str.induct)
    case (1 n)
    then show ?case by (subst nat_str.simps) auto
  qed
  with z show ?thesis by simp
qed

lemma format_token_inj: "format_token m = format_token n \<longleftrightarrow> m = n"
  using digits_val_nat_str by (metis format_token_def same_append_eq)

section \<open>Invariant\<close>

text \<open>
  The constraints of the table: unique keys, unique tokens, rows of existing streams only; and every
  stored token taken from the sequence.
\<close>

definition vault_inv :: "vault \<Rightarrow> bool" where
  "vault_inv v \<longleftrightarrow>
     distinct (map row_key (v_rows v)) \<and> distinct (map vr_token (v_rows v)) \<and>
     (\<forall>r \<in> set (v_rows v). vr_stream r \<in> set (v_streams v)) \<and>
     (\<forall>r \<in> set (v_rows v). \<exists>n < v_seq v. vr_token r = format_token n)"

text \<open>
  What another session can commit, one statement at a time: draw a number, store a row with a number
  somebody drew, see a row again, create a stream, delete a stream with its rows.  \<open>own\<close> is a number
  this session has drawn and not used yet, which no other session can store; \<open>sid\<close> is a stream that is
  neither created nor deleted meanwhile.
\<close>

definition drop_stream :: "int \<Rightarrow> vault \<Rightarrow> vault" where
  "drop_stream i v = v\<lparr>v_rows := filter (\<lambda>r. vr_stream r \<noteq> i) (v_rows v), v_streams := removeAll i (v_streams v)\<rparr>"

inductive other_step :: "nat option \<Rightarrow> int option \<Rightarrow> vault \<Rightarrow> vault \<Rightarrow> bool" for own sid where
  draw: "other_step own sid v (v\<lparr>v_seq := Suc (v_seq v)\<rparr>)"
| store: "vr_token r = format_token n \<Longrightarrow> n < v_seq v \<Longrightarrow> own \<noteq> Some n \<Longrightarrow> vault_insert r v = Some v' \<Longrightarrow>
    other_step own sid v v'"
| seen: "other_step own sid v (vault_touch now k v)"
| create: "sid \<noteq> Some i \<Longrightarrow> other_step own sid v (v\<lparr>v_streams := i # v_streams v\<rparr>)"
| delete: "sid \<noteq> Some i \<Longrightarrow> other_step own sid v (drop_stream i v)"

text \<open>Any number of such statements between two statements of this session.\<close>

abbreviation others :: "nat option \<Rightarrow> int option \<Rightarrow> vault \<Rightarrow> vault \<Rightarrow> bool" where
  "others own sid \<equiv> (other_step own sid)\<^sup>*\<^sup>*"

text \<open>The interference between drawing a number and storing it.\<close>

definition sessions_ok :: "vault_env \<Rightarrow> int option \<Rightarrow> bool" where
  "sessions_ok env sid \<longleftrightarrow> (\<forall>n v. others (Some (v_seq v - 1)) sid v (ve_interfere env n v))"

lemma vault_touch_rows [simp]:
  "map row_key (v_rows (vault_touch now k v)) = map row_key (v_rows v)"
  "map vr_token (v_rows (vault_touch now k v)) = map vr_token (v_rows v)"
  "v_seq (vault_touch now k v) = v_seq v"
  by (simp_all add: vault_touch_def row_key_def)

lemma vault_touch_inv [simp]: "vault_inv v \<Longrightarrow> vault_inv (vault_touch now k v)"
proof -
  assume v: "vault_inv v"
  have "\<exists>r' \<in> set (v_rows v). vr_token r' = vr_token r" if "r \<in> set (v_rows (vault_touch now k v))" for r
    using that by (auto simp: vault_touch_def split: if_splits intro: rev_bexI)
  moreover have "vr_stream r \<in> set (v_streams v)" if "r \<in> set (v_rows (vault_touch now k v))" for r
    using that v by (auto simp: vault_touch_def vault_inv_def)
  moreover have "v_streams (vault_touch now k v) = v_streams v" by (simp add: vault_touch_def)
  ultimately show ?thesis using v unfolding vault_inv_def vault_touch_rows by metis
qed

lemma vault_seq_inv: "vault_inv v \<Longrightarrow> vault_inv (v\<lparr>v_seq := Suc (v_seq v)\<rparr>)"
  unfolding vault_inv_def by (auto simp: less_Suc_eq)

lemma vault_find_Some: "vault_find v k = Some r \<Longrightarrow> r \<in> set (v_rows v) \<and> row_key r = k"
  by (auto simp: vault_find_def find_Some_iff)

lemma vault_find_touch:
  "vault_find (vault_touch now k v) j =
     map_option (\<lambda>r. if row_key r = k then r\<lparr>vr_seen := now\<rparr> else r) (vault_find v j)"
proof -
  have "find (\<lambda>r. row_key r = j) (map (\<lambda>r. if row_key r = k then r\<lparr>vr_seen := now\<rparr> else r) xs) =
    map_option (\<lambda>r. if row_key r = k then r\<lparr>vr_seen := now\<rparr> else r) (find (\<lambda>r. row_key r = j) xs)" for xs
    by (induction xs) (auto simp: row_key_def)
  then show ?thesis by (simp add: vault_find_def vault_touch_def)
qed

lemma vault_find_None: "vault_find v k = None \<longleftrightarrow> k \<notin> set (map row_key (v_rows v))"
  by (auto simp: vault_find_def find_None_iff image_iff)

lemma vault_insert_inv:
  assumes "vault_inv v" "vault_insert r v = Some v'" "vr_token r = format_token n" "n < v_seq v"
  shows "vault_inv v'" "v_rows v' = v_rows v @ [r]" "v_seq v' = v_seq v" "v_streams v' = v_streams v"
  using assms by (fastforce simp: vault_inv_def vault_insert_def list_ex_iff split: if_splits)+

lemma vault_find_insert:
  assumes "vault_insert r v = Some v'" shows "vault_find v' (row_key r) = Some r"
proof -
  have "find (\<lambda>x. row_key x = row_key r) (xs @ [r]) = Some r"
    if "\<forall>x \<in> set xs. row_key x \<noteq> row_key r" for xs using that by (induction xs) auto
  with assms show ?thesis
    by (auto simp: vault_insert_def vault_find_def list_ex_iff split: if_splits)
qed

section \<open>Other sessions\<close>

lemma drop_stream_inv: "vault_inv v \<Longrightarrow> vault_inv (drop_stream i v)"
  by (auto simp: vault_inv_def drop_stream_def intro!: distinct_map_filter)

lemma other_step_inv: "other_step own sid v v' \<Longrightarrow> vault_inv v \<Longrightarrow> vault_inv v'"
  by (induction rule: other_step.induct) (auto simp: vault_seq_inv drop_stream_inv vault_insert_inv(1), auto simp: vault_inv_def)

lemma others_inv: "others own sid v v' \<Longrightarrow> vault_inv v \<Longrightarrow> vault_inv v'"
  by (induction rule: rtranclp_induct) (auto dest: other_step_inv)

lemma other_step_seq: "other_step own sid v v' \<Longrightarrow> v_seq v \<le> v_seq v'"
  by (induction rule: other_step.induct) (auto simp: vault_insert_def drop_stream_def split: if_splits)

lemma others_seq: "others own sid v v' \<Longrightarrow> v_seq v \<le> v_seq v'"
  by (induction rule: rtranclp_induct) (auto dest: other_step_seq intro: order_trans)

lemma other_step_stream: "other_step own (Some i) v v' \<Longrightarrow> i \<in> set (v_streams v') \<longleftrightarrow> i \<in> set (v_streams v)"
  by (induction rule: other_step.induct)
     (auto simp: vault_insert_def vault_touch_def drop_stream_def split: if_splits)

lemma others_stream: "others own (Some i) v v' \<Longrightarrow> i \<in> set (v_streams v') \<longleftrightarrow> i \<in> set (v_streams v)"
  by (induction rule: rtranclp_induct) (auto dest: other_step_stream)

text \<open>A number this session has drawn stays unused.\<close>

lemma other_step_fresh:
  "other_step (Some n) sid v v' \<Longrightarrow> format_token n \<notin> set (map vr_token (v_rows v)) \<Longrightarrow>
   format_token n \<notin> set (map vr_token (v_rows v'))"
  by (induction rule: other_step.induct)
     (auto simp: vault_insert_def vault_touch_def drop_stream_def format_token_inj split: if_splits)

lemma others_fresh:
  "others (Some n) sid v v' \<Longrightarrow> format_token n \<notin> set (map vr_token (v_rows v)) \<Longrightarrow>
   format_token n \<notin> set (map vr_token (v_rows v'))"
  by (induction rule: rtranclp_induct) (auto dest: other_step_fresh)

text \<open>A stored token of the held stream stays stored under its key.\<close>

definition stored :: "vault \<Rightarrow> int \<times> ustr \<times> ustr \<Rightarrow> ustr \<Rightarrow> bool" where
  "stored v k t \<longleftrightarrow> (\<exists>r. vault_find v k = Some r \<and> vr_token r = t)"

lemma touch_stored: "vault_find v k = Some r \<Longrightarrow> stored (vault_touch now j v) k (vr_token r)"
  by (cases "row_key r = j") (simp_all add: stored_def vault_find_touch)

lemma find_append_Some: "find P xs = Some x \<Longrightarrow> find P (xs @ ys) = Some x"
  by (induction xs) auto

lemma find_filter_other:
  "(\<And>x. P x \<Longrightarrow> Q x) \<Longrightarrow> find P (filter Q xs) = find P xs"
  by (induction xs) auto

lemma other_step_stored:
  assumes "other_step own (Some i) v v'" "stored v (i, p, h) t"
  shows "stored v' (i, p, h) t"
  using assms
proof (induction rule: other_step.induct)
  case (store r n v v')
  then show ?case
    by (auto simp: stored_def vault_insert_def vault_find_def find_append_Some split: if_splits)
next
  case (seen v now k)
  then obtain r where "vault_find v (i, p, h) = Some r" "vr_token r = t" by (auto simp: stored_def)
  with touch_stored [OF this(1)] show ?case by blast
next
  case (delete j v)
  have "find (\<lambda>r. row_key r = (i, p, h)) (filter (\<lambda>r. vr_stream r \<noteq> j) (v_rows v)) =
      find (\<lambda>r. row_key r = (i, p, h)) (v_rows v)"
    using delete(1) by (intro find_filter_other) (auto simp: row_key_def)
  with delete(2) show ?case by (simp add: stored_def vault_find_def drop_stream_def)
qed (simp_all add: stored_def vault_find_def)

lemma others_stored: "others own (Some i) v v' \<Longrightarrow> stored v (i, p, h) t \<Longrightarrow> stored v' (i, p, h) t"
  by (induction rule: rtranclp_induct) (auto dest: other_step_stored)

section \<open>Allocation\<close>

text \<open>One attempt, with its number, what the others did before the insert, and the row.\<close>

definition attempt_row :: "vault_env \<Rightarrow> int \<times> ustr \<times> ustr \<Rightarrow> vault \<Rightarrow> vault_row" where
  "attempt_row env k v = \<lparr>vr_stream = fst k, vr_path = fst (snd k), vr_hash = snd (snd k),
     vr_token = format_token (v_seq v), vr_created = ve_now env, vr_seen = ve_now env\<rparr>"

definition attempt_vault :: "vault_env \<Rightarrow> nat \<Rightarrow> vault \<Rightarrow> vault" where
  "attempt_vault env n v = ve_interfere env n (v\<lparr>v_seq := Suc (v_seq v)\<rparr>)"

lemma attempt_facts:
  assumes "sessions_ok env sid" "vault_inv v"
  shows "vault_inv (attempt_vault env n v)" "v_seq v < v_seq (attempt_vault env n v)"
    "format_token (v_seq v) \<notin> set (map vr_token (v_rows (attempt_vault env n v)))"
    "sid = Some i \<Longrightarrow> i \<in> set (v_streams (attempt_vault env n v)) \<longleftrightarrow> i \<in> set (v_streams v)"
proof -
  let ?v0 = "v\<lparr>v_seq := Suc (v_seq v)\<rparr>"
  from assms(1) have o: "others (Some (v_seq v)) sid ?v0 (attempt_vault env n v)"
    unfolding sessions_ok_def attempt_vault_def by (metis diff_Suc_1 vault.select_convs(2) vault.surjective vault.update_convs(2))
  have "format_token (v_seq v) \<notin> set (map vr_token (v_rows ?v0))"
    using assms(2) by (auto simp: vault_inv_def format_token_inj)
  with o show "format_token (v_seq v) \<notin> set (map vr_token (v_rows (attempt_vault env n v)))" by (rule others_fresh)
  show "vault_inv (attempt_vault env n v)" using others_inv [OF o vault_seq_inv [OF assms(2)]] .
  show "v_seq v < v_seq (attempt_vault env n v)" using others_seq [OF o] by simp
  show "i \<in> set (v_streams (attempt_vault env n v)) \<longleftrightarrow> i \<in> set (v_streams v)" if "sid = Some i"
    using others_stream [of "Some (v_seq v)" i] o that by fastforce
qed

lemma allocate_attempts_Suc:
  "allocate_attempts env k (Suc n) v = (case vault_insert (attempt_row env k v) (attempt_vault env n v) of
     Some v2 \<Rightarrow> (Inr (format_token (v_seq v)), v2)
   | None \<Rightarrow> (case vault_find (attempt_vault env n v) k of
       Some r \<Rightarrow> (Inr (vr_token r), vault_touch (ve_now env) k (attempt_vault env n v))
     | None \<Rightarrow> allocate_attempts env k n (attempt_vault env n v)))"
  by (simp add: attempt_row_def attempt_vault_def Let_def cong: option.case_cong)

lemma attempt_row_key [simp]: "row_key (attempt_row env k v) = k" "vr_token (attempt_row env k v) = format_token (v_seq v)"
  by (simp_all add: attempt_row_def row_key_def)

text \<open>Whatever the outcome, the invariant is kept, and a returned token is stored.\<close>

lemma allocate_attempts_inv:
  assumes "sessions_ok env sid" "vault_inv v" "allocate_attempts env k n v = (r, v')"
  shows "vault_inv v' \<and> (\<forall>t. r = Inr t \<longrightarrow> stored v' k t)"
  using assms(2,3)
proof (induction n arbitrary: v)
  case (Suc n)
  note f = attempt_facts [OF assms(1) Suc.prems(1), where n = n]
  show ?case
  proof (cases "vault_insert (attempt_row env k v) (attempt_vault env n v)")
    case (Some v2)
    from vault_insert_inv(1) [OF f(1) Some, of "v_seq v"] f(2) have "vault_inv v2" by simp
    moreover from vault_find_insert [OF Some] have "stored v2 k (format_token (v_seq v))" by (simp add: stored_def)
    ultimately show ?thesis using Some Suc.prems(2) by (auto simp: allocate_attempts_Suc simp del: allocate_attempts.simps)
  next
    case None
    with Suc f(1) show ?thesis
      by (auto simp: allocate_attempts_Suc touch_stored simp del: allocate_attempts.simps split: option.splits)
  qed
qed auto

text \<open>
  For an existing stream one attempt is enough: the number is fresh, so a rejected insert means that
  another session has stored the key, and the second lookup finds it.
\<close>

lemma allocate_attempts_succeeds:
  assumes "sessions_ok env (Some (fst k))" "vault_inv v" "fst k \<in> set (v_streams v)"
  shows "\<exists>t v'. allocate_attempts env k (Suc n) v = (Inr t, v')"
proof (cases "vault_insert (attempt_row env k v) (attempt_vault env n v)")
  case None
  note f = attempt_facts [OF assms(1,2), where n = n]
  have "vr_stream (attempt_row env k v) \<in> set (v_streams (attempt_vault env n v))"
    using f(4) assms(3) by (simp add: attempt_row_def)
  with None obtain x where "x \<in> set (v_rows (attempt_vault env n v))" "row_key x = k \<or> vr_token x = format_token (v_seq v)"
    by (auto simp: vault_insert_def list_ex_iff split: if_splits)
  with f(3) have "k \<in> set (map row_key (v_rows (attempt_vault env n v)))" by (auto simp: image_iff)
  then obtain r where "vault_find (attempt_vault env n v) k = Some r" using vault_find_None by fastforce
  with None show ?thesis by (simp add: allocate_attempts_Suc del: allocate_attempts.simps)
qed (simp add: allocate_attempts_Suc del: allocate_attempts.simps)

text \<open>Without its stream every insert is refused, and no row of it can be found.\<close>

lemma no_stream_no_row: "vault_inv v \<Longrightarrow> fst k \<notin> set (v_streams v) \<Longrightarrow> vault_find v k = None"
  by (auto simp: vault_find_None vault_inv_def row_key_def)

lemma allocate_attempts_gives_up:
  assumes "sessions_ok env (Some (fst k))" "vault_inv v" "fst k \<notin> set (v_streams v)"
  shows "\<exists>v'. allocate_attempts env k n v = (Inl (RuntimeError (u ''failed to allocate identity vault token'')), v')"
  using assms(2,3)
proof (induction n arbitrary: v)
  case (Suc n)
  note f = attempt_facts [OF assms(1) Suc.prems(1), where n = n]
  have "fst k \<notin> set (v_streams (attempt_vault env n v))" using f(4) Suc.prems(2) by simp
  moreover from this have "vault_insert (attempt_row env k v) (attempt_vault env n v) = None"
    by (simp add: vault_insert_def attempt_row_def)
  ultimately show ?case using Suc.IH [OF f(1)] no_stream_no_row [OF f(1)]
    by (simp add: allocate_attempts_Suc del: allocate_attempts.simps)
qed simp

lemma get_or_create_token_inv:
  assumes "sessions_ok env sid" "vault_inv v" "get_or_create_token env i path value v = (r, v')"
  shows "vault_inv v' \<and> (\<forall>t. r = Inr t \<longrightarrow> strip value \<noteq> [] \<and> startswith (strip path) (u ''$'') \<and>
     (\<exists>h. hash_original_value env i (strip path) (strip value) = Inr h \<and> stored v' (i, strip path, h) t))"
  using assms allocate_attempts_inv [OF assms(1,2)]
  by (auto simp: get_or_create_token_def Let_def touch_stored split: if_splits sum.splits option.splits)

text \<open>Every token comes from the sequence.\<close>

lemma stored_token: "vault_inv v \<Longrightarrow> stored v k t \<Longrightarrow> \<exists>n. t = format_token n"
  by (auto simp: stored_def vault_inv_def dest!: vault_find_Some)

lemma batch_loop_inv:
  assumes "sessions_ok env sid" "vault_inv v0"
  shows "vault_inv v \<Longrightarrow> \<forall>x \<in> snd ` set tm. \<exists>n. x = format_token n \<Longrightarrow> batch_loop env i v0 items tm st v = (r, v') \<Longrightarrow>
   vault_inv v' \<and> (\<forall>tm' st'. r = Inr (tm', st') \<longrightarrow> (\<forall>x \<in> snd ` set tm'. \<exists>n. x = format_token n))"
proof (induction items arbitrary: tm st v)
  case (Cons item items)
  obtain path val h where item: "item = ((path, val), h)" by (metis prod.exhaust)
  have upd: "\<forall>x \<in> snd ` set (dset k (format_token m) tm). \<exists>n. x = format_token n" for k m
    using Cons.prems(2) by (auto dest!: dset_mem)
  show ?case
  proof (cases "vault_find v0 (i, path, h)")
    case (Some r0)
    then obtain m where "vr_token r0 = format_token m"
      using stored_token [OF assms(2), of "(i, path, h)"] by (auto simp: stored_def)
    with Cons.IH [OF vault_touch_inv [OF Cons.prems(1)] upd] Some Cons.prems(3) item show ?thesis by simp
  next
    case None
    obtain x v1 where g: "get_or_create_token env i path val v = (x, v1)" by (metis prod.exhaust)
    note inv1 = get_or_create_token_inv [OF assms(1) Cons.prems(1) g]
    show ?thesis
    proof (cases x)
      case (Inr t)
      with inv1 obtain m where "t = format_token m" using stored_token by blast
      with Cons.IH [OF _ upd, of v1] inv1 None g Inr Cons.prems(3) item show ?thesis by auto
    qed (use None g inv1 Cons.prems(3) item in auto)
  qed
qed auto

lemma tokens_batch_inv:
  assumes "sessions_ok env sid" "vault_inv v" "get_or_create_tokens_batch env i items v = (r, v')"
  shows "vault_inv v' \<and> (\<forall>tm st. r = Inr (tm, st) \<longrightarrow> (\<forall>x \<in> snd ` set tm. \<exists>n. x = format_token n))"
  using assms batch_loop_inv [OF assms(1,2,2), where tm = "[]"]
  by (auto simp: get_or_create_tokens_batch_def Let_def split: sum.splits)

section \<open>Properties\<close>

text \<open>
  C13. Tokens are deterministic.  Once a value has been given a token for a stream and a path, the same
  value gets the same token again, without an allocation, whatever other sessions have committed
  between the two calls short of deleting the stream: numbers drawn, rows stored or seen, other
  streams created or deleted with their rows.  The vault keeps its constraints throughout.
\<close>

theorem token_deterministic:
  assumes "sessions_ok env (Some sid)" and "vault_inv v"
    and "get_or_create_token env sid path value v = (Inr t, v1)"
    and "others None (Some sid) v1 v2"
  shows "vault_inv v2 \<and>
    (\<exists>v3. get_or_create_token env sid path value v2 = (Inr t, v3) \<and> v_seq v3 = v_seq v2 \<and>
       map row_key (v_rows v3) = map row_key (v_rows v2) \<and> map vr_token (v_rows v3) = map vr_token (v_rows v2))"
proof -
  from get_or_create_token_inv [OF assms(1-3)] obtain h where
    g: "vault_inv v1" "strip value \<noteq> []" "startswith (strip path) (u ''$'')"
      "hash_original_value env sid (strip path) (strip value) = Inr h" "stored v1 (sid, strip path, h) t" by auto
  from others_stored [OF assms(4) g(5)] obtain r where "vault_find v2 (sid, strip path, h) = Some r" "vr_token r = t"
    by (auto simp: stored_def)
  with g others_inv [OF assms(4) g(1)] show ?thesis by (simp add: get_or_create_token_def Let_def)
qed

text \<open>
  C14. A token is allocated exactly for existing streams.  For a non-empty value, a path that starts with
  a dollar sign and a text that can be encoded: while no other session creates or deletes the stream,
  the allocation returns a token if and only if the stream exists, even when other sessions draw
  numbers or store rows between the lookup and the insert, and one attempt is enough.  Without the
  stream the foreign key refuses every insert and the error after three attempts is raised.
\<close>

theorem token_always_allocated:
  assumes "sessions_ok env (Some sid)" and "vault_inv v" and "strip value \<noteq> []"
    and "startswith (strip path) (u ''$'')"
    and "hash_original_value env sid (strip path) (strip value) = Inr h"
  shows "(sid \<in> set (v_streams v) \<longrightarrow> (\<exists>t v'. get_or_create_token env sid path value v = (Inr t, v')) \<and>
       (vault_find v (sid, strip path, h) = None \<longrightarrow>
          get_or_create_token env sid path value v = allocate_attempts env (sid, strip path, h) 3 v \<and>
          (\<forall>n. \<exists>t v'. allocate_attempts env (sid, strip path, h) (Suc n) v = (Inr t, v')))) \<and>
    (sid \<notin> set (v_streams v) \<longrightarrow> (\<exists>v'. get_or_create_token env sid path value v =
       (Inl (RuntimeError (u ''failed to allocate identity vault token'')), v')))"
proof (intro conjI impI)
  let ?k = "(sid, strip path, h)"
  note start = assms(3-5)
  show "\<exists>t v'. get_or_create_token env sid path value v = (Inr t, v')" if s: "sid \<in> set (v_streams v)"
    using allocate_attempts_succeeds [of env ?k v 2] assms(1,2) s start
    by (auto simp: get_or_create_token_def Let_def numeral_3_eq_3 simp del: allocate_attempts.simps split: option.splits)
  show "\<exists>v'. get_or_create_token env sid path value v =
       (Inl (RuntimeError (u ''failed to allocate identity vault token'')), v')" if s: "sid \<notin> set (v_streams v)"
    using allocate_attempts_gives_up [of env ?k v 3] no_stream_no_row [of v ?k] assms(1,2) s start
    by (simp add: get_or_create_token_def Let_def del: allocate_attempts.simps)
  show "get_or_create_token env sid path value v = allocate_attempts env ?k 3 v" if "vault_find v ?k = None"
    using that start by (simp add: get_or_create_token_def Let_def)
  show "\<forall>n. \<exists>t v'. allocate_attempts env ?k (Suc n) v = (Inr t, v')" if "sid \<in> set (v_streams v)"
    using allocate_attempts_succeeds [of env ?k v] assms(1,2) that by simp
qed

text \<open>
  The witnesses run beside a session that takes a sequence number just before every insert.
\<close>

definition demo_env :: vault_env where
  "demo_env = \<lparr>ve_sha = (\<lambda>bs. bs), ve_vault_salt = u ''s'', ve_protection_salt = [],
     ve_now = 5, ve_interfere = (\<lambda>n v. v\<lparr>v_seq := Suc (v_seq v)\<rparr>)\<rparr>"

definition demo_vault :: vault where
  "demo_vault = \<lparr>v_rows = [], v_seq = 1, v_streams = [7]\<rparr>"

lemma demo_env_ok: "sessions_ok demo_env sid" "vault_inv demo_vault"
proof -
  show "sessions_ok demo_env sid"
    unfolding sessions_ok_def demo_env_def by (auto intro: other_step.draw)
  show "vault_inv demo_vault" by (simp add: vault_inv_def demo_vault_def)
qed

lemma demo_token:
  "\<exists>v1. get_or_create_token demo_env 7 (u ''$.a'') (u ''x'') demo_vault = (Inr (u ''USER_000001''), v1)"
proof -
  have a: "strip (u ''x'') = u ''x''" "strip (u ''$.a'') = u ''$.a''" "startswith (u ''$.a'') (u ''$'')"
    by (simp_all add: strip_def u_def is_space_def startswith_def)
  obtain h where h: "hash_original_value demo_env 7 (u ''$.a'') (u ''x'') = Inr h"
    by (simp add: hash_original_value_def demo_env_def utf8_encode_def utf8_char_def vault_hash_salt_def
        int_str_def nat_str.simps strip_def u_def is_space_def)
  have t: "format_token (Suc 0) = u ''USER_000001''"
    by (simp add: format_token_def nat_str.simps u_def numeral_eq_Suc replicate_Suc)
  have "\<exists>v1. allocate_attempts demo_env (7, u ''$.a'', h) (Suc 2) demo_vault = (Inr (format_token 1), v1)"
    unfolding allocate_attempts.simps by (simp add: demo_vault_def demo_env_def vault_insert_def Let_def)
  then show ?thesis
    by (simp add: get_or_create_token_def a h t) (simp add: demo_vault_def vault_find_def)
qed

text \<open>Between the two calls another session draws a number and adds a stream.\<close>

lemma demo_others:
  assumes "get_or_create_token demo_env 7 (u ''$.a'') (u ''x'') demo_vault = (r, v1)"
  shows "\<exists>v2. others None (Some 7) v1 v2 \<and> v_streams v2 = 8 # v_streams v1"
proof -
  let ?v = "v1\<lparr>v_seq := Suc (v_seq v1)\<rparr>"
  have "other_step None (Some 7) v1 ?v" by (rule other_step.draw)
  moreover have "other_step None (Some 7) ?v (?v\<lparr>v_streams := 8 # v_streams ?v\<rparr>)" by (rule other_step.create) simp
  ultimately have "others None (Some 7) v1 (?v\<lparr>v_streams := 8 # v_streams ?v\<rparr>)" by (rule rtranclp.rtrancl_into_rtrancl [OF r_into_rtranclp])
  then show ?thesis by (intro exI [of _ "?v\<lparr>v_streams := 8 # v_streams ?v\<rparr>"]) simp
qed

theorem token_deterministic_witness:
  "\<exists>v1 v2 v3. get_or_create_token demo_env 7 (u ''$.a'') (u ''x'') demo_vault = (Inr (u ''USER_000001''), v1) \<and>
     others None (Some 7) v1 v2 \<and> v_streams v2 \<noteq> v_streams v1 \<and>
     get_or_create_token demo_env 7 (u ''$.a'') (u ''x'') v2 = (Inr (u ''USER_000001''), v3)"
proof -
  obtain v1 where v1: "get_or_create_token demo_env 7 (u ''$.a'') (u ''x'') demo_vault = (Inr (u ''USER_000001''), v1)"
    using demo_token by blast
  obtain v2 where v2: "others None (Some 7) v1 v2" "v_streams v2 = 8 # v_streams v1" using demo_others [OF v1] by blast
  from token_deterministic [OF demo_env_ok v1 v2(1)] v1 v2 show ?thesis by fastforce
qed

theorem token_always_allocated_witness:
  "(\<exists>t v'. get_or_create_token demo_env 7 (u ''$.a'') (u ''x'') demo_vault = (Inr t, v')) \<and>
   (\<exists>v'. get_or_create_token demo_env 8 (u ''$.a'') (u ''x'') demo_vault =
      (Inl (RuntimeError (u ''failed to allocate identity vault token'')), v'))"
proof -
  have a: "strip (u ''x'') = u ''x''" "strip (u ''$.a'') = u ''$.a''" "startswith (u ''$.a'') (u ''$'')"
    by (simp_all add: strip_def u_def is_space_def startswith_def)
  have "\<exists>h. hash_original_value demo_env 7 (u ''$.a'') (u ''x'') = Inr h" "\<exists>h. hash_original_value demo_env 8 (u ''$.a'') (u ''x'') = Inr h"
    by (simp_all add: hash_original_value_def demo_env_def utf8_encode_def utf8_char_def vault_hash_salt_def
        int_str_def nat_str.simps strip_def u_def is_space_def)
  then obtain h h' where "hash_original_value demo_env 7 (u ''$.a'') (u ''x'') = Inr h"
    "hash_original_value demo_env 8 (u ''$.a'') (u ''x'') = Inr h'" by blast
  with token_always_allocated [OF demo_env_ok, of "u ''x''" "u ''$.a''" 7 h]
    token_always_allocated [OF demo_env_ok, of "u ''x''" "u ''$.a''" 8 h'] a
  show ?thesis by (simp add: demo_vault_def)
qed

end
