(* ===== verification/Protection.thy ===== *)
theory Protection
  imports Field_Path Identity_Vault
begin

text \<open>
  The protection engine of \<^verbatim>\<open>app/protection/engine.py\<close>.  The engine rewrites events in place; here
  every operation returns the document it leaves behind, also when it raises.  Events are copied
  before they are changed (\<open>copy_json_value\<close>), so a document is a tree and has no aliases.  The
  index into the segment list becomes the list of the segments that are left.
\<close>

section \<open>State\<close>

record prot_rule =
  pr_id :: "int option"
  pr_stream :: int
  pr_path :: ustr
  pr_mode :: ustr
  pr_class :: ustr
  pr_enabled :: bool

record warning =
  w_field_path :: ustr
  w_rule_id :: "int option"
  w_error :: ustr

record prot_env =
  pe_enabled :: bool
  pe_vault :: vault_env
  pe_hmac :: "nat list \<Rightarrow> nat list \<Rightarrow> ustr"

record protect_result =
  pb_events :: "json list"
  pb_masked :: nat
  pb_rules_applied :: nat
  pb_warning_count :: nat
  pb_warnings :: "warning list"
  pb_token_items :: nat
  pb_token_hits :: nat
  pb_token_created :: nat

definition MODE_FULL_MASK :: ustr where "MODE_FULL_MASK = u ''full_mask''"
definition MODE_PARTIAL_MASK :: ustr where "MODE_PARTIAL_MASK = u ''partial_mask''"
definition MODE_HASH :: ustr where "MODE_HASH = u ''hash''"
definition MODE_TOKENIZATION :: ustr where "MODE_TOKENIZATION = u ''tokenization''"
definition MODE_DROP_FIELD :: ustr where "MODE_DROP_FIELD = u ''drop_field''"

lemmas mode_defs = MODE_FULL_MASK_def MODE_PARTIAL_MASK_def MODE_HASH_def MODE_TOKENIZATION_def
  MODE_DROP_FIELD_def

section \<open>Copies\<close>

fun copy_json_value :: "json \<Rightarrow> json" where
  "copy_json_value (JDict d) = JDict (map (\<lambda>(k, v). (k, copy_json_value v)) d)"
| "copy_json_value (JList xs) = JList (map copy_json_value xs)"
| "copy_json_value v = v"

lemma copy_json_value_id [simp]: "copy_json_value v = v"
proof (induction v rule: copy_json_value.induct)
  case (1 d)
  have "map (\<lambda>(k, v). (k, copy_json_value v)) d = map (\<lambda>(k, v). (k, v)) d"
    using 1 by (intro map_cong) auto
  then show ?case by simp
next
  case (2 xs)
  then show ?case by (simp add: map_idI)
qed simp_all

definition copy_events :: "json list \<Rightarrow> json list" where
  "copy_events evs = map copy_json_value (filter is_dict evs)"

section \<open>Walking a path\<close>

text \<open>\<open>-len(xs) <= i < len(xs)\<close>, and the position Python reads for such an index.\<close>

definition py_index :: "int \<Rightarrow> 'a list \<Rightarrow> nat option" where
  "py_index i xs =
     (if - int (length xs) \<le> i \<and> i < int (length xs)
      then Some (nat (if i < 0 then int (length xs) + i else i)) else None)"

function collect_at :: "seg list \<Rightarrow> json \<Rightarrow> json list" where
  "collect_at [] node = []"
| "collect_at (SInt i # rest) node = (case node of
     JList xs \<Rightarrow> (case py_index i xs of None \<Rightarrow> []
       | Some k \<Rightarrow> if rest = [] then [xs ! k] else collect_at rest (xs ! k))
   | _ \<Rightarrow> [])"
| "collect_at (SStr s # rest) node =
     (if s = u ''[]'' then (case node of JList xs \<Rightarrow> concat (map (collect_at rest) xs) | _ \<Rightarrow> [])
      else if rest = [] then
        (case node of JDict d \<Rightarrow> (case dget d s of Some v \<Rightarrow> [v] | None \<Rightarrow> []) | _ \<Rightarrow> [])
      else (case node of
        JDict d \<Rightarrow> (case dget d s of
          None \<Rightarrow> []
        | Some child \<Rightarrow>
            if hd rest = wildcard then
              (case child of JList xs \<Rightarrow> concat (map (collect_at (tl rest)) xs) | _ \<Rightarrow> [])
            else if is_dict child \<or> is_list child then collect_at rest child
            else [])
      | _ \<Rightarrow> []))"
  by pat_completeness auto
termination
  by (relation "measure (\<lambda>(segs, node). length segs)") auto

text \<open>A loop over the items of a list that stops at the first exception.\<close>

fun each_item ::
  "(json \<Rightarrow> 'db \<Rightarrow> (json \<times> nat result) \<times> 'db) \<Rightarrow> json list \<Rightarrow> 'db \<Rightarrow> (json list \<times> nat result) \<times> 'db" where
  "each_item f [] db = (([], Inr 0), db)"
| "each_item f (x # xs) db = (case f x db of
     ((x', Inl e), db1) \<Rightarrow> ((x' # xs, Inl e), db1)
   | ((x', Inr n), db1) \<Rightarrow>
       (case each_item f xs db1 of
          ((xs', Inl e), db2) \<Rightarrow> ((x' # xs', Inl e), db2)
        | ((xs', Inr m), db2) \<Rightarrow> ((x' # xs', Inr (n + m)), db2)))"

text \<open>\<open>node[seg] = mode(node[seg])\<close>: the assignment does not happen when the mode raises.\<close>

definition assign_leaf ::
  "(json \<Rightarrow> 'db \<Rightarrow> json result \<times> 'db) \<Rightarrow> json \<Rightarrow> json \<Rightarrow> (json \<Rightarrow> json) \<Rightarrow> 'db \<Rightarrow> (json \<times> nat result) \<times> 'db" where
  "assign_leaf f v node upd db = (case f v db of
     (Inl e, db1) \<Rightarrow> ((node, Inl e), db1)
   | (Inr w, db1) \<Rightarrow> ((upd w, Inr 1), db1))"

function apply_at ::
  "(json \<Rightarrow> 'db \<Rightarrow> json result \<times> 'db) \<Rightarrow> seg list \<Rightarrow> json \<Rightarrow> 'db \<Rightarrow> (json \<times> nat result) \<times> 'db" where
  "apply_at f [] node db = ((node, Inr 0), db)"
| "apply_at f (SInt i # rest) node db = (case node of
     JList xs \<Rightarrow> (case py_index i xs of
       None \<Rightarrow> ((node, Inr 0), db)
     | Some k \<Rightarrow>
         if rest = [] then assign_leaf f (xs ! k) node (\<lambda>w. JList (xs[k := w])) db
         else (case apply_at f rest (xs ! k) db of ((x', r), db1) \<Rightarrow> ((JList (xs[k := x']), r), db1)))
   | _ \<Rightarrow> ((node, Inr 0), db))"
| "apply_at f (SStr s # rest) node db =
     (if s = u ''[]'' then (case node of
        JList xs \<Rightarrow> (case each_item (apply_at f rest) xs db of ((xs', r), db1) \<Rightarrow> ((JList xs', r), db1))
      | _ \<Rightarrow> ((node, Inr 0), db))
      else if rest = [] then (case node of
        JDict d \<Rightarrow> (case dget d s of
          Some v \<Rightarrow> assign_leaf f v node (\<lambda>w. JDict (dset s w d)) db
        | None \<Rightarrow> ((node, Inr 0), db))
      | _ \<Rightarrow> ((node, Inr 0), db))
      else (case node of
        JDict d \<Rightarrow> (case dget d s of
          None \<Rightarrow> ((node, Inr 0), db)
        | Some child \<Rightarrow>
            if hd rest = wildcard then (case child of
              JList xs \<Rightarrow>
                (case each_item (apply_at f (tl rest)) xs db of
                   ((xs', r), db1) \<Rightarrow> ((JDict (dset s (JList xs') d), r), db1))
            | _ \<Rightarrow> ((node, Inr 0), db))
            else if is_dict child \<or> is_list child then
              (case apply_at f rest child db of ((c', r), db1) \<Rightarrow> ((JDict (dset s c' d), r), db1))
            else ((node, Inr 0), db))
      | _ \<Rightarrow> ((node, Inr 0), db)))"
  by pat_completeness auto
termination
  by (relation "measure (\<lambda>(f, segs, node, db). length segs)") auto

function drop_at :: "seg list \<Rightarrow> json \<Rightarrow> json \<times> nat" where
  "drop_at [] node = (node, 0)"
| "drop_at (SInt i # rest) node = (case node of
     JList xs \<Rightarrow> (case py_index i xs of
       None \<Rightarrow> (node, 0)
     | Some k \<Rightarrow>
         if rest = [] then (JList (take k xs @ drop (Suc k) xs), 1)
         else (case drop_at rest (xs ! k) of (x', n) \<Rightarrow> (JList (xs[k := x']), n)))
   | _ \<Rightarrow> (node, 0))"
| "drop_at (SStr s # rest) node =
     (if s = u ''[]'' then (case node of
        JList xs \<Rightarrow> (JList (map (fst \<circ> drop_at rest) xs), sum_list (map (snd \<circ> drop_at rest) xs))
      | _ \<Rightarrow> (node, 0))
      else if rest = [] then (case node of
        JDict d \<Rightarrow> (case dget d s of Some v \<Rightarrow> (JDict (ddel s d), 1) | None \<Rightarrow> (node, 0))
      | _ \<Rightarrow> (node, 0))
      else (case node of
        JDict d \<Rightarrow> (case dget d s of
          None \<Rightarrow> (node, 0)
        | Some child \<Rightarrow>
            if hd rest = wildcard then (case child of
              JList xs \<Rightarrow> (JDict (dset s (JList (map (fst \<circ> drop_at (tl rest)) xs)) d),
                            sum_list (map (snd \<circ> drop_at (tl rest)) xs))
            | _ \<Rightarrow> (node, 0))
            else (case drop_at rest child of (c', n) \<Rightarrow> (JDict (dset s c' d), n)))
      | _ \<Rightarrow> (node, 0)))"
  by pat_completeness auto
termination
  by (relation "measure (\<lambda>(segs, node). length segs)") auto

section \<open>Ambiguous legacy paths\<close>

text \<open>
  The run of adjacent unquoted names at the head of a path, and the dotted names of two or more
  of them that a historical path may have meant.
\<close>

fun unquoted_run :: "seg list \<Rightarrow> bool list \<Rightarrow> ustr list" where
  "unquoted_run (SStr s # segs) (False # fs) = (if s = u ''[]'' then [] else s # unquoted_run segs fs)"
| "unquoted_run _ _ = []"

definition dotted_names :: "ustr list \<Rightarrow> ustr list" where
  "dotted_names run = map (\<lambda>n. join_with (u ''.'') (take n run)) [2..<Suc (length run)]"

function could_alias :: "seg list \<Rightarrow> bool list \<Rightarrow> json \<Rightarrow> bool" where
  "could_alias [] fs node = False"
| "could_alias (SInt i # segs) fs node = (case node of
     JList xs \<Rightarrow> (case py_index i xs of None \<Rightarrow> False | Some k \<Rightarrow> could_alias segs (tl fs) (xs ! k))
   | _ \<Rightarrow> False)"
| "could_alias (SStr s # segs) fs node =
     (if s = u ''[]'' then (case node of JList xs \<Rightarrow> list_ex (could_alias segs (tl fs)) xs | _ \<Rightarrow> False)
      else (case node of
        JDict d \<Rightarrow>
          if list_ex (\<lambda>n. dget d n \<noteq> None) (dotted_names (unquoted_run (SStr s # segs) fs)) then True
          else (case dget d s of Some c \<Rightarrow> could_alias segs (tl fs) c | None \<Rightarrow> False)
      | _ \<Rightarrow> False))"
  by pat_completeness auto
termination
  by (relation "measure (\<lambda>(segs, fs, node). length segs)") auto

definition legacy_path_has_literal_dotted_member :: "json \<Rightarrow> ustr \<Rightarrow> seg list \<Rightarrow> bool result" where
  "legacy_path_has_literal_dotted_member event field_path segments =
     rbind (quoted_selector_flags field_path) (\<lambda>flags.
       if length flags \<noteq> length segments
       then Inl (ValueError (u ''Protection selector boundary mismatch''))
       else Inr (could_alias segments flags event))"

section \<open>Applying rules\<close>

definition hmac_key_for_stream :: "prot_env \<Rightarrow> int \<Rightarrow> nat list result" where
  "hmac_key_for_stream env stream_id =
     rbind (utf8_encode (ve_protection_salt (pe_vault env))) (\<lambda>secret.
     rbind (utf8_encode (int_str stream_id @ u '':'')) (\<lambda>prefix.
       Inr (prefix @ (if secret = [] then u ''gdc-protection-default-salt'' else secret))))"

definition apply_protection_mode ::
  "prot_env \<Rightarrow> ustr \<Rightarrow> int \<Rightarrow> nat list \<Rightarrow> ustr \<Rightarrow> token_map option
     \<Rightarrow> json \<Rightarrow> vault option \<Rightarrow> json result \<times> vault option" where
  "apply_protection_mode env mode stream_id key field_path token_map value db =
     (if mode = MODE_FULL_MASK then (Inr (full_mask_value value), db)
      else if mode = MODE_PARTIAL_MASK then (Inr (partial_mask_value value), db)
      else if mode = MODE_HASH then (hash_mask_value (pe_hmac env) key value, db)
      else if mode = MODE_TOKENIZATION then
        tokenize_value (pe_vault env) stream_id field_path value token_map db
      else (Inl (ValueError (u ''unsupported protection_mode: '' @ repr_str mode)), db))"

definition warn_rule_id :: "prot_rule \<Rightarrow> int option" where
  "warn_rule_id r = (case pr_id r of Some i \<Rightarrow> if i = 0 then None else Some i | None \<Rightarrow> None)"

definition rule_warning :: "prot_rule \<Rightarrow> ustr \<Rightarrow> warning" where
  "rule_warning r msg = \<lparr>w_field_path = pr_path r, w_rule_id = warn_rule_id r, w_error = msg\<rparr>"

definition AMBIGUOUS_MSG :: ustr where
  "AMBIGUOUS_MSG = u ''ambiguous legacy field path: literal dotted member could bypass protection; use explicit quoted selector''"

text \<open>
  The outcome is the event as it is left, and either an exception that escapes the function or
  the number of applications and an optional warning.
\<close>

definition apply_rule_to_event ::
  "prot_env \<Rightarrow> json \<Rightarrow> prot_rule \<Rightarrow> token_map option \<Rightarrow> vault option
     \<Rightarrow> (json \<times> (nat \<times> warning option) result) \<times> vault option" where
  "apply_rule_to_event env event rule token_map db = (case parse_protection_path (pr_path rule) of
     Inl e \<Rightarrow> ((event, Inr (0, Some (rule_warning rule (exc_str e)))), db)
   | Inr segments \<Rightarrow>
       if segments = [] then
         ((event, Inr (0, Some (rule_warning rule (u ''empty field_path segments'')))), db)
       else (case legacy_path_has_literal_dotted_member event (pr_path rule) segments of
         Inl e \<Rightarrow> ((event, Inl e), db)
       | Inr ambiguous \<Rightarrow>
           if ambiguous then ((event, Inr (0, Some (rule_warning rule AMBIGUOUS_MSG))), db)
           else (case hmac_key_for_stream env (pr_stream rule) of
             Inl e \<Rightarrow> ((event, Inl e), db)
           | Inr key \<Rightarrow>
               if pr_mode rule = MODE_DROP_FIELD then
                 (case drop_at segments event of (event', n) \<Rightarrow> ((event', Inr (n, None)), db))
               else
                 (case apply_at (apply_protection_mode env (pr_mode rule) (pr_stream rule) key
                          (pr_path rule) token_map) segments event db of
                    ((event', Inr n), db1) \<Rightarrow> ((event', Inr (n, None)), db1)
                  | ((event', Inl e), db1) \<Rightarrow>
                      ((event', Inr (0, Some (rule_warning rule (exc_str e)))), db1)))))"

fun apply_rules ::
  "prot_env \<Rightarrow> prot_rule list \<Rightarrow> token_map option \<Rightarrow> json \<Rightarrow> vault option
     \<Rightarrow> (json \<times> (nat \<times> warning list) result) \<times> vault option" where
  "apply_rules env [] tm event db = ((event, Inr (0, [])), db)"
| "apply_rules env (r # rs) tm event db = (case apply_rule_to_event env event r tm db of
     ((event1, Inl e), db1) \<Rightarrow> ((event1, Inl e), db1)
   | ((event1, Inr (n, w)), db1) \<Rightarrow>
       (case apply_rules env rs tm event1 db1 of
          ((event2, Inl e), db2) \<Rightarrow> ((event2, Inl e), db2)
        | ((event2, Inr (m, ws)), db2) \<Rightarrow>
            ((event2, Inr (n + m, (case w of None \<Rightarrow> [] | Some x \<Rightarrow> [x]) @ ws)), db2)))"

fun protect_events ::
  "prot_env \<Rightarrow> prot_rule list \<Rightarrow> token_map option \<Rightarrow> json list \<Rightarrow> vault option
     \<Rightarrow> (json list \<times> nat \<times> warning list) result \<times> vault option" where
  "protect_events env rules tm [] db = (Inr ([], 0, []), db)"
| "protect_events env rules tm (raw # evs) db =
     (if \<not> is_dict raw then
        (case protect_events env rules tm evs db of
           (Inl e, db1) \<Rightarrow> (Inl e, db1)
         | (Inr (out, n, ws), db1) \<Rightarrow> (Inr (raw # out, n, ws), db1))
      else (case apply_rules env rules tm (copy_json_value raw) db of
        ((_, Inl e), db1) \<Rightarrow> (Inl e, db1)
      | ((event, Inr (n, ws)), db1) \<Rightarrow>
          (case protect_events env rules tm evs db1 of
             (Inl e, db2) \<Rightarrow> (Inl e, db2)
           | (Inr (out, m, ws'), db2) \<Rightarrow> (Inr (event # out, n + m, ws @ ws'), db2))))"

section \<open>Tokenization targets\<close>

text \<open>The innermost loop: the distinct non-empty texts at one path.\<close>

fun add_targets :: "ustr \<Rightarrow> json list \<Rightarrow> (ustr \<times> ustr) list \<Rightarrow> (ustr \<times> ustr) list" where
  "add_targets path [] items = items"
| "add_targets path (v # vs) items = (case v of
     JStr s \<Rightarrow>
       (let canonical = strip s
        in if canonical = [] \<or> (path, canonical) \<in> set items then add_targets path vs items
           else add_targets path vs (items @ [(path, canonical)]))
   | _ \<Rightarrow> add_targets path vs items)"

fun targets_of_event :: "json \<Rightarrow> prot_rule list \<Rightarrow> (ustr \<times> ustr) list \<Rightarrow> (ustr \<times> ustr) list result" where
  "targets_of_event raw [] items = Inr items"
| "targets_of_event raw (r # rs) items =
     rbind (parse_protection_path (pr_path r)) (\<lambda>segments.
       if segments = [] then targets_of_event raw rs items
       else rbind (legacy_path_has_literal_dotted_member raw (pr_path r) segments) (\<lambda>ambiguous.
         if ambiguous then targets_of_event raw rs items
         else targets_of_event raw rs (add_targets (pr_path r) (collect_at segments raw) items)))"

fun targets_of_events :: "json list \<Rightarrow> prot_rule list \<Rightarrow> (ustr \<times> ustr) list \<Rightarrow> (ustr \<times> ustr) list result" where
  "targets_of_events [] rules items = Inr items"
| "targets_of_events (raw # evs) rules items =
     (if \<not> is_dict raw then targets_of_events evs rules items
      else rbind (targets_of_event raw rules items) (\<lambda>items'. targets_of_events evs rules items'))"

definition collect_tokenization_targets ::
  "json list \<Rightarrow> prot_rule list \<Rightarrow> (ustr \<times> ustr) list result" where
  "collect_tokenization_targets events rules =
     (let enabled = filter (\<lambda>r. pr_enabled r \<and> pr_mode r = MODE_TOKENIZATION) rules
      in if enabled = [] then Inr [] else targets_of_events events enabled [])"

section \<open>Protecting a batch\<close>

definition plain_result :: "json list \<Rightarrow> protect_result" where
  "plain_result evs = \<lparr>pb_events = evs, pb_masked = 0, pb_rules_applied = 0, pb_warning_count = 0,
     pb_warnings = [], pb_token_items = 0, pb_token_hits = 0, pb_token_created = 0\<rparr>"

text \<open>The persisted rules that are enabled, then the ephemeral ones for other paths.\<close>

definition effective_rules :: "prot_rule list \<Rightarrow> prot_rule list \<Rightarrow> prot_rule list" where
  "effective_rules rules ephemeral =
     (let enabled = filter pr_enabled rules;
          persisted_paths = map pr_path enabled
      in enabled @ filter (\<lambda>r. pr_enabled r \<and> pr_path r \<notin> set persisted_paths) ephemeral)"

text \<open>The vault lookups for the whole batch, done once before any event is changed.\<close>

definition prefetch_tokens ::
  "prot_env \<Rightarrow> json list \<Rightarrow> prot_rule list \<Rightarrow> int \<Rightarrow> vault option
     \<Rightarrow> (token_map option \<times> token_batch_stats) result \<times> vault option" where
  "prefetch_tokens env events enabled stream_id db =
     (let none = (Inr (None, \<lparr>batch_items = 0, cache_hits = 0, created = 0\<rparr>), db)
      in case db of
           None \<Rightarrow> none
         | Some v \<Rightarrow>
             if filter (\<lambda>r. pr_mode r = MODE_TOKENIZATION) enabled = [] then none
             else (case collect_tokenization_targets events
                          (filter (\<lambda>r. pr_mode r = MODE_TOKENIZATION) enabled) of
               Inl e \<Rightarrow> (Inl e, db)
             | Inr items \<Rightarrow>
                 if items = [] then none
                 else (case get_or_create_tokens_batch (pe_vault env) stream_id items v of
                   (Inl e, v1) \<Rightarrow> (Inl e, Some v1)
                 | (Inr (tm, st), v1) \<Rightarrow> (Inr (Some tm, st), Some v1))))"

definition protect_batch ::
  "prot_env \<Rightarrow> json list \<Rightarrow> prot_rule list \<Rightarrow> int \<Rightarrow> prot_rule list \<Rightarrow> vault option
     \<Rightarrow> protect_result result \<times> vault option" where
  "protect_batch env events rules stream_id ephemeral db =
     (if events = [] then (Inr (plain_result []), db)
      else
        let enabled = effective_rules rules ephemeral
        in if \<not> pe_enabled env \<or> enabled = [] then
             (Inr (plain_result (map (\<lambda>ev. if is_dict ev then copy_json_value ev else ev) events)), db)
           else (case prefetch_tokens env events enabled stream_id db of
             (Inl e, db1) \<Rightarrow> (Inl e, db1)
           | (Inr (tm, st), db1) \<Rightarrow>
               (case protect_events env enabled tm events db1 of
                  (Inl e, db2) \<Rightarrow> (Inl e, db2)
                | (Inr (out, n, ws), db2) \<Rightarrow>
                    (Inr \<lparr>pb_events = out, pb_masked = n, pb_rules_applied = length enabled,
                          pb_warning_count = length ws, pb_warnings = ws,
                          pb_token_items = batch_items st, pb_token_hits = cache_hits st,
                          pb_token_created = created st\<rparr>, db2))))"

section \<open>A reference definition of path updates\<close>

text \<open>
  \<open>map_at g segs node\<close> rewrites every value the path selects with \<open>g\<close>; it is what
  \<open>apply_at\<close> computes when the mode cannot raise and needs no database.
\<close>

fun map_at :: "(json \<Rightarrow> json) \<Rightarrow> seg list \<Rightarrow> json \<Rightarrow> json" where
  "map_at g [] node = node"
| "map_at g (SInt i # rest) node = (case node of
     JList xs \<Rightarrow> (case py_index i xs of None \<Rightarrow> node
       | Some k \<Rightarrow> JList (xs[k := (if rest = [] then g (xs ! k) else map_at g rest (xs ! k))]))
   | _ \<Rightarrow> node)"
| "map_at g (SStr s # rest) node =
     (if s = u ''[]'' then (case node of JList xs \<Rightarrow> JList (map (map_at g rest) xs) | _ \<Rightarrow> node)
      else (case node of
        JDict d \<Rightarrow> (case dget d s of None \<Rightarrow> node
          | Some v \<Rightarrow> JDict (dset s (if rest = [] then g v else map_at g rest v) d))
      | _ \<Rightarrow> node))"

lemma py_index_bound: "py_index i xs = Some k \<Longrightarrow> k < length xs"
  by (auto simp: py_index_def split: if_splits)

lemma py_index_update [simp]: "py_index i (xs[k := v]) = py_index i xs"
  by (simp add: py_index_def)

lemma scalar_steps [simp]:
  "\<not> is_dict v \<Longrightarrow> \<not> is_list v \<Longrightarrow> collect_at segs v = []"
  "\<not> is_dict v \<Longrightarrow> \<not> is_list v \<Longrightarrow> map_at g segs v = v"
  by (cases segs; cases "hd segs"; cases v; simp add: is_dict_def is_list_def)+

text \<open>The two-segment shortcut for a member followed by \<open>[]\<close> is the general step.\<close>

lemma collect_at_member:
  assumes "s \<noteq> u ''[]''" "rest \<noteq> []"
  shows "collect_at (SStr s # rest) node = (case node of
     JDict d \<Rightarrow> (case dget d s of None \<Rightarrow> [] | Some child \<Rightarrow> collect_at rest child) | _ \<Rightarrow> [])"
proof (cases "hd rest = wildcard")
  case True
  with assms obtain r where "rest = wildcard # r" by (cases rest) auto
  with assms show ?thesis by (auto split: json.splits option.splits)
next
  case False
  with assms show ?thesis by (auto split: json.splits option.splits)
qed

lemma apply_at_member:
  assumes "s \<noteq> u ''[]''" "rest \<noteq> []" "dget d s = Some child" "distinct (map fst d)"
  shows "apply_at f (SStr s # rest) (JDict d) db =
     (case apply_at f rest child db of ((c', r), db1) \<Rightarrow> ((JDict (dset s c' d), r), db1))"
proof (cases "hd rest = wildcard")
  case True
  with assms obtain r where "rest = wildcard # r" by (cases rest) auto
  with assms show ?thesis by (auto simp: dset_same split: json.splits prod.splits)
next
  case False
  have "apply_at f rest child db = ((child, Inr 0), db)" if "\<not> is_dict child" "\<not> is_list child"
    using that by (cases rest; cases "hd rest"; cases child) (auto simp: is_dict_def is_list_def)
  with False assms show ?thesis by (auto simp: dset_same)
qed

lemma each_item_pure:
  assumes "\<And>x db. x \<in> set xs \<Longrightarrow> f x db = ((h x, Inr (n x)), db)"
  shows "each_item f xs db = ((map h xs, Inr (sum_list (map n xs))), db)"
  using assms by (induction xs arbitrary: db) auto

lemma apply_at_pure:
  "json_ok node \<Longrightarrow> apply_at (\<lambda>v db. (Inr (g v), db)) segs node db =
     ((map_at g segs node, Inr (length (collect_at segs node))), db)"
proof (induction segs arbitrary: node db)
  case (Cons x rest)
  let ?f = "\<lambda>v db. (Inr (g v), db)"
  show ?case
  proof (cases x)
    case (SInt i)
    show ?thesis
    proof (cases node)
      case (JList xs)
      with SInt Cons py_index_bound show ?thesis
        by (fastforce simp: assign_leaf_def split: option.splits)
    qed (use SInt in simp_all)
  next
    case (SStr s)
    consider (wild) "s = u ''[]''" | (leaf) "s \<noteq> u ''[]''" "rest = []" | (inner) "s \<noteq> u ''[]''" "rest \<noteq> []"
      by blast
    then show ?thesis
    proof cases
      case wild
      show ?thesis
      proof (cases node)
        case (JList xs)
        have "each_item (apply_at ?f rest) xs db =
          ((map (map_at g rest) xs, Inr (sum_list (map (\<lambda>v. length (collect_at rest v)) xs))), db)"
          using Cons JList by (intro each_item_pure) auto
        with SStr wild JList show ?thesis by (simp add: length_concat comp_def)
      qed (use SStr wild in simp_all)
    next
      case leaf
      with SStr show ?thesis by (auto simp: assign_leaf_def split: json.splits option.splits)
    next
      case inner
      show ?thesis
      proof (cases node)
        case (JDict d)
        show ?thesis
        proof (cases "dget d s")
          case None
          with SStr inner JDict show ?thesis by simp
        next
          case (Some child)
          with JDict Cons.prems have "json_ok child" "distinct (map fst d)" by (auto intro: json_wf)
          then have "apply_at ?f rest child db =
              ((map_at g rest child, Inr (length (collect_at rest child))), db)"
            using Cons.IH by blast
          with SStr inner JDict Some \<open>distinct (map fst d)\<close> show ?thesis
            by (simp add: apply_at_member collect_at_member del: apply_at.simps collect_at.simps)
        qed
      qed (use SStr inner in simp_all)
    qed
  qed
qed simp

lemma concat_map_map: "concat (map (\<lambda>x. map g (h x)) xs) = map g (concat (map h xs))"
  by (induction xs) auto

lemma collect_map_at: "collect_at segs (map_at g segs node) = map g (collect_at segs node)"
proof (induction segs arbitrary: node)
  case (Cons x rest)
  show ?case
  proof (cases x)
    case (SInt i)
    show ?thesis
    proof (cases node)
      case (JList xs)
      show ?thesis
      proof (cases "py_index i xs")
        case (Some k)
        then have "k < length xs" by (rule py_index_bound)
        with Some SInt JList Cons.IH show ?thesis by simp
      qed (use SInt JList in simp)
    qed (use SInt in simp_all)
  next
    case (SStr s)
    consider (wild) "s = u ''[]''" | (leaf) "s \<noteq> u ''[]''" "rest = []" | (inner) "s \<noteq> u ''[]''" "rest \<noteq> []"
      by blast
    then show ?thesis
    proof cases
      case wild
      with SStr Cons show ?thesis by (auto simp: comp_def concat_map_map split: json.splits)
    next
      case leaf
      with SStr show ?thesis by (auto simp: dict_simps split: json.splits option.splits)
    next
      case inner
      with SStr Cons show ?thesis
        by (auto simp: collect_at_member dict_simps simp del: collect_at.simps split: json.splits option.splits)
    qed
  qed
qed simp

section \<open>Dropping\<close>

lemma py_index_same: "length ys = length xs \<Longrightarrow> py_index i ys = py_index i xs"
  by (simp add: py_index_def)

definition index_last :: "seg list \<Rightarrow> bool" where
  "index_last segs \<longleftrightarrow> segs \<noteq> [] \<and> (\<exists>i. last segs = SInt i)"

lemma drop_at_member:
  assumes "s \<noteq> u ''[]''" "rest \<noteq> []" "dget d s = Some child" "distinct (map fst d)"
  shows "drop_at (SStr s # rest) (JDict d) =
     (case drop_at rest child of (c', n) \<Rightarrow> (JDict (dset s c' d), n))"
proof (cases "hd rest = wildcard")
  case True
  with assms obtain r where "rest = wildcard # r" by (cases rest) auto
  with assms show ?thesis by (auto simp: dset_same split: json.splits)
next
  case False
  with assms show ?thesis by auto
qed

lemma drop_at_removes:
  "json_ok node \<Longrightarrow> segs \<noteq> [] \<Longrightarrow> \<not> index_last segs \<Longrightarrow> collect_at segs (fst (drop_at segs node)) = []"
proof (induction segs arbitrary: node)
  case (Cons x rest)
  have IH: "rest \<noteq> [] \<Longrightarrow> json_ok v \<Longrightarrow> collect_at rest (fst (drop_at rest v)) = []" for v
    using Cons.IH Cons.prems(3) by (auto simp: index_last_def)
  show ?case
  proof (cases x)
    case (SInt i)
    with Cons.prems have r: "rest \<noteq> []" by (auto simp: index_last_def)
    show ?thesis
    proof (cases node)
      case (JList xs)
      show ?thesis
      proof (cases "py_index i xs")
        case (Some k)
        then have "k < length xs" by (rule py_index_bound)
        moreover from this Cons.prems JList have "json_ok (xs ! k)" by simp
        moreover obtain x' n where x': "drop_at rest (xs ! k) = (x', n)" by (cases "drop_at rest (xs ! k)")
        ultimately have "collect_at rest x' = []" using IH [OF r, of "xs ! k"] by simp
        with x' \<open>k < length xs\<close> Some SInt JList r show ?thesis by simp
      qed (use SInt JList in simp)
    qed (use SInt in simp_all)
  next
    case (SStr s)
    consider (wild) "s = u ''[]''" | (leaf) "s \<noteq> u ''[]''" "rest = []" | (inner) "s \<noteq> u ''[]''" "rest \<noteq> []"
      by blast
    then show ?thesis
    proof cases
      case wild
      with SStr IH Cons.prems show ?thesis
        by (cases node; cases "rest = []") auto
    next
      case leaf
      with SStr show ?thesis by (cases node) (auto simp: dict_simps split: option.splits)
    next
      case inner
      show ?thesis
      proof (cases node)
        case (JDict d)
        show ?thesis
        proof (cases "dget d s")
          case (Some child)
          with JDict Cons.prems have "json_ok child" "distinct (map fst d)" by (auto intro: json_wf)
          moreover obtain c' n where c': "drop_at rest child = (c', n)" by (cases "drop_at rest child")
          ultimately have "collect_at rest c' = []" using IH [of child] inner by simp
          with inner Some JDict SStr \<open>distinct (map fst d)\<close> c' show ?thesis
            by (simp add: drop_at_member collect_at_member dict_simps del: drop_at.simps collect_at.simps)
        qed (use SStr JDict inner in simp)
      qed (use SStr inner in simp_all)
    qed
  qed
qed simp

lemma modes_distinct [simp]: "MODE_FULL_MASK \<noteq> MODE_DROP_FIELD" "MODE_DROP_FIELD \<noteq> MODE_FULL_MASK"
  by (simp_all add: mode_defs)

lemma full_mask_mode: "apply_protection_mode env MODE_FULL_MASK sid key p tm = (\<lambda>v db. (Inr (full_mask_value v), db))"
  by (simp add: apply_protection_mode_def fun_eq_iff)

section \<open>Frame\<close>

text \<open>
  Two paths diverge when, after a common prefix, they name two different members of the same
  object.  (Indexes and wildcards may select the same item, so they never make paths diverge.)
\<close>

fun diverge :: "seg list \<Rightarrow> seg list \<Rightarrow> bool" where
  "diverge (x # p) (y # q) =
     (if x = y then diverge p q
      else (case (x, y) of (SStr a, SStr b) \<Rightarrow> a \<noteq> u ''[]'' \<and> b \<noteq> u ''[]'' | _ \<Rightarrow> False))"
| "diverge _ _ = False"

lemma diverge_nonempty: "diverge p q \<Longrightarrow> p \<noteq> [] \<and> q \<noteq> []"
  by (cases p; cases q) auto

lemma diverge_Nil: "\<not> diverge [] q" "\<not> diverge p []"
  by (auto dest: diverge_nonempty)

text \<open>\<open>touched p v w\<close>: \<open>w\<close> differs from \<open>v\<close> only at or below the values the path selects.\<close>

inductive touched :: "seg list \<Rightarrow> json \<Rightarrow> json \<Rightarrow> bool" where
  same: "touched p v v"
| leaf_item: "touched [SInt i] (JList xs) (JList ys)"
| leaf_member: "s \<noteq> u ''[]'' \<Longrightarrow> (\<And>t. t \<noteq> s \<Longrightarrow> dget d' t = dget d t) \<Longrightarrow>
    touched [SStr s] (JDict d) (JDict d')"
| item: "py_index i xs = Some k \<Longrightarrow> touched p (xs ! k) w \<Longrightarrow>
    touched (SInt i # p) (JList xs) (JList (xs[k := w]))"
| each: "length ys = length xs \<Longrightarrow> (\<And>i. i < length xs \<Longrightarrow> touched p (xs ! i) (ys ! i)) \<Longrightarrow>
    touched (wildcard # p) (JList xs) (JList ys)"
| member: "s \<noteq> u ''[]'' \<Longrightarrow> dget d s = Some v \<Longrightarrow> touched p v w \<Longrightarrow>
    touched (SStr s # p) (JDict d) (JDict (dset s w d))"

lemma collect_other:
  assumes "t \<noteq> u ''[]''" "dget d' t = dget d t"
  shows "collect_at (SStr t # q) (JDict d') = collect_at (SStr t # q) (JDict d)"
  using assms by simp

lemma touched_frame: "touched p v w \<Longrightarrow> diverge p q \<Longrightarrow> collect_at q w = collect_at q v"
proof (induction arbitrary: q rule: touched.induct)
  case (leaf_item i xs ys)
  then show ?case by (cases q) (auto simp: diverge_Nil split: seg.splits if_splits)
next
  case (leaf_member s d' d)
  from leaf_member(3) obtain t q' where q: "q = SStr t # q'" "t \<noteq> s" "t \<noteq> u ''[]''"
    by (cases q) (auto simp: diverge_Nil split: seg.splits if_splits)
  from collect_other [OF q(3) leaf_member(2) [OF q(2)]] show ?case unfolding q(1) .
next
  case (item i xs k p w)
  then obtain q' where q: "q = SInt i # q'" "diverge p q'"
    by (cases q) (auto split: seg.splits if_splits)
  with item have "collect_at q' w = collect_at q' (xs ! k)" by blast
  with q item py_index_bound [OF item(1)] diverge_nonempty [OF q(2)] show ?case by simp
next
  case (each ys xs p)
  then obtain q' where q: "q = wildcard # q'" "diverge p q'"
    by (cases q) (auto split: seg.splits if_splits)
  with each have "map (collect_at q') ys = map (collect_at q') xs" by (intro nth_equalityI) auto
  with q show ?case by simp
next
  case (member s d v p w)
  note ih = member.IH and prem = member.prems and s = member.hyps(1) and g = member.hyps(2)
  show ?case
  proof (cases "hd q = SStr s")
    case True
    with prem obtain q' where q: "q = SStr s # q'" "diverge p q'" by (cases q) auto
    from ih [OF q(2)] have "collect_at q' w = collect_at q' v" .
    with g show ?thesis unfolding q(1)
      using collect_at_member [OF s, of q'] diverge_nonempty [OF q(2)]
      by (simp add: dict_simps del: collect_at.simps)
  next
    case False
    with prem obtain t q' where q: "q = SStr t # q'" "t \<noteq> s" "t \<noteq> u ''[]''"
      by (cases q) (auto split: seg.splits if_splits)
    have "dget (dset s w d) t = dget d t" using q(2) by (simp add: dict_simps)
    from collect_other [OF q(3) this] show ?thesis unfolding q(1) .
  qed
qed simp

lemma each_item_touched:
  assumes "\<And>x db. touched p x (fst (fst (f x db)))"
  shows "length (fst (fst (each_item f xs db))) = length xs \<and>
    (\<forall>i < length xs. touched p (xs ! i) (fst (fst (each_item f xs db)) ! i))"
proof (induction xs arbitrary: db)
  case (Cons x xs)
  obtain x' r db1 where f: "f x db = ((x', r), db1)" by (metis prod.exhaust)
  with assms [of x db] have x': "touched p x x'" by simp
  obtain ys r2 db2 where g: "each_item f xs db1 = ((ys, r2), db2)" by (metis prod.exhaust)
  with Cons.IH [of db1] have "length ys = length xs" "\<forall>i < length xs. touched p (xs ! i) (ys ! i)" by auto
  with f g x' show ?case
    by (cases r; cases r2) (auto simp: nth_Cons split: nat.splits intro: touched.same)
qed simp

lemma touched_each_item:
  assumes "\<And>x db. touched p x (fst (fst (f x db)))" "each_item f xs db = ((ys, r), db1)"
  shows "touched (wildcard # p) (JList xs) (JList ys)"
  using each_item_touched [of p f xs db, OF assms(1)] assms(2) by (intro touched.each) auto

lemma apply_at_touched: "touched p node (fst (fst (apply_at f p node db)))"
proof (induction p arbitrary: node db rule: length_induct)
  case (1 p)
  show ?case
  proof (cases p)
    case Nil
    then show ?thesis by (simp add: touched.same)
  next
    case (Cons x rest)
    with 1 have IH: "touched rest v (fst (fst (apply_at f rest v db)))" for v db by simp
    have IH2: "rest \<noteq> [] \<Longrightarrow> touched (tl rest) v (fst (fst (apply_at f (tl rest) v db)))" for v db
      using 1 Cons by simp
    show ?thesis
    proof (cases x)
      case (SInt i)
      show ?thesis
      proof (cases node)
        case (JList xs)
        show ?thesis
        proof (cases "py_index i xs")
          case (Some k)
          with IH [of "xs ! k" db] Cons SInt JList show ?thesis
            by (auto simp: assign_leaf_def split: prod.splits sum.splits
                intro: touched.same touched.leaf_item touched.item)
        qed (simp add: Cons SInt JList touched.same)
      qed (simp_all add: Cons SInt touched.same)
    next
      case (SStr s)
      consider (wild) "s = u ''[]''" | (leaf) "s \<noteq> u ''[]''" "rest = []"
        | (skip) "s \<noteq> u ''[]''" "rest \<noteq> []" "hd rest = wildcard"
        | (inner) "s \<noteq> u ''[]''" "rest \<noteq> []" "hd rest \<noteq> wildcard" by blast
      then show ?thesis
      proof cases
        case wild
        then show ?thesis using Cons SStr touched_each_item [of rest "apply_at f rest", OF IH]
          by (cases node) (auto split: prod.splits intro: touched.same)
      next
        case leaf
        then show ?thesis using Cons SStr
          by (cases node) (auto simp: assign_leaf_def dict_simps split: prod.splits sum.splits option.splits
              intro: touched.same touched.leaf_member)
      next
        case skip
        then have "rest = wildcard # tl rest" by (cases rest) auto
        with skip show ?thesis using Cons SStr touched_each_item [of "tl rest" "apply_at f (tl rest)", OF IH2]
          by (cases node) (auto split: prod.splits option.splits json.splits intro: touched.same touched.member)
      next
        case inner
        show ?thesis
        proof (cases node)
          case (JDict d)
          show ?thesis
          proof (cases "dget d s")
            case (Some child)
            obtain c' r db1 where c: "apply_at f rest child db = ((c', r), db1)" by (metis prod.exhaust)
            with IH [of child db] have "touched rest child c'" by simp
            with c inner Some JDict Cons SStr show ?thesis
              by (auto intro: touched.same touched.member)
          qed (use inner JDict Cons SStr in \<open>simp add: touched.same\<close>)
        qed (use inner Cons SStr in \<open>simp_all add: touched.same\<close>)
      qed
    qed
  qed
qed

lemma drop_at_touched: "touched p node (fst (drop_at p node))"
proof (induction p arbitrary: node rule: length_induct)
  case (1 p)
  show ?case
  proof (cases p)
    case Nil
    then show ?thesis by (simp add: touched.same)
  next
    case (Cons x rest)
    with 1 have IH: "touched rest v (fst (drop_at rest v))" for v by simp
    have IH2: "rest \<noteq> [] \<Longrightarrow> touched (tl rest) v (fst (drop_at (tl rest) v))" for v
      using 1 Cons by simp
    show ?thesis
    proof (cases x)
      case (SInt i)
      show ?thesis
      proof (cases node)
        case (JList xs)
        show ?thesis
        proof (cases "py_index i xs")
          case (Some k)
          obtain w n where w: "drop_at rest (xs ! k) = (w, n)" by (metis prod.exhaust)
          with IH [of "xs ! k"] have "touched rest (xs ! k) w" by simp
          with w Some Cons SInt JList show ?thesis
            by (auto intro: touched.leaf_item touched.item)
        qed (simp add: Cons SInt JList touched.same)
      qed (simp_all add: Cons SInt touched.same)
    next
      case (SStr s)
      consider (wild) "s = u ''[]''" | (leaf) "s \<noteq> u ''[]''" "rest = []"
        | (skip) "s \<noteq> u ''[]''" "rest \<noteq> []" "hd rest = wildcard"
        | (inner) "s \<noteq> u ''[]''" "rest \<noteq> []" "hd rest \<noteq> wildcard" by blast
      then show ?thesis
      proof cases
        case wild
        then show ?thesis using Cons SStr IH
          by (cases node) (auto intro: touched.same touched.each)
      next
        case leaf
        then show ?thesis using Cons SStr
          by (cases node) (auto simp: dict_simps split: option.splits
              intro: touched.same touched.leaf_member)
      next
        case skip
        then have r: "rest = wildcard # tl rest" by (cases rest) auto
        have "touched rest (JList xs) (JList (map (fst \<circ> drop_at (tl rest)) xs))" for xs
          using IH2 skip by (subst r) (auto intro!: touched.each)
        with skip show ?thesis using Cons SStr
          by (cases node) (auto split: option.splits json.splits intro: touched.same touched.member)
      next
        case inner
        show ?thesis
        proof (cases node)
          case (JDict d)
          show ?thesis
          proof (cases "dget d s")
            case (Some child)
            obtain c' n where c: "drop_at rest child = (c', n)" by (metis prod.exhaust)
            with IH [of child] have "touched rest child c'" by simp
            with c inner Some JDict Cons SStr show ?thesis
              by (auto intro: touched.same touched.member)
          qed (use inner JDict Cons SStr in \<open>simp add: touched.same\<close>)
        qed (use inner Cons SStr in \<open>simp_all add: touched.same\<close>)
      qed
    qed
  qed
qed

lemma rule_frame:
  assumes "parse_protection_path (pr_path rule) = Inr segs" and "diverge segs q"
  shows "collect_at q (fst (fst (apply_rule_to_event env event rule tm db))) = collect_at q event"
proof -
  let ?f = "\<lambda>key. apply_protection_mode env (pr_mode rule) (pr_stream rule) key (pr_path rule) tm"
  have "fst (fst (apply_rule_to_event env event rule tm db)) \<in>
      {event, fst (drop_at segs event)} \<union> (\<lambda>key. fst (fst (apply_at (?f key) segs event db))) ` UNIV"
    using assms(1) by (auto simp: apply_rule_to_event_def image_iff split: sum.splits prod.splits)
      (metis fst_conv)+
  then have "touched segs event (fst (fst (apply_rule_to_event env event rule tm db)))"
    using apply_at_touched drop_at_touched by (auto intro: touched.same)
  from touched_frame [OF this assms(2)] show ?thesis .
qed

section \<open>What protection leaves of a value\<close>

text \<open>
  What the mode of a rule can make of a value.  A token is any text of the sequence's format; every
  other mode is a function of the value (and of the stream's key).  Dropping makes nothing of it.
\<close>

definition mode_out :: "prot_env \<Rightarrow> prot_rule \<Rightarrow> json \<Rightarrow> json \<Rightarrow> bool" where
  "mode_out env r v w \<longleftrightarrow>
     pr_mode r = MODE_FULL_MASK \<and> w = full_mask_value v \<or>
     pr_mode r = MODE_PARTIAL_MASK \<and> w = partial_mask_value v \<or>
     pr_mode r = MODE_HASH \<and> (\<exists>key. hmac_key_for_stream env (pr_stream r) = Inr key \<and>
       hash_mask_value (pe_hmac env) key v = Inr w) \<or>
     pr_mode r = MODE_TOKENIZATION \<and>
       (if \<exists>s. v = JStr s \<and> strip s \<noteq> [] then \<exists>n. w = JStr (format_token n) else w = full_mask_value v)"

text \<open>A value with nothing below it.\<close>

definition flat :: "json \<Rightarrow> bool" where
  "flat v \<longleftrightarrow> (\<forall>d. v = JDict d \<longrightarrow> d = []) \<and> (\<forall>xs. v = JList xs \<longrightarrow> xs = [])"

lemma flat_simps [simp]: "flat (JDict d) \<longleftrightarrow> d = []" "flat (JList xs) \<longleftrightarrow> xs = []" "flat (JStr s)" "flat JNull"
  by (simp_all add: flat_def)

lemma flat_collect [simp]: "flat v \<Longrightarrow> collect_at segs v = []"
  by (cases segs; cases "hd segs"; cases v) (auto simp: py_index_def)

lemma flat_modes [simp]: "flat (full_mask_value v)" "flat (partial_mask_value v)" "hash_mask_value h k v = Inr w \<Longrightarrow> flat w"
  by (cases v; auto simp: full_mask_value_def partial_mask_value_def hash_mask_value_def rbind_Inr_iff flat_def Let_def)+

lemma mode_out_flat: "mode_out env r v w \<Longrightarrow> flat w"
  by (auto simp: mode_out_def split: if_splits)

lemma mode_out_ok: "mode_out env r v w \<Longrightarrow> json_ok w"
  by (auto simp: mode_out_def json_wf split: if_splits)

lemma all_modes_distinct [simp]:
  "MODE_FULL_MASK \<noteq> MODE_PARTIAL_MASK" "MODE_FULL_MASK \<noteq> MODE_HASH" "MODE_FULL_MASK \<noteq> MODE_TOKENIZATION"
  "MODE_PARTIAL_MASK \<noteq> MODE_FULL_MASK" "MODE_PARTIAL_MASK \<noteq> MODE_HASH" "MODE_PARTIAL_MASK \<noteq> MODE_TOKENIZATION"
  "MODE_HASH \<noteq> MODE_FULL_MASK" "MODE_HASH \<noteq> MODE_PARTIAL_MASK" "MODE_HASH \<noteq> MODE_TOKENIZATION"
  "MODE_TOKENIZATION \<noteq> MODE_FULL_MASK" "MODE_TOKENIZATION \<noteq> MODE_PARTIAL_MASK" "MODE_TOKENIZATION \<noteq> MODE_HASH"
  "MODE_DROP_FIELD \<noteq> MODE_PARTIAL_MASK" "MODE_DROP_FIELD \<noteq> MODE_HASH" "MODE_DROP_FIELD \<noteq> MODE_TOKENIZATION"
  "MODE_PARTIAL_MASK \<noteq> MODE_DROP_FIELD" "MODE_HASH \<noteq> MODE_DROP_FIELD" "MODE_TOKENIZATION \<noteq> MODE_DROP_FIELD"
  by (simp_all add: mode_defs)

lemma mode_out_drop: "pr_mode r = MODE_DROP_FIELD \<Longrightarrow> \<not> mode_out env r v w"
  by (simp add: mode_out_def)

text \<open>
  \<open>reduced M strict v w\<close>: \<open>w\<close> is \<open>v\<close> with some values below it rewritten by \<open>M\<close> and some members removed;
  unless \<open>strict\<close>, items of arrays may be gone too.  Every rule only reduces an event, and reducing never
  uncovers a value: whatever a path selects afterwards is a reduced version of something it selected before,
  where after the removal of items this is said of paths without indexes only.
\<close>

inductive reduced :: "(json \<Rightarrow> json \<Rightarrow> bool) \<Rightarrow> bool \<Rightarrow> json \<Rightarrow> json \<Rightarrow> bool" for M strict where
  keep: "reduced M strict v v"
| cover: "M v w \<Longrightarrow> reduced M strict v w"
| items: "length ys = length xs \<Longrightarrow> (\<And>i. i < length xs \<Longrightarrow> reduced M strict (xs ! i) (ys ! i)) \<Longrightarrow>
    reduced M strict (JList xs) (JList ys)"
| fewer: "\<not> strict \<Longrightarrow> (\<And>y. y \<in> set ys \<Longrightarrow> \<exists>x \<in> set xs. reduced M strict x y) \<Longrightarrow>
    reduced M strict (JList xs) (JList ys)"
| members: "(\<And>k w. dget d' k = Some w \<Longrightarrow> \<exists>v. dget d k = Some v \<and> reduced M strict v w) \<Longrightarrow>
    reduced M strict (JDict d) (JDict d')"

definition names_only :: "seg list \<Rightarrow> bool" where
  "names_only segs \<longleftrightarrow> list_all (\<lambda>s. case s of SStr _ \<Rightarrow> True | SInt _ \<Rightarrow> False) segs"

lemma names_only_simps [simp]: "names_only (SInt i # p) = False" "names_only (SStr s # p) = names_only p" "names_only []"
  by (simp_all add: names_only_def)

lemma collect_reduced:
  assumes flat: "\<And>v w. M v w \<Longrightarrow> flat w"
  shows "reduced M strict a b \<Longrightarrow> strict \<or> names_only segs \<Longrightarrow> w \<in> set (collect_at segs b) \<Longrightarrow>
    \<exists>v \<in> set (collect_at segs a). reduced M strict v w"
proof (induction segs arbitrary: a b)
  case (Cons x rest)
  have IH: "reduced M strict c c' \<Longrightarrow> strict \<or> names_only rest \<Longrightarrow> w \<in> set (collect_at rest c') \<Longrightarrow>
    \<exists>v \<in> set (collect_at rest c). reduced M strict v w" for c c' by (rule Cons.IH)
  from Cons.prems(2) have st: "strict \<or> names_only rest" by (cases x) auto
  have each: "\<exists>v \<in> set (collect_at (x # rest) a). reduced M strict v w"
    if a: "a = JList xs" "b = JList ys" and s: "x = wildcard" and xy: "\<And>y. y \<in> set ys \<Longrightarrow> \<exists>z \<in> set xs. reduced M strict z y" for xs ys
  proof -
    from Cons.prems(3) a s obtain y where "y \<in> set ys" "w \<in> set (collect_at rest y)" by auto
    with xy IH st obtain z v where "z \<in> set xs" "v \<in> set (collect_at rest z)" "reduced M strict v w" by metis
    then show ?thesis using a s by auto
  qed
  from Cons.prems(1) show ?case
  proof cases
    case keep
    with Cons.prems(3) show ?thesis by (auto intro: reduced.keep)
  next
    case cover
    with flat Cons.prems(3) show ?thesis by fastforce
  next
    case (items ys xs)
    note same = py_index_same [OF \<open>length ys = length xs\<close>]
    show ?thesis
    proof (cases x)
      case (SInt i)
      with Cons.prems(3) items obtain k where k: "py_index i xs = Some k"
        by (cases "py_index i xs") (simp_all add: same)
      then have "k < length xs" by (rule py_index_bound)
      with items have "reduced M strict (xs ! k) (ys ! k)" by blast
      with SInt k items IH st Cons.prems(3) show ?thesis by (cases "rest = []") (auto simp: same)
    next
      case (SStr s)
      with Cons.prems(3) items have s: "x = wildcard" by (auto split: if_splits)
      have "\<exists>z \<in> set xs. reduced M strict z y" if "y \<in> set ys" for y
        using that items by (metis in_set_conv_nth)
      with each items s show ?thesis by blast
    qed
  next
    case (fewer ys xs)
    with Cons.prems obtain s where x: "x = SStr s" by (cases x) auto
    with Cons.prems(3) fewer have "x = wildcard" by (auto split: if_splits)
    with each fewer show ?thesis by blast
  next
    case (members d' d)
    with Cons.prems(3) obtain s where x: "x = SStr s" and s: "s \<noteq> u ''[]''"
      by (cases x) (auto split: if_splits)
    show ?thesis
    proof (cases "rest = []")
      case True
      with Cons.prems(3) members x s have "dget d' s = Some w" by (auto split: option.splits)
      with members obtain v where "dget d s = Some v" "reduced M strict v w" by blast
      with True members x s show ?thesis by simp
    next
      case False
      with Cons.prems(3) members x s obtain c' where c': "dget d' s = Some c'" "w \<in> set (collect_at rest c')"
        by (cases "dget d' s") (simp_all add: collect_at_member del: collect_at.simps)
      with members obtain c where "dget d s = Some c" "reduced M strict c c'" by blast
      with c' IH st False members x s show ?thesis
        by (auto simp: collect_at_member simp del: collect_at.simps)
    qed
  qed
qed simp

lemma reduced_update: "k < length xs \<Longrightarrow> reduced M st (xs ! k) w \<Longrightarrow> reduced M st (JList xs) (JList (xs[k := w]))"
  by (rule reduced.items) (auto simp: nth_list_update intro: reduced.keep)

lemma reduced_dset: "dget d s = Some v \<Longrightarrow> reduced M st v w \<Longrightarrow> reduced M st (JDict d) (JDict (dset s w d))"
  by (rule reduced.members) (auto simp: dict_simps intro: reduced.keep split: if_splits)

lemma reduced_flat: "reduced M st v w \<Longrightarrow> flat v \<Longrightarrow> w = v \<or> M v w"
proof (induction rule: reduced.induct)
  case (members d' d)
  then have "dget d' k = None" for k by (cases "dget d' k") auto
  then have "d' = []" by (metis map_of_Cons_code(2) neq_Nil_conv option.distinct(1) prod.exhaust)
  with members show ?case by simp
next
  case (fewer ys xs)
  then have "ys = []" by (cases ys) auto
  with fewer show ?case by simp
qed auto

section \<open>Each walk reduces\<close>

lemma each_item_spec:
  assumes step: "\<And>x db x' r db'. x \<in> set xs \<Longrightarrow> P db \<Longrightarrow> f x db = ((x', r), db') \<Longrightarrow> P db' \<and> Q x x' \<and> (\<forall>n. r = Inr n \<longrightarrow> C x')"
    and same: "\<And>x. x \<in> set xs \<Longrightarrow> Q x x"
    and run: "P db" "each_item f xs db = ((ys, r), db')"
  shows "P db' \<and> list_all2 Q xs ys \<and> (\<forall>n. r = Inr n \<longrightarrow> (\<forall>y \<in> set ys. C y))"
  using assms
proof (induction xs arbitrary: db ys r db')
  case (Cons x xs)
  obtain x' r1 db1 where f: "f x db = ((x', r1), db1)" by (metis prod.exhaust)
  from Cons.prems(1) [OF _ Cons.prems(3) f] have x': "P db1" "Q x x'" "\<forall>n. r1 = Inr n \<longrightarrow> C x'" by auto
  have rest: "list_all2 Q xs xs" using Cons.prems(2) by (simp add: list.rel_refl_strong)
  show ?case
  proof (cases r1)
    case (Inl e)
    with f Cons.prems(4) x' rest show ?thesis by auto
  next
    case (Inr n)
    obtain ys1 r2 db2 where g: "each_item f xs db1 = ((ys1, r2), db2)" by (metis prod.exhaust)
    have "P db2 \<and> list_all2 Q xs ys1 \<and> (\<forall>n. r2 = Inr n \<longrightarrow> (\<forall>y \<in> set ys1. C y))"
    proof (rule Cons.IH [OF _ _ x'(1) g])
      show "P db' \<and> Q y y' \<and> (\<forall>n. r = Inr n \<longrightarrow> C y')" if "y \<in> set xs" "P db" "f y db = ((y', r), db')" for y db y' r db'
        using Cons.prems(1) [of y db y' r db'] that by simp
    qed (use Cons.prems(2) in simp)
    with f g Inr Cons.prems(4) x' show ?thesis by (cases r2) auto
  qed
qed auto

lemma list_all2_reduced:
  "list_all2 (\<lambda>x y. reduced M st x y \<and> json_ok y) xs ys \<Longrightarrow> reduced M st (JList xs) (JList ys) \<and> json_ok (JList ys)"
  by (auto simp: list_all2_conv_all_nth in_set_conv_nth intro!: reduced.items)

lemma apply_at_reduces:
  assumes f: "\<And>v db w db'. P db \<Longrightarrow> f v db = (w, db') \<Longrightarrow> P db' \<and> (\<forall>x. w = Inr x \<longrightarrow> M v x)"
    and M: "\<And>v x. M v x \<Longrightarrow> json_ok x \<and> flat x"
  shows "json_ok node \<Longrightarrow> P db \<Longrightarrow> apply_at f segs node db = ((node', r), db') \<Longrightarrow>
    P db' \<and> (reduced M st node node' \<and> json_ok node') \<and>
    (\<forall>n. r = Inr n \<longrightarrow> (\<forall>w \<in> set (collect_at segs node'). \<exists>v. M v w))"
proof (induction segs arbitrary: node db node' r db')
  case (Cons x rest)
  have leaf: "P db' \<and> (reduced M st node node' \<and> json_ok node') \<and> (\<forall>n. r = Inr n \<longrightarrow> (\<exists>v w. M v w \<and> node' = upd w))"
    if "assign_leaf f v node upd db = ((node', r), db')" "\<And>w. M v w \<Longrightarrow> reduced M st node (upd w) \<and> json_ok (upd w)" for v upd
    using that Cons.prems(1) f [OF Cons.prems(2), of v]
    by (fastforce simp: assign_leaf_def split: prod.splits sum.splits intro: reduced.keep)
  show ?case
  proof (cases x)
    case (SInt i)
    show ?thesis
    proof (cases node)
      case (JList xs)
      show ?thesis
      proof (cases "py_index i xs")
        case (Some k)
        then have k: "k < length xs" by (rule py_index_bound)
        with Cons.prems(1) JList have ok: "json_ok (xs ! k)" by simp
        show ?thesis
        proof (cases "rest = []")
          case True
          have "reduced M st node (JList (xs[k := w])) \<and> json_ok (JList (xs[k := w]))" if "M (xs ! k) w" for w
            using that k JList M Cons.prems(1) by (auto intro: reduced_update reduced.cover json_ok_update simp del: json_ok.simps)
          from leaf [OF _ this] Cons.prems(3) True SInt JList Some k show ?thesis by fastforce
        next
          case False
          obtain c' r1 db1 where c: "apply_at f rest (xs ! k) db = ((c', r1), db1)" by (metis prod.exhaust)
          from Cons.IH [OF ok Cons.prems(2) c] Cons.prems(1,3) c False SInt JList Some k show ?thesis
            by (auto simp del: json_ok.simps intro: reduced_update json_ok_update)
        qed
      qed (use SInt JList Cons.prems in \<open>auto intro: reduced.keep\<close>)
    qed (use SInt Cons.prems in \<open>auto intro: reduced.keep\<close>)
  next
    case (SStr s)
    consider (wild) "s = u ''[]''" | (leaf) "s \<noteq> u ''[]''" "rest = []" | (inner) "s \<noteq> u ''[]''" "rest \<noteq> []"
      by blast
    then show ?thesis
    proof cases
      case wild
      show ?thesis
      proof (cases node)
        case (JList xs)
        obtain ys r1 db1 where e: "each_item (apply_at f rest) xs db = ((ys, r1), db1)" by (metis prod.exhaust)
        have "P db1 \<and> list_all2 (\<lambda>x y. reduced M st x y \<and> json_ok y) xs ys \<and>
          (\<forall>n. r1 = Inr n \<longrightarrow> (\<forall>y \<in> set ys. \<forall>w \<in> set (collect_at rest y). \<exists>v. M v w))"
        proof (rule each_item_spec [where P = P and f = "apply_at f rest", OF _ _ Cons.prems(2) e])
          show "P db' \<and> (reduced M st y y' \<and> json_ok y') \<and> (\<forall>n. r = Inr n \<longrightarrow> (\<forall>w \<in> set (collect_at rest y'). \<exists>v. M v w))"
            if "y \<in> set xs" "P db" "apply_at f rest y db = ((y', r), db')" for y db y' r db'
            using Cons.IH [of y db y' r db'] that Cons.prems(1) JList by simp
        qed (use Cons.prems(1) JList in \<open>auto intro: reduced.keep\<close>)
        with list_all2_reduced e wild SStr JList Cons.prems(3) show ?thesis by fastforce
      qed (use SStr wild Cons.prems in \<open>auto intro: reduced.keep\<close>)
    next
      case l: leaf
      show ?thesis
      proof (cases node)
        case (JDict d)
        show ?thesis
        proof (cases "dget d s")
          case (Some v)
          have "reduced M st node (JDict (dset s w d)) \<and> json_ok (JDict (dset s w d))" if "M v w" for w
            using that Some JDict M Cons.prems(1) by (auto intro: reduced_dset reduced.cover json_ok_dset simp del: json_ok.simps)
          from leaf [OF _ this] Cons.prems(3) l SStr JDict Some show ?thesis by (fastforce simp: dict_simps)
        qed (use SStr l JDict Cons.prems in \<open>auto intro: reduced.keep\<close>)
      qed (use SStr l Cons.prems in \<open>auto intro: reduced.keep\<close>)
    next
      case inner
      show ?thesis
      proof (cases node)
        case (JDict d)
        show ?thesis
        proof (cases "dget d s")
          case (Some child)
          with JDict Cons.prems(1) have ok: "json_ok child" and dd: "distinct (map fst d)" by (auto intro: json_wf)
          obtain c' r1 db1 where c: "apply_at f rest child db = ((c', r1), db1)" by (metis prod.exhaust)
          from Cons.IH [OF ok Cons.prems(2) c] have IH: "P db1" "reduced M st child c'" "json_ok c'"
            "\<forall>n. r1 = Inr n \<longrightarrow> (\<forall>w \<in> set (collect_at rest c'). \<exists>v. M v w)" by auto
          have out: "node' = JDict (dset s c' d)" "r = r1" "db' = db1"
            using Cons.prems(3) c SStr JDict apply_at_member [OF inner Some dd, of f db] by simp_all
          with IH JDict Some Cons.prems(1) inner SStr show ?thesis
            by (auto simp: collect_at_member dict_simps simp del: json_ok.simps collect_at.simps intro: reduced_dset json_ok_dset)
        qed (use SStr inner JDict Cons.prems in \<open>auto intro: reduced.keep\<close>)
      qed (use SStr inner Cons.prems in \<open>auto intro: reduced.keep\<close>)
    qed
  qed
qed (auto intro: reduced.keep)

lemma drop_at_reduces:
  "json_ok node \<Longrightarrow> st \<longrightarrow> \<not> index_last segs \<Longrightarrow>
   reduced M st node (fst (drop_at segs node)) \<and> json_ok (fst (drop_at segs node))"
proof (induction segs arbitrary: node)
  case (Cons x rest)
  have IH: "reduced M st v (fst (drop_at rest v)) \<and> json_ok (fst (drop_at rest v))" if "json_ok v" for v
    using Cons.IH [OF that] Cons.prems(2) that by (cases "rest = []") (auto simp: index_last_def intro: reduced.keep)
  show ?case
  proof (cases x)
    case (SInt i)
    show ?thesis
    proof (cases node)
      case (JList xs)
      show ?thesis
      proof (cases "py_index i xs")
        case (Some k)
        then have k: "k < length xs" by (rule py_index_bound)
        show ?thesis
        proof (cases "rest = []")
          case True
          with Cons.prems SInt have "\<not> st" by (auto simp: index_last_def)
          with True Some SInt JList Cons.prems(1) show ?thesis
            by (auto intro!: reduced.fewer dest: in_set_takeD in_set_dropD)
               (meson in_set_takeD in_set_dropD reduced.keep)+
        next
          case False
          from k Cons.prems(1) JList have "json_ok (xs ! k)" by simp
          from IH [OF this] Some SInt JList False k Cons.prems(1) show ?thesis
            by (auto split: prod.splits simp del: json_ok.simps intro: reduced_update json_ok_update)
        qed
      qed (use SInt JList Cons.prems in \<open>simp add: reduced.keep\<close>)
    qed (use SInt Cons.prems in \<open>simp_all add: reduced.keep\<close>)
  next
    case (SStr s)
    consider (wild) "s = u ''[]''" | (leaf) "s \<noteq> u ''[]''" "rest = []" | (inner) "s \<noteq> u ''[]''" "rest \<noteq> []"
      by blast
    then show ?thesis
    proof cases
      case wild
      then show ?thesis using SStr Cons.prems IH
        by (cases node) (auto intro!: reduced.items intro: reduced.keep)
    next
      case leaf
      then show ?thesis using SStr Cons.prems
        by (cases node) (auto simp: dict_simps distinct_delete dest!: ddel_mem intro!: reduced.members
            intro: reduced.keep split: option.splits if_splits)
    next
      case inner
      show ?thesis
      proof (cases node)
        case (JDict d)
        show ?thesis
        proof (cases "dget d s")
          case (Some child)
          with JDict Cons.prems have ok: "json_ok child" and dd: "distinct (map fst d)"
            by (auto intro: json_wf)
          have "json_ok (JDict (dset s (fst (drop_at rest child)) d))"
            using json_ok_dset [of d] Cons.prems JDict IH [OF ok] by blast
          moreover have "reduced M st (JDict d) (JDict (dset s (fst (drop_at rest child)) d))"
            using Some IH [OF ok] by (intro reduced_dset) auto
          ultimately show ?thesis using SStr inner JDict drop_at_member [OF inner Some dd]
            by (simp del: drop_at.simps split: prod.splits)
        qed (use SStr JDict inner Cons.prems in \<open>simp add: reduced.keep\<close>)
      qed (use SStr inner Cons.prems in \<open>simp_all add: reduced.keep\<close>)
    qed
  qed
qed (simp add: reduced.keep)


section \<open>What a batch guarantees\<close>

text \<open>The database a batch may write tokens to keeps its constraints, and the prefetched tokens come from it.\<close>

definition vault_ok :: "prot_env \<Rightarrow> vault option \<Rightarrow> bool" where
  "vault_ok env db \<longleftrightarrow> sessions_ok (pe_vault env) None \<and> (\<forall>v. db = Some v \<longrightarrow> vault_inv v)"

definition tokens_ok :: "token_map option \<Rightarrow> bool" where
  "tokens_ok tm \<longleftrightarrow> (\<forall>m. tm = Some m \<longrightarrow> (\<forall>x \<in> snd ` set m. \<exists>n. x = format_token n))"

lemma dget_snd: "dget m k = Some x \<Longrightarrow> x \<in> snd ` set m"
  by (force dest: map_of_SomeD)

lemma full_mask_null [simp]: "full_mask_value JNull = JNull"
  by (simp add: full_mask_value_def)

lemma mode_result:
  assumes "tokens_ok tm" "hmac_key_for_stream env (pr_stream r) = Inr key" "vault_ok env db"
    and "apply_protection_mode env (pr_mode r) (pr_stream r) key (pr_path r) tm v db = (w, db')"
  shows "vault_ok env db' \<and> (\<forall>x. w = Inr x \<longrightarrow> mode_out env r v x)"
proof (cases "pr_mode r = MODE_TOKENIZATION \<and> (\<exists>s. v = JStr s \<and> strip s \<noteq> [])")
  case True
  then obtain s where v: "v = JStr s" "strip s \<noteq> []" and m: "pr_mode r = MODE_TOKENIZATION" by blast
  let ?c = "case tm of None \<Rightarrow> None | Some t \<Rightarrow> dget t (strip (pr_path r), strip (strip s))"
  have "\<exists>n. x = JStr (format_token n)" if "w = Inr x" "?c \<noteq> None" for x
    using that assms(1,4) m v
    by (cases tm) (auto simp: apply_protection_mode_def tokenize_value_def tokens_ok_def Let_def split: option.splits dest!: dget_snd)
  moreover have "vault_ok env db' \<and> (\<forall>x. w = Inr x \<longrightarrow> (\<exists>n. x = JStr (format_token n)))" if c: "?c = None"
  proof (cases db)
    case None
    with c assms(3,4) m v show ?thesis by (auto simp: apply_protection_mode_def tokenize_value_def Let_def)
  next
    case (Some d)
    obtain t d' where g: "get_or_create_token (pe_vault env) (pr_stream r) (pr_path r) (strip s) d = (t, d')"
      by (metis prod.exhaust)
    from assms(3) Some have "sessions_ok (pe_vault env) None" "vault_inv d" by (auto simp: vault_ok_def)
    from get_or_create_token_inv [OF this g] have "vault_inv d'" "\<forall>x. t = Inr x \<longrightarrow> (\<exists>n. x = format_token n)"
      using stored_token by blast+
    with c g Some assms(3,4) m v show ?thesis
      by (auto simp: apply_protection_mode_def tokenize_value_def vault_ok_def Let_def split: sum.splits)
  qed
  moreover have "vault_ok env db'" if "?c \<noteq> None"
    using that assms(3,4) m v by (auto simp: apply_protection_mode_def tokenize_value_def Let_def split: option.splits)
  ultimately show ?thesis using m v by (auto simp: mode_out_def)
next
  case False
  with assms(2-4) show ?thesis
    by (cases v) (auto simp: apply_protection_mode_def mode_out_def tokenize_value_def Let_def split: if_splits)
qed

text \<open>Two rules overlap when their paths may select the same value or one inside the other.\<close>

definition overlaps :: "prot_rule \<Rightarrow> prot_rule \<Rightarrow> bool" where
  "overlaps q r \<longleftrightarrow> (case (parse_protection_path (pr_path q), parse_protection_path (pr_path r)) of
     (Inr p, Inr s) \<Rightarrow> \<not> diverge p s | _ \<Rightarrow> False)"

text \<open>A rule that removes an item of an array, so that the items behind it move up.\<close>

definition index_drop :: "prot_rule \<Rightarrow> bool" where
  "index_drop q \<longleftrightarrow> pr_mode q = MODE_DROP_FIELD \<and>
     (case parse_protection_path (pr_path q) of Inr p \<Rightarrow> index_last p | Inl _ \<Rightarrow> False)"

text \<open>
  A rule whose path means the same before and after the other rules: it does not remove items itself, and
  when its path has an index, no overlapping rule does.
\<close>

definition steady :: "prot_rule set \<Rightarrow> prot_rule \<Rightarrow> bool" where
  "steady R r \<longleftrightarrow> \<not> index_drop r \<and>
     ((\<forall>s. parse_protection_path (pr_path r) = Inr s \<longrightarrow> names_only s) \<or> (\<forall>q \<in> R. overlaps q r \<longrightarrow> \<not> index_drop q))"

text \<open>
  A value that the mode of \<open>r\<close> has produced, and that modes of rules of \<open>Q\<close> may have rewritten since.  Dropping
  produces no value.
\<close>

inductive shielded :: "prot_env \<Rightarrow> prot_rule set \<Rightarrow> prot_rule \<Rightarrow> json \<Rightarrow> bool" for env Q r where
  own: "mode_out env r v w \<Longrightarrow> shielded env Q r w"
| later: "shielded env Q r v \<Longrightarrow> q \<in> Q \<Longrightarrow> mode_out env q v w \<Longrightarrow> shielded env Q r w"

definition rule_done :: "prot_env \<Rightarrow> prot_rule set \<Rightarrow> prot_rule \<Rightarrow> json \<Rightarrow> bool" where
  "rule_done env R r ev \<longleftrightarrow> (\<forall>segs. parse_protection_path (pr_path r) = Inr segs \<longrightarrow>
     (\<forall>w \<in> set (collect_at segs ev). shielded env {q \<in> R. overlaps q r} r w))"

lemma shielded_flat: "shielded env Q r w \<Longrightarrow> flat w"
  by (induction rule: shielded.induct) (auto dest: mode_out_flat)

lemma shielded_drop: "pr_mode r = MODE_DROP_FIELD \<Longrightarrow> \<not> shielded env Q r w"
proof
  show "shielded env Q r w \<Longrightarrow> pr_mode r = MODE_DROP_FIELD \<Longrightarrow> False"
    by (induction rule: shielded.induct) (auto dest: mode_out_drop)
qed

text \<open>In particular a dropped path selects nothing, and full masks stay masks among rules that mask and drop.\<close>

lemma done_dropped:
  "rule_done env R r ev \<Longrightarrow> pr_mode r = MODE_DROP_FIELD \<Longrightarrow> parse_protection_path (pr_path r) = Inr segs \<Longrightarrow>
   collect_at segs ev = []"
  using shielded_drop [of r env "{q \<in> R. overlaps q r}"] by (cases "collect_at segs ev") (auto simp: rule_done_def)

lemma shielded_masked:
  assumes "shielded env Q r w" "pr_mode r = MODE_FULL_MASK" "\<forall>q \<in> Q. pr_mode q \<in> {MODE_FULL_MASK, MODE_DROP_FIELD}"
  shows "masked w"
  using assms(1) by (induction rule: shielded.induct) (use assms(2,3) in \<open>auto simp: mode_out_def\<close>)

lemma apply_rule_step:
  assumes "json_ok ev" "vault_ok env db" "tokens_ok tm"
    and "apply_rule_to_event env ev r tm db = ((ev', Inr (n, None)), db')"
  shows "vault_ok env db' \<and> json_ok ev' \<and> reduced (mode_out env r) (\<not> index_drop r) ev ev' \<and>
    (\<not> index_drop r \<longrightarrow> (\<forall>segs. parse_protection_path (pr_path r) = Inr segs \<longrightarrow>
       (\<forall>w \<in> set (collect_at segs ev'). \<exists>v. mode_out env r v w)))"
proof -
  from assms(4) obtain segs key where p: "parse_protection_path (pr_path r) = Inr segs" "segs \<noteq> []"
    "hmac_key_for_stream env (pr_stream r) = Inr key"
    by (auto simp: apply_rule_to_event_def split: sum.splits if_splits)
  show ?thesis
  proof (cases "pr_mode r = MODE_DROP_FIELD")
    case True
    with assms(4) p have e: "ev' = fst (drop_at segs ev)" "db' = db"
      by (auto simp: apply_rule_to_event_def split: sum.splits if_splits prod.splits)
    have "index_drop r \<longleftrightarrow> index_last segs" using True p by (simp add: index_drop_def)
    with e drop_at_reduces [OF assms(1), of "\<not> index_drop r" segs] drop_at_removes [OF assms(1) p(2)] p(1) assms(2)
    show ?thesis by simp
  next
    case False
    let ?f = "apply_protection_mode env (pr_mode r) (pr_stream r) key (pr_path r) tm"
    from False assms(4) p have a: "apply_at ?f segs ev db = ((ev', Inr n), db')"
      by (auto simp: apply_rule_to_event_def split: sum.splits if_splits prod.splits)
    have f: "vault_ok env db1 \<Longrightarrow> ?f v db1 = (w, db2) \<Longrightarrow> vault_ok env db2 \<and> (\<forall>x. w = Inr x \<longrightarrow> mode_out env r v x)" for v db1 w db2
      using mode_result [OF assms(3) p(3)] by blast
    have M: "json_ok x \<and> flat x" if "mode_out env r v x" for v x
      using mode_out_flat [OF that] mode_out_ok [OF that] by simp
    from apply_at_reduces [where P = "vault_ok env" and M = "mode_out env r" and st = True, OF f M assms(1,2) a] p(1) False
    show ?thesis by (simp add: index_drop_def)
  qed
qed

lemma rule_done_step:
  assumes "json_ok ev" "vault_ok env db" "tokens_ok tm"
    and q: "apply_rule_to_event env ev q tm db = ((ev', Inr (n, None)), db')" "q \<in> R"
    and r: "steady R r" "rule_done env R r ev"
  shows "rule_done env R r ev'"
  unfolding rule_done_def
proof (intro allI impI ballI)
  fix segs w assume s: "parse_protection_path (pr_path r) = Inr segs" and w: "w \<in> set (collect_at segs ev')"
  from q(1) obtain p where p: "parse_protection_path (pr_path q) = Inr p"
    by (auto simp: apply_rule_to_event_def split: sum.splits if_splits)
  show "shielded env {q \<in> R. overlaps q r} r w"
  proof (cases "diverge p segs")
    case True
    from rule_frame [OF p True, of env ev tm db] q(1) w r(2) s show ?thesis by (simp add: rule_done_def)
  next
    case False
    then have o: "overlaps q r" using p s by (simp add: overlaps_def)
    have "reduced (mode_out env q) (\<not> index_drop q) ev ev'" using apply_rule_step [OF assms(1-3) q(1)] by simp
    moreover have "\<not> index_drop q \<or> names_only segs" using r(1) o q(2) s by (auto simp: steady_def)
    ultimately obtain v where v: "v \<in> set (collect_at segs ev)" "reduced (mode_out env q) (\<not> index_drop q) v w"
      using collect_reduced [where M = "mode_out env q" and strict = "\<not> index_drop q" and a = ev and b = ev' and segs = segs and w = w]
        mode_out_flat [of env q] w by blast
    from r(2) s v(1) have sh: "shielded env {q \<in> R. overlaps q r} r v" by (simp add: rule_done_def)
    from reduced_flat [OF v(2) shielded_flat [OF sh]] sh o q(2) show ?thesis by (auto intro: shielded.later)
  qed
qed

lemma apply_rules_done:
  "json_ok ev \<Longrightarrow> vault_ok env db \<Longrightarrow> tokens_ok tm \<Longrightarrow> set rs \<subseteq> R \<Longrightarrow>
   apply_rules env rs tm ev db = ((ev', Inr (n, [])), db') \<Longrightarrow>
   vault_ok env db' \<and> (\<forall>r \<in> set rs. steady R r \<longrightarrow> rule_done env R r ev') \<and>
   (\<forall>r. steady R r \<longrightarrow> rule_done env R r ev \<longrightarrow> rule_done env R r ev')"
proof (induction rs arbitrary: ev n db)
  case (Cons q rs)
  from Cons.prems(5) obtain ev1 n1 db1 m where
    s: "apply_rule_to_event env ev q tm db = ((ev1, Inr (n1, None)), db1)" and
    rest: "apply_rules env rs tm ev1 db1 = ((ev', Inr (m, [])), db')"
    by (auto split: prod.splits sum.splits option.splits)
  note a = apply_rule_step [OF Cons.prems(1-3) s]
  have q: "rule_done env R q ev1" if "steady R q"
    using a that by (auto simp: rule_done_def steady_def dest!: bspec intro: shielded.own)
  have step: "rule_done env R r ev1" if "steady R r" "rule_done env R r ev" for r
    using rule_done_step [OF Cons.prems(1-3) s _ that] Cons.prems(4) by simp
  from a Cons.IH [OF _ _ Cons.prems(3) _ rest] Cons.prems(4)
  have "vault_ok env db' \<and> (\<forall>r \<in> set rs. steady R r \<longrightarrow> rule_done env R r ev') \<and>
    (\<forall>r. steady R r \<longrightarrow> rule_done env R r ev1 \<longrightarrow> rule_done env R r ev')" by simp
  with q step show ?case by auto
qed auto

lemma protect_events_done:
  "\<forall>e \<in> set evs. json_ok e \<Longrightarrow> vault_ok env db \<Longrightarrow> tokens_ok tm \<Longrightarrow>
   protect_events env rs tm evs db = (Inr (out, n, []), db') \<Longrightarrow>
   vault_ok env db' \<and> length out = length evs \<and>
   (\<forall>e \<in> set out. is_dict e \<longrightarrow> (\<forall>r \<in> set rs. steady (set rs) r \<longrightarrow> rule_done env (set rs) r e))"
proof (induction evs arbitrary: out n db)
  case (Cons raw evs)
  show ?case
  proof (cases "is_dict raw")
    case False
    with Cons show ?thesis by (fastforce split: prod.splits sum.splits)
  next
    case True
    with Cons.prems(4) obtain ev n1 db1 out1 n2 where
      s: "apply_rules env rs tm raw db = ((ev, Inr (n1, [])), db1)" and
      t: "protect_events env rs tm evs db1 = (Inr (out1, n2, []), db')" and o: "out = ev # out1"
      by (auto split: prod.splits sum.splits)
    from apply_rules_done [OF _ Cons.prems(2,3) subset_refl s] Cons.prems(1)
    have "vault_ok env db1" "\<forall>r \<in> set rs. steady (set rs) r \<longrightarrow> rule_done env (set rs) r ev" by auto
    with Cons.IH [OF _ _ Cons.prems(3) t] Cons.prems(1) o show ?thesis by simp
  qed
qed simp

lemma prefetch_ok:
  assumes "vault_ok env db" "prefetch_tokens env events rs sid db = (Inr (tm, st), db')"
  shows "vault_ok env db' \<and> tokens_ok tm"
proof (cases db)
  case (Some v)
  let ?tok = "filter (\<lambda>r. pr_mode r = MODE_TOKENIZATION) rs"
  from assms(1) Some have v: "sessions_ok (pe_vault env) None" "vault_inv v" by (auto simp: vault_ok_def)
  show ?thesis
  proof (cases "?tok = [] \<or> collect_tokenization_targets events ?tok = Inr []")
    case True
    with assms Some show ?thesis by (auto simp: prefetch_tokens_def tokens_ok_def Let_def split: if_splits)
  next
    case False
    with assms(2) Some obtain items v1 where
      g: "get_or_create_tokens_batch (pe_vault env) sid items v = (Inr (the tm, st), v1)" "tm \<noteq> None" "db' = Some v1"
      by (auto simp: prefetch_tokens_def Let_def split: sum.splits prod.splits if_splits)
    from tokens_batch_inv [OF v g(1)] g v(1) show ?thesis by (auto simp: vault_ok_def tokens_ok_def)
  qed
qed (use assms in \<open>auto simp: prefetch_tokens_def tokens_ok_def Let_def\<close>)

lemma protect_batch_done:
  assumes "pe_enabled env" "\<forall>e \<in> set events. json_ok e" "vault_ok env db"
    and "protect_batch env events rules stream_id ephemeral db = (Inr res, db')"
    and "pb_warnings res = []"
  shows "vault_ok env db' \<and> length (pb_events res) = length events \<and>
    (\<forall>e \<in> set (pb_events res). is_dict e \<longrightarrow>
       (\<forall>r \<in> set (effective_rules rules ephemeral). steady (set (effective_rules rules ephemeral)) r \<longrightarrow>
          rule_done env (set (effective_rules rules ephemeral)) r e))"
proof (cases "events = [] \<or> effective_rules rules ephemeral = []")
  case True
  with assms show ?thesis by (auto simp: protect_batch_def plain_result_def Let_def split: if_splits)
next
  case False
  with assms obtain tm st n db1 where
    p: "prefetch_tokens env events (effective_rules rules ephemeral) stream_id db = (Inr (tm, st), db1)" and
    "protect_events env (effective_rules rules ephemeral) tm events db1 = (Inr (pb_events res, n, []), db')"
    by (auto simp: protect_batch_def Let_def split: prod.splits sum.splits)
  from protect_events_done [OF assms(2) _ _ this(2)] prefetch_ok [OF assms(3) p] show ?thesis by blast
qed

section \<open>Refused paths\<close>

text \<open>Why a rule is refused whatever the event is.\<close>

definition refused :: "prot_rule \<Rightarrow> ustr option" where
  "refused r = (case parse_protection_path (pr_path r) of
     Inl e \<Rightarrow> Some (exc_str e) | Inr segs \<Rightarrow> if segs = [] then Some (u ''empty field_path segments'') else None)"

lemma refused_warns:
  "refused r = Some msg \<Longrightarrow> apply_rule_to_event env ev r tm db = ((ev, Inr (0, Some (rule_warning r msg))), db)"
  by (auto simp: refused_def apply_rule_to_event_def split: sum.splits if_splits)

lemma apply_rules_warns:
  "r \<in> set rs \<Longrightarrow> refused r = Some msg \<Longrightarrow> apply_rules env rs tm ev db = ((ev', Inr (n, ws)), db') \<Longrightarrow>
   rule_warning r msg \<in> set ws"
proof (induction rs arbitrary: ev n ws db)
  case (Cons q rs)
  from Cons.prems(3) obtain ev1 n1 w db1 m ws1 where
    s: "apply_rule_to_event env ev q tm db = ((ev1, Inr (n1, w)), db1)" and
    rest: "apply_rules env rs tm ev1 db1 = ((ev', Inr (m, ws1)), db')" and
    ws: "ws = (case w of None \<Rightarrow> [] | Some x \<Rightarrow> [x]) @ ws1"
    by (auto split: prod.splits sum.splits)
  show ?case
  proof (cases "q = r")
    case True
    with s refused_warns [OF Cons.prems(2)] ws show ?thesis by auto
  next
    case False
    with Cons.IH [OF _ Cons.prems(2) rest] Cons.prems(1) ws show ?thesis by simp
  qed
qed simp

lemma count_pos: "x \<in> set xs \<Longrightarrow> Suc 0 \<le> length (filter ((=) x) xs)"
  by (induction xs) auto

lemma protect_events_warns:
  "r \<in> set rs \<Longrightarrow> refused r = Some msg \<Longrightarrow> protect_events env rs tm evs db = (Inr (out, n, ws), db') \<Longrightarrow>
   length (filter is_dict evs) \<le> length (filter ((=) (rule_warning r msg)) ws)"
proof (induction evs arbitrary: out n ws db)
  case (Cons raw evs)
  show ?case
  proof (cases "is_dict raw")
    case False
    with Cons show ?thesis by (fastforce split: prod.splits sum.splits)
  next
    case True
    with Cons.prems(3) obtain ev n1 ws1 db1 out1 n2 ws2 where
      s: "apply_rules env rs tm raw db = ((ev, Inr (n1, ws1)), db1)" and
      t: "protect_events env rs tm evs db1 = (Inr (out1, n2, ws2), db')" and o: "ws = ws1 @ ws2"
      by (auto split: prod.splits sum.splits)
    from Cons.IH [OF Cons.prems(1,2) t] count_pos [OF apply_rules_warns [OF Cons.prems(1,2) s]] True o show ?thesis by simp
  qed
qed simp

section \<open>No exception escapes\<close>

lemma utf8_ascii: "\<forall>c \<in> set s. c < 128 \<Longrightarrow> utf8_encode s = Inr s"
  unfolding utf8_encode_def
proof (induction s)
  case (Cons c s)
  then show ?case by (auto simp: utf8_char_def rbind_Inr_iff)
qed simp

lemma nat_str_ascii: "c \<in> set (nat_str n) \<Longrightarrow> c < 128"
  by (induction n arbitrary: c rule: nat_str.induct) (subst (asm) (2) nat_str.simps, auto split: if_splits)

lemma int_str_ascii: "c \<in> set (int_str i @ u '':'') \<Longrightarrow> c < 128"
  by (auto simp: int_str_def u_def dest: nat_str_ascii split: if_splits)

lemma hmac_key_ok:
  "utf8_encode (ve_protection_salt (pe_vault env)) = Inr s \<Longrightarrow> \<exists>k. hmac_key_for_stream env sid = Inr k"
  using utf8_ascii [of "int_str sid @ u '':''"] int_str_ascii by (auto simp: hmac_key_for_stream_def)

lemma legacy_ok:
  "parse_protection_path p = Inr segs \<Longrightarrow> segs \<noteq> [] \<Longrightarrow>
   \<exists>b. legacy_path_has_literal_dotted_member ev p segs = Inr b"
  using parsed_path_flags [of p segs] by (auto simp: legacy_path_has_literal_dotted_member_def)

lemma apply_rule_total:
  assumes "utf8_encode (ve_protection_salt (pe_vault env)) = Inr s"
  shows "\<exists>ev' n w db'. apply_rule_to_event env ev r tm db = ((ev', Inr (n, w)), db')"
proof (cases "parse_protection_path (pr_path r)")
  case (Inr segs)
  show ?thesis
  proof (cases "segs = []")
    case False
    obtain b k where "legacy_path_has_literal_dotted_member ev (pr_path r) segs = Inr b"
      "hmac_key_for_stream env (pr_stream r) = Inr k"
      using legacy_ok [OF Inr False] hmac_key_ok [OF assms] by blast
    with Inr False show ?thesis
      by (auto simp: apply_rule_to_event_def split: prod.splits sum.splits)
  qed (simp add: apply_rule_to_event_def Inr)
qed (simp add: apply_rule_to_event_def)

lemma apply_rules_total:
  assumes "utf8_encode (ve_protection_salt (pe_vault env)) = Inr s"
  shows "\<exists>ev' n ws db'. apply_rules env rs tm ev db = ((ev', Inr (n, ws)), db')"
proof (induction rs arbitrary: ev db)
  case (Cons r rs)
  obtain ev1 n w db1 where a: "apply_rule_to_event env ev r tm db = ((ev1, Inr (n, w)), db1)"
    using apply_rule_total [OF assms] by blast
  with Cons.IH [of ev1 db1] show ?case by auto
qed simp

lemma protect_events_total:
  assumes "utf8_encode (ve_protection_salt (pe_vault env)) = Inr s"
  shows "\<exists>out n ws db'. protect_events env rs tm evs db = (Inr (out, n, ws), db') \<and> length out = length evs"
proof (induction evs arbitrary: db)
  case (Cons ev evs)
  obtain ev1 n ws db1 where a: "apply_rules env rs tm ev db = ((ev1, Inr (n, ws)), db1)"
    using apply_rules_total [OF assms] by blast
  show ?case
  proof (cases "is_dict ev")
    case True
    with a Cons.IH [of db1] show ?thesis by auto
  next
    case False
    with Cons.IH [of db] show ?thesis by auto
  qed
qed simp

lemma prefetch_none:
  assumes "db = None \<or> (\<forall>r \<in> set enabled. pr_mode r \<noteq> MODE_TOKENIZATION)"
  shows "\<exists>st. prefetch_tokens env evs enabled sid db = (Inr (None, st), db)"
  using assms by (cases db) (auto simp: prefetch_tokens_def Let_def)

section \<open>Correctness of the engine\<close>

text \<open>
  C6. Protection reaches its targets.  Protection is switched on, the vault (when there is a session) keeps its
  constraints and the batch was protected without a warning.  Then no event is lost, and in every object event
  that leaves the engine every value that the path of a rule in effect selects has been produced by the
  mode of that rule (the mask of its type, the partial mask, the keyed hash, a token of the sequence), or by modes
  of overlapping rules from such a value; a dropped path selects nothing.  This holds for each rule by itself,
  whatever the other rules are, with one exception (\<open>steady\<close>): it is not said of a rule that drops an array
  item by its index, nor of a path with an index that overlaps such a rule, because the items behind it move up.
\<close>

theorem protect_batch_erases:
  assumes "pe_enabled env" "\<forall>e \<in> set events. json_ok e" "vault_ok env db"
    and "protect_batch env events rules stream_id ephemeral db = (Inr res, db')"
    and "pb_warnings res = []"
  shows "length (pb_events res) = length events \<and>
    (\<forall>e \<in> set (pb_events res). is_dict e \<longrightarrow>
       (\<forall>r \<in> set (effective_rules rules ephemeral). steady (set (effective_rules rules ephemeral)) r \<longrightarrow>
          rule_done env (set (effective_rules rules ephemeral)) r e))"
  using protect_batch_done [OF assms] by simp

text \<open>
  C9. Path updates are exact.  With a mode that only computes, the engine's walk produces the
  document in which exactly the values the path selects are rewritten: it equals the reference
  \<open>map_at\<close>, reports as many applications as the path selects values, and selecting again gives the
  rewritten values in the same order.
\<close>

theorem apply_at_refines_map_at:
  assumes "json_ok node"
  shows "apply_at (\<lambda>v db. (Inr (g v), db)) segs node db =
      ((map_at g segs node, Inr (length (collect_at segs node))), db) \<and>
    collect_at segs (map_at g segs node) = map g (collect_at segs node)"
  using apply_at_pure [OF assms] collect_map_at by simp

text \<open>
  C10. A rule touches nothing but its path.  Whatever the mode, and also when the rule is refused or
  a mode raises half way, every path that branches off to a different object member selects the
  same values before and after.
\<close>

theorem apply_rule_frame:
  assumes "parse_protection_path (pr_path rule) = Inr segs" and "diverge segs q"
  shows "collect_at q (fst (fst (apply_rule_to_event env event rule tm db))) = collect_at q event"
  using rule_frame [OF assms] .

text \<open>
  C11. A bad rule never stops a batch, and never goes unnoticed.  When the configured salt can be encoded,
  protecting a batch raises only if there is a database session, a tokenization rule is in effect and
  collecting or fetching the tokens of the batch raises, and then with that exception.  Otherwise it returns
  a result for every event, with all warnings counted; and with protection switched on every rule in effect
  whose path does not parse or is empty has its own warning for every object event of the batch.
\<close>

theorem protect_batch_total:
  assumes "utf8_encode (ve_protection_salt (pe_vault env)) = Inr salt"
  shows "case protect_batch env events rules stream_id ephemeral db of
      (Inl e, db') \<Rightarrow> pe_enabled env \<and> events \<noteq> [] \<and> db \<noteq> None \<and>
        (\<exists>r \<in> set (effective_rules rules ephemeral). pr_mode r = MODE_TOKENIZATION) \<and>
        prefetch_tokens env events (effective_rules rules ephemeral) stream_id db = (Inl e, db')
    | (Inr res, db') \<Rightarrow> length (pb_events res) = length events \<and> pb_warning_count res = length (pb_warnings res) \<and>
        (pe_enabled env \<longrightarrow> (\<forall>r \<in> set (effective_rules rules ephemeral). \<forall>msg. refused r = Some msg \<longrightarrow>
           length (filter is_dict events) \<le> length (filter ((=) (rule_warning r msg)) (pb_warnings res))))"
proof (cases "\<not> pe_enabled env \<or> events = [] \<or> effective_rules rules ephemeral = []")
  case True
  then show ?thesis by (auto simp: protect_batch_def plain_result_def Let_def)
next
  case False
  let ?rs = "effective_rules rules ephemeral"
  obtain p db1 where p: "prefetch_tokens env events ?rs stream_id db = (p, db1)" by (metis prod.exhaust)
  show ?thesis
  proof (cases p)
    case (Inl e)
    have "db \<noteq> None \<and> (\<exists>r \<in> set ?rs. pr_mode r = MODE_TOKENIZATION)"
    proof (rule ccontr)
      assume "\<not> ?thesis"
      then have "db = None \<or> (\<forall>r \<in> set ?rs. pr_mode r \<noteq> MODE_TOKENIZATION)" by blast
      from prefetch_none [OF this, of env events stream_id] p Inl show False by auto
    qed
    with p Inl False show ?thesis by (simp add: protect_batch_def Let_def)
  next
    case (Inr x)
    obtain tm st where x: "x = (tm, st)" by fastforce
    obtain out n ws db2 where o: "protect_events env ?rs tm events db1 = (Inr (out, n, ws), db2)" "length out = length events"
      using protect_events_total [OF assms] by blast
    with p Inr x False protect_events_warns [OF _ _ o(1)] show ?thesis by (simp add: protect_batch_def Let_def)
  qed
qed


lemma wildcard_tail_noop:
  "segs \<noteq> [] \<Longrightarrow> last segs = wildcard \<Longrightarrow> json_ok node \<Longrightarrow>
   apply_at f segs node db = ((node, Inr 0), db) \<and> drop_at segs node = (node, 0)"
proof (induction segs arbitrary: node)
  case (Cons x rest)
  have each: "each_item (apply_at f []) xs db = ((xs, Inr 0), db)" for xs
    by (subst each_item_pure [where h = id and n = "\<lambda>_. 0"]) auto
  show ?case
  proof (cases "rest = []")
    case True
    with Cons.prems each show ?thesis
      by (cases node) (auto simp: comp_def)
  next
    case False
    with Cons have IH: "json_ok v \<Longrightarrow> apply_at f rest v db = ((v, Inr 0), db) \<and> drop_at rest v = (v, 0)" for v
      by simp
    show ?thesis
    proof (cases x)
      case (SInt i)
      with False IH Cons.prems show ?thesis
        by (cases node) (auto dest!: py_index_bound split: option.splits)
    next
      case (SStr s)
      consider (wild) "s = u ''[]''" | (inner) "s \<noteq> u ''[]''" by blast
      then show ?thesis
      proof cases
        case wild
        have "each_item (apply_at f rest) xs db = ((xs, Inr 0), db)" if "\<forall>v \<in> set xs. json_ok v" for xs
          using that IH by (induction xs) auto
        moreover have "map (fst \<circ> drop_at rest) xs = xs \<and> sum_list (map (snd \<circ> drop_at rest) xs) = 0"
          if "\<forall>v \<in> set xs. json_ok v" for xs using that IH by (induction xs) auto
        ultimately show ?thesis using SStr wild Cons.prems by (cases node) auto
      next
        case inner
        show ?thesis
        proof (cases node)
          case (JDict d)
          show ?thesis
          proof (cases "dget d s")
            case (Some v)
            with JDict Cons.prems have "json_ok v" "distinct (map fst d)" by (auto intro: json_wf)
            with Some IH JDict SStr inner False show ?thesis
              by (simp add: apply_at_member drop_at_member dset_same del: apply_at.simps drop_at.simps)
          qed (use JDict SStr inner False in simp)
        qed (use SStr inner False in simp_all)
      qed
    qed
  qed
qed simp

text \<open>
  A path that ends in the array wildcard protects nothing.  Rules on such a path (the schema
  walker prints one for every array and for the elements of an array of scalars) leave the event
  as it is and report neither an application nor a warning, for every mode.
\<close>

lemma wildcard_path_ignored:
  assumes "parse_protection_path (pr_path rule) = Inr segs" "segs \<noteq> []" "last segs = wildcard"
    and "json_ok event" and "utf8_encode (ve_protection_salt (pe_vault env)) = Inr salt"
    and "legacy_path_has_literal_dotted_member event (pr_path rule) segs = Inr False"
  shows "apply_rule_to_event env event rule tm db = ((event, Inr (0, None)), db)"
proof -
  have "apply_at f segs event db = ((event, Inr 0), db)" "drop_at segs event = (event, 0)" for f
    using wildcard_tail_noop [OF assms(2-4), of f db] by auto
  moreover obtain k where "hmac_key_for_stream env (pr_stream rule) = Inr k"
    using hmac_key_ok [OF assms(5)] by blast
  ultimately show ?thesis using assms by (simp add: apply_rule_to_event_def)
qed

section \<open>Witnesses\<close>

text \<open>A rule set and an event with an address in an object, and an array of addresses.\<close>

definition demo_prot_env :: prot_env where
  "demo_prot_env = \<lparr>pe_enabled = True, pe_vault = demo_env, pe_hmac = (\<lambda>k m. k @ m)\<rparr>"

definition demo_rule :: "ustr \<Rightarrow> ustr \<Rightarrow> prot_rule" where
  "demo_rule mode path = \<lparr>pr_id = Some 1, pr_stream = 7, pr_path = path, pr_mode = mode,
     pr_class = u ''PII'', pr_enabled = True\<rparr>"

definition demo_event :: json where
  "demo_event = JDict [(u ''a'', JStr (u ''x'')), (u ''b'', JList [JStr (u ''y'')])]"

lemma demo_paths:
  "parse_protection_path (u ''$.a'') = Inr [SStr (u ''a'')]"
  "parse_protection_path (u ''$.b[]'') = Inr [SStr (u ''b''), wildcard]"
  "quoted_selector_flags (u ''$.a'') = Inr [False]"
  "quoted_selector_flags (u ''$.b[]'') = Inr [False, False]"
  by (simp_all add: parse_protection_path_def strip_def u_def is_space_def startswith_def
      next_token_def not_boundary_def quoted_selector_flags_def next_flag_def)

lemma demo_unambiguous:
  "legacy_path_has_literal_dotted_member demo_event (u ''$.a'') [SStr (u ''a'')] = Inr False"
  "legacy_path_has_literal_dotted_member demo_event (u ''$.b[]'') [SStr (u ''b''), wildcard] = Inr False"
  by (simp_all add: legacy_path_has_literal_dotted_member_def demo_paths demo_event_def dotted_names_def)

lemma demo_salt: "utf8_encode (ve_protection_salt (pe_vault demo_prot_env)) = Inr []"
  by (simp add: demo_prot_env_def demo_env_def utf8_encode_def)

lemma demo_run:
  "\<exists>res. protect_batch demo_prot_env [demo_event] [demo_rule MODE_FULL_MASK (u ''$.a'')] 7 [] None =
     (Inr res, None) \<and> pb_warnings res = [] \<and>
     pb_events res = [JDict [(u ''a'', JStr MASK_LITERAL), (u ''b'', JList [JStr (u ''y'')])]]"
proof -
  obtain k where k: "hmac_key_for_stream demo_prot_env 7 = Inr k" using hmac_key_ok [OF demo_salt] by blast
  let ?ev = "JDict [(u ''a'', JStr MASK_LITERAL), (u ''b'', JList [JStr (u ''y'')])]"
  have "apply_rule_to_event demo_prot_env demo_event (demo_rule MODE_FULL_MASK (u ''$.a'')) None None =
      ((?ev, Inr (1, None)), None)"
    using k demo_unambiguous(1)
    by (simp add: apply_rule_to_event_def demo_rule_def demo_paths full_mask_mode)
       (simp add: demo_event_def assign_leaf_def full_mask_value_def)
  moreover have "is_dict demo_event" by (simp add: demo_event_def is_dict_def)
  ultimately show ?thesis
    by (simp add: protect_batch_def effective_rules_def prefetch_tokens_def Let_def)
       (simp add: demo_rule_def demo_prot_env_def)
qed

lemma demo_effective:
  "effective_rules [demo_rule m p] [] = [demo_rule m p]"
  by (simp add: effective_rules_def demo_rule_def)

lemma demo_vault_ok: "vault_ok demo_prot_env None"
  by (simp add: vault_ok_def demo_prot_env_def demo_env_ok)

lemma demo_steady: "steady R (demo_rule MODE_FULL_MASK (u ''$.a''))"
  by (simp add: steady_def index_drop_def) (simp add: demo_rule_def demo_paths)

theorem protect_batch_erases_witness:
  "\<exists>res. protect_batch demo_prot_env [demo_event] [demo_rule MODE_FULL_MASK (u ''$.a'')] 7 [] None =
     (Inr res, None) \<and> length (pb_events res) = 1 \<and>
     (\<forall>e \<in> set (pb_events res). is_dict e \<longrightarrow>
        rule_done demo_prot_env {demo_rule MODE_FULL_MASK (u ''$.a'')} (demo_rule MODE_FULL_MASK (u ''$.a'')) e)"
proof -
  obtain res where r: "protect_batch demo_prot_env [demo_event] [demo_rule MODE_FULL_MASK (u ''$.a'')] 7 [] None =
     (Inr res, None)" "pb_warnings res = []" using demo_run by blast
  have "pe_enabled demo_prot_env" "\<forall>e \<in> set [demo_event]. json_ok e"
    by (simp_all add: demo_prot_env_def demo_event_def)
  from protect_batch_erases [OF this demo_vault_ok r] r(1) show ?thesis by (simp add: demo_effective demo_steady)
qed

theorem apply_at_refines_map_at_witness:
  "apply_at (\<lambda>v db. (Inr (full_mask_value v), db)) [SStr (u ''a'')] demo_event () =
     ((JDict [(u ''a'', JStr MASK_LITERAL), (u ''b'', JList [JStr (u ''y'')])], Inr 1), ())"
  using apply_at_refines_map_at [of demo_event full_mask_value "[SStr (u ''a'')]" "()"]
  by (simp add: demo_event_def full_mask_value_def)

theorem apply_rule_frame_witness:
  "collect_at [SStr (u ''b'')] (fst (fst (apply_rule_to_event demo_prot_env demo_event
     (demo_rule MODE_FULL_MASK (u ''$.a'')) None None))) = [JList [JStr (u ''y'')]]"
proof -
  have "collect_at [SStr (u ''b'')] (fst (fst (apply_rule_to_event demo_prot_env demo_event
     (demo_rule MODE_FULL_MASK (u ''$.a'')) None None))) = collect_at [SStr (u ''b'')] demo_event"
    by (rule apply_rule_frame [where segs = "[SStr (u ''a'')]"]) (simp_all add: demo_rule_def demo_paths)
  then show ?thesis by (simp add: demo_event_def)
qed

theorem protect_batch_total_witness:
  "\<exists>res db' msg. protect_batch demo_prot_env [demo_event] [demo_rule MODE_HASH []] 7 [] None = (Inr res, db') \<and>
     length (pb_events res) = 1 \<and> rule_warning (demo_rule MODE_HASH []) msg \<in> set (pb_warnings res)"
proof -
  have "parse_protection_path [] = Inr [] \<or> (\<exists>e. parse_protection_path [] = Inl e)"
    by (simp add: parse_protection_path_def strip_def startswith_def)
  then obtain msg where m: "refused (demo_rule MODE_HASH []) = Some msg" by (auto simp: refused_def demo_rule_def)
  let ?run = "protect_batch demo_prot_env [demo_event] [demo_rule MODE_HASH []] 7 [] None"
  have e: "pe_enabled demo_prot_env" "is_dict demo_event" by (simp_all add: demo_prot_env_def demo_event_def is_dict_def)
  note t = protect_batch_total [OF demo_salt, where events = "[demo_event]" and rules = "[demo_rule MODE_HASH []]" and stream_id = 7
      and ephemeral = "[]" and db = None]
  obtain r db' where r: "?run = (r, db')" by (metis prod.exhaust)
  with t obtain res where res: "r = Inr res" by (cases r) auto
  with t r e m have "length (pb_events res) = 1" "Suc 0 \<le> length (filter ((=) (rule_warning (demo_rule MODE_HASH []) msg)) (pb_warnings res))"
    by (auto simp: demo_effective)
  moreover from this(2) have "filter ((=) (rule_warning (demo_rule MODE_HASH []) msg)) (pb_warnings res) \<noteq> []" by auto
  ultimately show ?thesis using r res by (auto simp: filter_empty_conv)
qed

lemma wildcard_path_ignored_witness:
  "apply_rule_to_event demo_prot_env demo_event (demo_rule MODE_FULL_MASK (u ''$.b[]'')) None None =
     ((demo_event, Inr (0, None)), None)"
proof -
  have "json_ok demo_event" by (simp add: demo_event_def)
  then show ?thesis
    by (intro wildcard_path_ignored [where segs = "[SStr (u ''b''), wildcard]", OF _ _ _ _ demo_salt])
       (simp_all add: demo_rule_def demo_paths demo_unambiguous)
qed

end
