(* ===== verification/Route_Protection.thy ===== *)
theory Route_Protection
  imports Protection "HOL-Library.List_Lexorder"
begin

text \<open>
  The protection stage of one delivery route: \<^verbatim>\<open>app/route_protection/resolver.py\<close>,
  \<^verbatim>\<open>cache_key.py\<close>, \<^verbatim>\<open>config.py\<close> and \<^verbatim>\<open>stage.py\<close>.  A route resolves its rules from the route's or
  the stream's persisted rules, its overrides and the rules that schema drift added for the batch,
  and reuses the result of another route of the batch when the cache key is the same.  Log
  entries, durations and the cumulative counters that are read for them are not modelled.  A missing
  sensitivity class is the empty text, which is how the cache key reads it.
\<close>

section \<open>Configuration\<close>

datatype psource = SrcRoute | SrcStream | SrcOverride | SrcEmpty

record rule_entry =
  re_rule :: prot_rule
  re_source :: psource
  re_finding :: "int option"

record rp_resolution =
  rs_source :: psource
  rs_overrides :: nat
  rs_ephemeral :: nat
  rs_fallback :: bool

record rp_config =
  rc_rules :: "rule_entry list"
  rc_audit_only :: "ustr list"
  rc_resolution :: rp_resolution
  rc_override_by_path :: "(ustr \<times> rule_entry) list"

section \<open>Resolving the rules of a route\<close>

datatype action = AuditOnly | Mode ustr

definition ACTION_MODES :: "(ustr \<times> ustr) list" where
  "ACTION_MODES =
     [(u ''mask_partial'', MODE_PARTIAL_MASK), (u ''partial_mask'', MODE_PARTIAL_MASK),
      (u ''mask_full'', MODE_FULL_MASK), (u ''full_mask'', MODE_FULL_MASK),
      (u ''mask'', MODE_PARTIAL_MASK),
      (u ''tokenize'', MODE_TOKENIZATION), (u ''tokenization'', MODE_TOKENIZATION),
      (u ''hash'', MODE_HASH),
      (u ''remove'', MODE_DROP_FIELD), (u ''drop_field'', MODE_DROP_FIELD)]"

definition map_protection_action_to_mode :: "json \<Rightarrow> action option" where
  "map_protection_action_to_mode act =
     (if act = JNull then None
      else let normalized = lower (strip (py_str act))
           in if normalized \<in> {u ''audit'', u ''audit_only''} then Some AuditOnly
              else map_option Mode (dget ACTION_MODES normalized))"

definition rule_entry_from_row :: "prot_rule \<times> int option \<Rightarrow> int \<Rightarrow> psource \<Rightarrow> rule_entry" where
  "rule_entry_from_row row stream_id src =
     \<lparr>re_rule = (fst row)\<lparr>pr_stream := stream_id\<rparr>, re_source = src, re_finding = snd row\<rparr>"

fun index_rules :: "rule_entry list \<Rightarrow> (ustr \<times> rule_entry) list \<Rightarrow> (ustr \<times> rule_entry) list" where
  "index_rules [] indexed = indexed"
| "index_rules (r # rs) indexed =
     index_rules rs (if pr_enabled (re_rule r) then dset (pr_path (re_rule r)) r indexed else indexed)"

text \<open>The path and the action of an override that counts: enabled, with a path and a known action.\<close>

definition override_path :: "dict \<Rightarrow> ustr" where
  "override_path ov = strip (str_or_empty (dget_none ov (u ''field_path'')))"

definition override_action :: "dict \<Rightarrow> action option" where
  "override_action ov = map_protection_action_to_mode (dget_none ov (u ''protection_action''))"

definition override_entry :: "int \<Rightarrow> dict \<Rightarrow> ustr \<Rightarrow> rule_entry" where
  "override_entry stream_id ov mode =
     \<lparr>re_rule = \<lparr>pr_id = None, pr_stream = stream_id, pr_path = override_path ov, pr_mode = mode,
        pr_class = (let c = str_or_empty (dget_none ov (u ''sensitivity_class'')) in
                    if truthy (dget_none ov (u ''sensitivity_class'')) then c else u ''pii''),
        pr_enabled = True\<rparr>,
      re_source = SrcOverride, re_finding = None\<rparr>"

fun override_loop ::
  "int \<Rightarrow> dict list \<Rightarrow> (ustr \<times> rule_entry) list \<Rightarrow> ustr list \<Rightarrow> (ustr \<times> rule_entry) list
     \<Rightarrow> (ustr \<times> rule_entry) list \<times> ustr list \<times> (ustr \<times> rule_entry) list" where
  "override_loop sid [] eff audit ovs = (eff, audit, ovs)"
| "override_loop sid (ov # rest) eff audit ovs =
     (if \<not> truthy (dget_default ov (u ''enabled'') (JBool True)) then override_loop sid rest eff audit ovs
      else let field_path = override_path ov
      in if field_path = [] then override_loop sid rest eff audit ovs
         else case override_action ov of
           Some AuditOnly \<Rightarrow> override_loop sid rest (ddel field_path eff) (audit @ [field_path]) ovs
         | None \<Rightarrow> override_loop sid rest eff audit ovs
         | Some (Mode m) \<Rightarrow>
             (let entry = override_entry sid ov m
              in override_loop sid rest (dset field_path entry eff) audit (dset field_path entry ovs)))"

definition apply_route_overrides ::
  "rule_entry list \<Rightarrow> dict list \<Rightarrow> int \<Rightarrow> rule_entry list \<times> ustr list \<times> (ustr \<times> rule_entry) list" where
  "apply_route_overrides base overrides stream_id =
     (case override_loop stream_id overrides (index_rules base []) [] [] of
        (eff, audit, ovs) \<Rightarrow> (map snd eff, audit, ovs))"

definition merge_ephemeral_for_route :: "prot_rule list \<Rightarrow> rp_config \<Rightarrow> prot_rule list" where
  "merge_ephemeral_for_route ephemeral config =
     (let persisted_paths = map (\<lambda>e. pr_path (re_rule e)) (rc_rules config) in
      concat (map (\<lambda>e.
        if pr_path e = [] then []
        else if pr_path e \<in> set (rc_audit_only config) then []
        else case dget (rc_override_by_path config) (pr_path e) of
          Some ov \<Rightarrow> [\<lparr>pr_id = pr_id e, pr_stream = pr_stream e, pr_path = pr_path e,
                       pr_mode = pr_mode (re_rule ov), pr_class = pr_class e, pr_enabled = True\<rparr>]
        | None \<Rightarrow> if pr_path e \<in> set persisted_paths then [] else [e]) ephemeral))"

text \<open>\<open>int(item.get("route_id", -1)) == route_id\<close> over all overrides, stopping at a conversion error.\<close>

fun overrides_of_route :: "int \<Rightarrow> dict list \<Rightarrow> dict list result" where
  "overrides_of_route rid [] = Inr []"
| "overrides_of_route rid (ov # ovs) =
     rbind (py_int (dget_default ov (u ''route_id'') (JInt (- 1)))) (\<lambda>i.
     rbind (overrides_of_route rid ovs) (\<lambda>rest. Inr (if i = rid then ov # rest else rest)))"

definition resolve_route_protection_config ::
  "int \<Rightarrow> int \<Rightarrow> (prot_rule \<times> int option) list \<Rightarrow> (prot_rule \<times> int option) list
     \<Rightarrow> dict list \<Rightarrow> prot_rule list \<Rightarrow> rp_config result" where
  "resolve_route_protection_config route_id stream_id route_rules stream_rules overrides ephemeral =
     (let rr = filter (\<lambda>r. pr_enabled (fst r)) route_rules;
          sr = filter (\<lambda>r. pr_enabled (fst r)) stream_rules;
          (base, src) =
            (if rr \<noteq> [] then (map (\<lambda>r. rule_entry_from_row r stream_id SrcRoute) rr, SrcRoute)
             else if sr \<noteq> [] then (map (\<lambda>r. rule_entry_from_row r stream_id SrcStream) sr, SrcStream)
             else ([], SrcEmpty))
      in rbind (overrides_of_route route_id overrides) (\<lambda>ovs.
           let (rules, audit, by_path) = apply_route_overrides base ovs stream_id
           in Inr \<lparr>rc_rules = rules, rc_audit_only = audit,
                   rc_resolution = \<lparr>rs_source = src, rs_overrides = length ovs,
                     rs_ephemeral = length ephemeral, rs_fallback = (src = SrcStream)\<rparr>,
                   rc_override_by_path = by_path\<rparr>))"

section \<open>The stage\<close>

text \<open>
  The cache key is the canonical JSON of the transform key and the two rule lists sorted by path;
  here it is that payload itself, with the keys of each entry in the order they are serialised.
\<close>

type_synonym key_entry = "bool \<times> ustr \<times> ustr \<times> ustr \<times> int"
type_synonym cache_key = "key_entry list \<times> key_entry list \<times> ustr"

definition key_rule :: "prot_rule \<Rightarrow> key_entry" where
  "key_rule r = (pr_enabled r, pr_path r, pr_mode r, pr_class r, pr_stream r)"

definition sort_by_path :: "prot_rule list \<Rightarrow> prot_rule list" where
  "sort_by_path rs = sort_key pr_path rs"

definition protection_execution_cache_key :: "ustr \<Rightarrow> rp_config \<Rightarrow> prot_rule list \<Rightarrow> cache_key" where
  "protection_execution_cache_key transform_key config merged =
     (map key_rule (sort_by_path merged),
      map key_rule (sort_by_path (map re_rule (rc_rules config))), transform_key)"

datatype stage_exc =
    ProtectionApplicationError ustr "int option"
  | PreviewSideEffectRequiredError
  | QuarantinePersistenceError int
  | MappingError ustr
  | SourceFetchError ustr
  | ParserError ustr
  | EnrichmentError ustr
  | StageFailure pyexc

record shared_batch =
  sb_ephemeral :: "prot_rule list"
  sb_cache :: "(cache_key \<times> protect_result) list"
  sb_executions :: nat

text \<open>Both copies of a result (into the cache, and out of it to a route) keep the object events only.\<close>

definition copied_result :: "protect_result \<Rightarrow> protect_result" where
  "copied_result res = res\<lparr>pb_events := copy_events (pb_events res)\<rparr>"

definition requires_protection_persistence :: "json list \<Rightarrow> prot_rule list \<Rightarrow> bool result" where
  "requires_protection_persistence events rules =
     rbind (collect_tokenization_targets events
              (filter (\<lambda>r. pr_enabled r \<and> pr_mode r = MODE_TOKENIZATION) rules))
       (\<lambda>items. Inr (items \<noteq> []))"

definition raise_on_warnings :: "protect_result \<Rightarrow> stage_exc option" where
  "raise_on_warnings res = (case pb_warnings res of
     [] \<Rightarrow> None
   | w # _ \<Rightarrow> Some (ProtectionApplicationError (w_field_path w) (w_rule_id w)))"

text \<open>What an unexpected exception of the engine is reported as: the first tokenization rule.\<close>

definition failing_rule_error :: "prot_rule list \<Rightarrow> stage_exc" where
  "failing_rule_error rules =
     (case find (\<lambda>r. pr_enabled r \<and> pr_mode r = MODE_TOKENIZATION) rules of
        Some r \<Rightarrow> ProtectionApplicationError (pr_path r) (warn_rule_id r)
      | None \<Rightarrow> ProtectionApplicationError (u ''configured protection'') None)"

text \<open>
  One execution of the engine in \<open>stage_persistence_session\<close>.  \<open>own\<close> says the caller passed a
  session; without one a session is opened when tokens may be written, and rolled back when the
  block raises.  \<open>store\<close> is the vault in the database.
\<close>

definition execute_protection ::
  "prot_env \<Rightarrow> bool \<Rightarrow> bool \<Rightarrow> json list \<Rightarrow> rp_config \<Rightarrow> prot_rule list \<Rightarrow> int \<Rightarrow> vault
     \<Rightarrow> (stage_exc + protect_result) \<times> vault" where
  "execute_protection env own required events config merged stream_id store =
     (let all_rules = map re_rule (rc_rules config) @ merged;
          (r, db1) = protect_batch env events (map re_rule (rc_rules config)) stream_id merged
                       (if own \<or> required then Some store else None);
          kept = (case db1 of Some v \<Rightarrow> v | None \<Rightarrow> store);
          after_raise = (if own then kept else store)
      in case r of
           Inl e \<Rightarrow> (Inl (failing_rule_error all_rules), after_raise)
         | Inr res \<Rightarrow>
             (case raise_on_warnings res of
                Some e \<Rightarrow> (Inl e, after_raise)
              | None \<Rightarrow> (Inr res, kept)))"

definition route_protection_stage ::
  "prot_env \<Rightarrow> bool \<Rightarrow> bool \<Rightarrow> int \<Rightarrow> int \<Rightarrow> ustr option \<Rightarrow> json list
     \<Rightarrow> (prot_rule \<times> int option) list \<Rightarrow> (prot_rule \<times> int option) list \<Rightarrow> dict list
     \<Rightarrow> shared_batch \<Rightarrow> vault
     \<Rightarrow> (stage_exc + protect_result \<times> rp_config) \<times> shared_batch \<times> vault" where
  "route_protection_stage env own preview_only route_id stream_id transform input_events
     route_rules stream_rules overrides sb store =
     (case resolve_route_protection_config route_id stream_id route_rules stream_rules overrides
             (sb_ephemeral sb) of
        Inl e \<Rightarrow> (Inl (StageFailure e), sb, store)
      | Inr config \<Rightarrow>
          (let merged = merge_ephemeral_for_route (sb_ephemeral sb) config;
               transform_key = (case transform of Some k \<Rightarrow> k | None \<Rightarrow> u ''__raw__'');
               key = protection_execution_cache_key transform_key config merged
           in case dget (sb_cache sb) key of
                Some cached \<Rightarrow> (Inr (copied_result cached, config), sb, store)
              | None \<Rightarrow>
                  (case requires_protection_persistence input_events
                          (map re_rule (rc_rules config) @ merged) of
                     Inl e \<Rightarrow> (Inl (StageFailure e), sb, store)
                   | Inr required \<Rightarrow>
                       if preview_only \<and> required then (Inl PreviewSideEffectRequiredError, sb, store)
                       else (case execute_protection env own required input_events config merged stream_id store of
                         (Inl e, store1) \<Rightarrow> (Inl e, sb, store1)
                       | (Inr res, store1) \<Rightarrow>
                           (Inr (res, config),
                            sb\<lparr>sb_cache := dset key (copied_result res) (sb_cache sb),
                               sb_executions := Suc (sb_executions sb)\<rparr>, store1)))))"

section \<open>Overrides\<close>

definition relevant :: "ustr \<Rightarrow> dict \<Rightarrow> bool" where
  "relevant path ov \<longleftrightarrow> truthy (dget_default ov (u ''enabled'') (JBool True)) \<and> path \<noteq> [] \<and>
     override_path ov = path \<and> override_action ov \<noteq> None"

text \<open>The specification: the last relevant override decides, else the last enabled base rule.\<close>

definition winning_rule :: "int \<Rightarrow> rule_entry list \<Rightarrow> dict list \<Rightarrow> ustr \<Rightarrow> rule_entry option" where
  "winning_rule sid base overrides path = (case find (relevant path) (rev overrides) of
     Some ov \<Rightarrow> (case override_action ov of Some (Mode m) \<Rightarrow> Some (override_entry sid ov m) | _ \<Rightarrow> None)
   | None \<Rightarrow> find (\<lambda>r. pr_enabled (re_rule r) \<and> pr_path (re_rule r) = path) (rev base))"

definition by_path :: "(ustr \<times> rule_entry) list \<Rightarrow> bool" where
  "by_path d \<longleftrightarrow> distinct (map fst d) \<and> (\<forall>(k, e) \<in> set d. pr_path (re_rule e) = k)"

lemma by_path_dset: "by_path d \<Longrightarrow> pr_path (re_rule e) = k \<Longrightarrow> by_path (dset k e d)"
  by (auto simp: by_path_def distinct_update dest!: dset_mem)

lemma by_path_ddel: "by_path d \<Longrightarrow> by_path (ddel k d)"
  by (auto simp: by_path_def distinct_delete dest!: ddel_mem)

lemma by_path_values:
  "by_path d \<Longrightarrow> filter (\<lambda>e. pr_path (re_rule e) = k) (map snd d) =
     (case dget d k of None \<Rightarrow> [] | Some e \<Rightarrow> [e])"
proof (induction d)
  case (Cons x d)
  then have "by_path d" and x: "pr_path (re_rule (snd x)) = fst x" "fst x \<notin> fst ` set d"
    by (auto simp: by_path_def)
  with Cons.IH show ?case by (cases x) (auto simp: map_of_eq_None_iff [symmetric] split: option.splits)
qed simp

lemma index_rules_spec:
  "by_path d \<Longrightarrow> by_path (index_rules rs d) \<and>
   dget (index_rules rs d) k =
     (case find (\<lambda>r. pr_enabled (re_rule r) \<and> pr_path (re_rule r) = k) (rev rs) of
        Some r \<Rightarrow> Some r | None \<Rightarrow> dget d k)"
proof (induction rs arbitrary: d)
  case (Cons r rs)
  then show ?case
    by (auto simp: by_path_dset dict_simps find_append split: option.splits)
qed simp

lemma override_loop_spec:
  "by_path eff \<Longrightarrow> override_loop sid ovs eff audit m = (eff', audit', m') \<Longrightarrow> by_path eff' \<and>
   dget eff' k = (case find (relevant k) (rev ovs) of
     Some ov \<Rightarrow> (case override_action ov of Some (Mode md) \<Rightarrow> Some (override_entry sid ov md) | _ \<Rightarrow> None)
   | None \<Rightarrow> dget eff k)"
proof (induction ovs arbitrary: eff audit m)
  case (Cons ov ovs)
  have p: "pr_path (re_rule (override_entry sid ov md)) = override_path ov" for md
    by (simp add: override_entry_def)
  show ?case
  proof (cases "relevant (override_path ov) ov")
    case False
    then have n: "\<not> relevant k ov" by (auto simp: relevant_def)
    from False Cons.prems have "override_loop sid ovs eff audit m = (eff', audit', m')"
      by (auto simp: relevant_def Let_def split: if_splits)
    with Cons.IH Cons.prems(1) n show ?thesis by (simp add: find_append split: option.splits)
  next
    case True
    then obtain a where a: "override_action ov = Some a" by (auto simp: relevant_def)
    from True a Cons.prems(2) obtain eff1 audit1 m1
      where r: "override_loop sid ovs eff1 audit1 m1 = (eff', audit', m')"
        and e: "eff1 = (case a of AuditOnly \<Rightarrow> ddel (override_path ov) eff
                 | Mode md \<Rightarrow> dset (override_path ov) (override_entry sid ov md) eff)"
      by (cases a) (auto simp: relevant_def Let_def)
    have "by_path eff1" using e Cons.prems(1) p by (cases a) (auto intro: by_path_dset by_path_ddel)
    moreover have "relevant k ov \<longleftrightarrow> k = override_path ov" using True by (auto simp: relevant_def)
    ultimately show ?thesis using Cons.IH [OF _ r] e a
      by (cases a) (auto simp: find_append dict_simps split: option.splits)
  qed
qed simp

text \<open>
  C8. A route override wins.  After the overrides of a route are merged, the rules for any path are
  exactly the one of the last enabled override that names the path with a known action (none when
  that action is audit-only), and without such an override the last enabled persisted rule of the
  path; no path has two rules.
\<close>

theorem override_wins:
  "filter (\<lambda>e. pr_path (re_rule e) = path) (fst (apply_route_overrides base overrides sid)) =
     (case winning_rule sid base overrides path of None \<Rightarrow> [] | Some e \<Rightarrow> [e])"
proof -
  obtain eff audit m where o: "override_loop sid overrides (index_rules base []) [] [] = (eff, audit, m)"
    by (metis prod.exhaust)
  have "by_path (index_rules base [])" using index_rules_spec [of "[]"] by (simp add: by_path_def)
  from override_loop_spec [OF this o, of path]
  show ?thesis using o index_rules_spec [of "[]" base path]
    by (auto simp: apply_route_overrides_def by_path_values winning_rule_def by_path_def
        split: option.splits)
qed

section \<open>Reuse of results\<close>

text \<open>
  What the events of a result owe to the rules they were protected with, and the invariant of the
  batch cache: a stored result has no warnings and keeps that promise for every route that
  computes the same key.
\<close>

definition batch_done :: "prot_env \<Rightarrow> prot_rule list \<Rightarrow> prot_rule list \<Rightarrow> json list \<Rightarrow> bool" where
  "batch_done env rules eph evs \<longleftrightarrow>
     (\<forall>e \<in> set evs. is_dict e \<longrightarrow> (\<forall>r \<in> set (effective_rules rules eph).
        steady (set (effective_rules rules eph)) r \<longrightarrow> rule_done env (set (effective_rules rules eph)) r e))"

definition key_of :: "ustr \<Rightarrow> prot_rule list \<Rightarrow> prot_rule list \<Rightarrow> cache_key" where
  "key_of t rules eph = (map key_rule (sort_by_path eph), map key_rule (sort_by_path rules), t)"

definition cache_ok :: "prot_env \<Rightarrow> shared_batch \<Rightarrow> bool" where
  "cache_ok env sb \<longleftrightarrow> (\<forall>k res. dget (sb_cache sb) k = Some res \<longrightarrow> pb_warnings res = [] \<and>
     (\<forall>t rules eph. k = key_of t rules eph \<longrightarrow> batch_done env rules eph (pb_events res)))"

text \<open>What a rule promises depends on the columns of the key only.\<close>

lemma key_rule_same:
  assumes "key_rule r = key_rule r'"
  shows "mode_out env r = mode_out env r'" "index_drop r = index_drop r'" "overlaps q r = overlaps q r'" "overlaps r q = overlaps r' q"
    "pr_path r = pr_path r'"
  using assms by (auto simp: key_rule_def mode_out_def index_drop_def overlaps_def fun_eq_iff)

lemma shielded_key:
  assumes "shielded env Q r w" "key_rule r = key_rule r'" "key_rule ` Q \<subseteq> key_rule ` Q'"
  shows "shielded env Q' r' w"
  using assms(1)
proof (induction rule: shielded.induct)
  case (own v w)
  with key_rule_same(1) [OF assms(2)] show ?case by (auto intro: shielded.own)
next
  case (later v q w)
  from later(2) assms(3) obtain q' where "q' \<in> Q'" "key_rule q = key_rule q'" by (metis imageE image_eqI subsetD)
  with later key_rule_same(1) show ?case by (metis shielded.later)
qed

lemma overlapping_key:
  assumes "key_rule r = key_rule r'" "key_rule ` R \<subseteq> key_rule ` R'"
  shows "key_rule ` {q \<in> R. overlaps q r} \<subseteq> key_rule ` {q \<in> R'. overlaps q r'}"
proof
  fix k assume "k \<in> key_rule ` {q \<in> R. overlaps q r}"
  then obtain q where q: "q \<in> R" "overlaps q r" "k = key_rule q" by blast
  with assms(2) obtain q' where "q' \<in> R'" "key_rule q = key_rule q'" by (metis image_eqI imageE subsetD)
  with q key_rule_same(3) [OF assms(1)] key_rule_same(4) [OF \<open>key_rule q = key_rule q'\<close>]
  show "k \<in> key_rule ` {q \<in> R'. overlaps q r'}" by auto
qed

lemma rule_done_key:
  assumes "rule_done env R r e" "key_rule r = key_rule r'" "key_rule ` R \<subseteq> key_rule ` R'"
  shows "rule_done env R' r' e"
  using assms(1) shielded_key [OF _ assms(2) overlapping_key [OF assms(2,3)]] key_rule_same(5) [OF assms(2)]
  by (simp add: rule_done_def)

lemma steady_key:
  assumes "steady R' r'" "key_rule r = key_rule r'" "key_rule ` R \<subseteq> key_rule ` R'"
  shows "steady R r"
proof -
  have "\<not> index_drop q" if q: "q \<in> R" "overlaps q r" and no: "\<forall>q \<in> R'. overlaps q r' \<longrightarrow> \<not> index_drop q" for q
  proof -
    from q(1) assms(3) obtain q' where q': "q' \<in> R'" "key_rule q = key_rule q'" by (metis image_eqI imageE subsetD)
    with q(2) no key_rule_same(3) [OF assms(2)] key_rule_same(2,4) [OF q'(2)] show ?thesis by auto
  qed
  with assms(1) key_rule_same(2,5) [OF assms(2)] show ?thesis by (auto simp: steady_def)
qed

lemma effective_set:
  "key_rule ` set (effective_rules rules eph) =
     {k \<in> key_rule ` set rules. fst k} \<union>
     {k \<in> key_rule ` set eph. fst k \<and> fst (snd k) \<notin> (fst \<circ> snd) ` {k \<in> key_rule ` set rules. fst k}}"
  (is "_ = ?R \<union> ?E")
proof -
  let ?en = "{r \<in> set rules. pr_enabled r}"
  have k [simp]: "fst (key_rule r) = pr_enabled r" "fst (snd (key_rule r)) = pr_path r" for r
    by (simp_all add: key_rule_def)
  have R: "?R = key_rule ` ?en" by auto
  then have "(fst \<circ> snd) ` ?R = pr_path ` ?en" by (simp add: image_image)
  then have "?E = key_rule ` {r \<in> set eph. pr_enabled r \<and> pr_path r \<notin> pr_path ` ?en}" by auto
  with R show ?thesis by (simp add: effective_rules_def image_Un Int_def conj_commute)
qed

lemma key_of_effective:
  assumes "key_of t rules eph = key_of t' rules' eph'"
  shows "key_rule ` set (effective_rules rules eph) = key_rule ` set (effective_rules rules' eph')"
proof -
  from assms have "set (map key_rule (sort_by_path eph)) = set (map key_rule (sort_by_path eph'))"
    "set (map key_rule (sort_by_path rules)) = set (map key_rule (sort_by_path rules'))"
    by (simp_all add: key_of_def)
  then have "key_rule ` set eph = key_rule ` set eph'" "key_rule ` set rules = key_rule ` set rules'"
    by (simp_all add: sort_by_path_def)
  then show ?thesis by (simp add: effective_set)
qed

lemma batch_done_key:
  assumes "key_of t rules eph = key_of t' rules' eph'" "batch_done env rules eph evs"
  shows "batch_done env rules' eph' evs"
  unfolding batch_done_def
proof (intro ballI impI)
  let ?R = "set (effective_rules rules eph)" and ?R' = "set (effective_rules rules' eph')"
  fix e r' assume e: "e \<in> set evs" "is_dict e" and r': "r' \<in> ?R'" "steady ?R' r'"
  have k: "key_rule ` ?R = key_rule ` ?R'" by (rule key_of_effective [OF assms(1)])
  with r'(1) obtain r where r: "r \<in> ?R" "key_rule r = key_rule r'" by (metis imageE image_eqI)
  with e r'(2) assms(2) steady_key [OF _ r(2)] k have "rule_done env ?R r e" by (simp add: batch_done_def)
  from rule_done_key [OF this r(2)] k show "rule_done env ?R' r' e" by simp
qed

lemma batch_done_copied: "batch_done env rules eph evs \<Longrightarrow> batch_done env rules eph (copy_events evs)"
  by (auto simp: batch_done_def copy_events_def)

lemma execute_done:
  assumes "pe_enabled env" "\<forall>e \<in> set events. json_ok e" "vault_ok env (Some store)"
    and "execute_protection env own required events config merged sid store = (Inr res, store1)"
  shows "pb_warnings res = [] \<and> batch_done env (map re_rule (rc_rules config)) merged (pb_events res) \<and>
    vault_ok env (Some store1)"
proof -
  let ?db = "if own \<or> required then Some store else None"
  from assms(4) obtain db' where
    run: "protect_batch env events (map re_rule (rc_rules config)) sid merged ?db = (Inr res, db')"
    and w: "pb_warnings res = []" and s: "store1 = (case db' of Some v \<Rightarrow> v | None \<Rightarrow> store)"
    by (auto simp: execute_protection_def raise_on_warnings_def Let_def
        split: prod.splits sum.splits option.splits list.splits)
  have "vault_ok env ?db" using assms(3) by (simp add: vault_ok_def)
  from protect_batch_done [OF assms(1,2) this run w] w s assms(3) show ?thesis
    by (auto simp: batch_done_def vault_ok_def split: option.splits)
qed

lemma route_stage_done:
  assumes "pe_enabled env" "\<forall>e \<in> set events. json_ok e" "cache_ok env sb" "vault_ok env (Some store)"
    and "route_protection_stage env own preview route_id stream_id transform events
           route_rules stream_rules overrides sb store = (out, sb', store')"
  shows "case out of
      Inl _ \<Rightarrow> sb' = sb
    | Inr (res, config) \<Rightarrow> pb_warnings res = [] \<and> cache_ok env sb' \<and> vault_ok env (Some store') \<and>
        batch_done env (map re_rule (rc_rules config))
          (merge_ephemeral_for_route (sb_ephemeral sb) config) (pb_events res)"
proof (cases "resolve_route_protection_config route_id stream_id route_rules stream_rules overrides
    (sb_ephemeral sb)")
  case (Inr config)
  define merged where "merged = merge_ephemeral_for_route (sb_ephemeral sb) config"
  define rules where "rules = map re_rule (rc_rules config)"
  define t where "t = (case transform of Some k \<Rightarrow> k | None \<Rightarrow> u ''__raw__'')"
  have k: "protection_execution_cache_key t config merged = key_of t rules merged"
    by (simp add: protection_execution_cache_key_def key_of_def rules_def)
  note folds = merged_def [symmetric] rules_def [symmetric] t_def [symmetric] Let_def k
  show ?thesis
  proof (cases "dget (sb_cache sb) (key_of t rules merged)")
    case (Some cached)
    with assms(3) have "pb_warnings cached = []" "batch_done env rules merged (pb_events cached)"
      unfolding cache_ok_def by blast+
    moreover from Some assms(5) Inr have "out = Inr (copied_result cached, config)" "sb' = sb" "store' = store"
      by (auto simp: route_protection_stage_def folds)
    ultimately show ?thesis using assms(3,4)
      by (simp add: copied_result_def batch_done_copied folds)
  next
    case None
    show ?thesis
    proof (cases out)
      case (Inl e)
      with None assms(5) Inr show ?thesis
        by (auto simp: route_protection_stage_def folds split: sum.splits if_splits prod.splits)
    next
      case out: (Inr rc)
      with None assms(5) Inr obtain required res where
        e: "execute_protection env own required events config merged stream_id store = (Inr res, store')"
        and rc: "rc = (res, config)"
        and sb': "sb' = sb\<lparr>sb_cache := dset (key_of t rules merged) (copied_result res) (sb_cache sb),
                            sb_executions := Suc (sb_executions sb)\<rparr>"
        by (auto simp: route_protection_stage_def folds split: sum.splits if_splits prod.splits)
      from execute_done [OF assms(1,2,4) e]
      have d: "pb_warnings res = []" "batch_done env rules merged (pb_events res)" "vault_ok env (Some store')" by (simp_all add: rules_def)
      then have "cache_ok env sb'"
        using assms(3) batch_done_key [where t = t and rules = rules and eph = merged and env = env]
        by (auto simp: cache_ok_def sb' dict_simps copied_result_def batch_done_copied)
      with d rc out show ?thesis by (simp add: merged_def rules_def)
    qed
  qed
qed (use assms(5) in \<open>auto simp: route_protection_stage_def\<close>)

text \<open>
  C7. The route stage fails closed.  Protection is switched on, and the vault and the batch cache satisfy their
  invariants.  If the stage returns, no protection warning was swallowed, and every object event it hands on is
  done for each rule in effect for this route (as in C6: the values at its path come from its mode, with the same
  exception for array items dropped by index), whatever the modes of the other rules are and no matter whether
  the result was computed for this route or reused from another route of the batch; the vault and the cache keep
  their invariants.  If the stage raises, the cache is as before.
\<close>

theorem route_stage_fails_closed:
  assumes "pe_enabled env" "\<forall>e \<in> set events. json_ok e" "cache_ok env sb" "vault_ok env (Some store)"
    and "route_protection_stage env own preview route_id stream_id transform events
           route_rules stream_rules overrides sb store = (out, sb', store')"
  shows "case out of
      Inl _ \<Rightarrow> sb' = sb
    | Inr (res, config) \<Rightarrow> pb_warnings res = [] \<and> cache_ok env sb' \<and> vault_ok env (Some store') \<and>
        batch_done env (map re_rule (rc_rules config))
          (merge_ephemeral_for_route (sb_ephemeral sb) config) (pb_events res)"
  using route_stage_done [OF assms] .

section \<open>Rule order\<close>

definition order_rules :: "(prot_rule \<times> int option) list" where
  "order_rules = [(demo_rule MODE_FULL_MASK (u ''$.a''), None), (demo_rule MODE_HASH (u ''a''), None)]"

definition order_event :: "ustr \<Rightarrow> json" where
  "order_event s = JDict [(u ''a'', JStr s)]"

lemma order_paths:
  assumes "p = u ''$.a'' \<or> p = u ''a''"
  shows "parse_protection_path p = Inr [SStr (u ''a'')]"
    "legacy_path_has_literal_dotted_member (order_event s) p [SStr (u ''a'')] = Inr False"
proof -
  have "parse_protection_path p = Inr [SStr (u ''a'')] \<and> quoted_selector_flags p = Inr [False]"
    using assms by (elim disjE; simp add: parse_protection_path_def strip_def u_def is_space_def startswith_def
      next_token_def not_boundary_def quoted_selector_flags_def next_flag_def)
  then show "parse_protection_path p = Inr [SStr (u ''a'')]"
    "legacy_path_has_literal_dotted_member (order_event s) p [SStr (u ''a'')] = Inr False"
    by (simp_all add: legacy_path_has_literal_dotted_member_def order_event_def dotted_names_def)
qed

lemma order_step:
  assumes "p = u ''$.a'' \<or> p = u ''a''" "hmac_key_for_stream demo_prot_env 7 = Inr k" "utf8_encode s = Inr b"
  shows "apply_rule_to_event demo_prot_env (order_event s) (demo_rule MODE_FULL_MASK p) None None =
      ((order_event MASK_LITERAL, Inr (1, None)), None)"
    "apply_rule_to_event demo_prot_env (order_event s) (demo_rule MODE_HASH p) None None =
      ((order_event (u ''sha256:'' @ k @ b), Inr (1, None)), None)"
proof -
  note [simp] = order_paths [OF assms(1)] assms
  show "apply_rule_to_event demo_prot_env (order_event s) (demo_rule MODE_FULL_MASK p) None None =
      ((order_event MASK_LITERAL, Inr (1, None)), None)"
    by (simp add: apply_rule_to_event_def demo_rule_def full_mask_mode)
       (simp add: order_event_def assign_leaf_def full_mask_value_def)
  have "MODE_HASH \<noteq> MODE_DROP_FIELD" "MODE_HASH \<noteq> MODE_FULL_MASK" "MODE_HASH \<noteq> MODE_PARTIAL_MASK"
    by (simp_all add: mode_defs)
  moreover have "pe_hmac demo_prot_env = (\<lambda>k m. k @ m)" by (simp add: demo_prot_env_def)
  ultimately show "apply_rule_to_event demo_prot_env (order_event s) (demo_rule MODE_HASH p) None None =
      ((order_event (u ''sha256:'' @ k @ b), Inr (1, None)), None)"
    by (simp add: apply_rule_to_event_def demo_rule_def)
       (simp add: order_event_def assign_leaf_def apply_protection_mode_def hash_mask_value_def)
qed

lemma order_resolve:
  assumes "rs = order_rules \<or> rs = rev order_rules"
  shows "\<exists>c. resolve_route_protection_config rid 7 rs [] [] [] = Inr c \<and> map re_rule (rc_rules c) = map fst rs"
  using assms
  by (auto simp: resolve_route_protection_config_def order_rules_def apply_route_overrides_def
      rule_entry_from_row_def demo_rule_def Let_def)

lemma order_run:
  assumes "apply_rules demo_prot_env rs None (order_event s) None = ((ev, Inr (n, [])), None)"
    and "\<forall>r \<in> set rs. pr_enabled r" "rs \<noteq> []"
  shows "\<exists>res. protect_batch demo_prot_env [order_event s] rs 7 [] None = (Inr res, None) \<and>
    pb_warnings res = [] \<and> pb_events res = [ev]"
proof -
  have "effective_rules rs [] = rs" using assms(2) by (simp add: effective_rules_def)
  moreover have "is_dict (order_event s)" "pe_enabled demo_prot_env"
    by (simp_all add: order_event_def is_dict_def demo_prot_env_def)
  ultimately show ?thesis using assms(1,3) by (simp add: protect_batch_def prefetch_tokens_def Let_def)
qed

text \<open>
  The cache key forgets the order of the rules.  Two configurations of a route can have the same
  cache key although protecting the same event with them gives different results without a
  warning: rules run in the order they are listed, and two spellings of one path select the same
  member.
\<close>

lemma cache_key_ignores_order:
  "\<exists>c1 c2 out1 out2.
     resolve_route_protection_config 1 7 order_rules [] [] [] = Inr c1 \<and>
     resolve_route_protection_config 2 7 (rev order_rules) [] [] [] = Inr c2 \<and>
     protection_execution_cache_key t c1 [] = protection_execution_cache_key t c2 [] \<and>
     protect_batch demo_prot_env [order_event (u ''x'')] (map re_rule (rc_rules c1)) 7 [] None = (Inr out1, None) \<and>
     protect_batch demo_prot_env [order_event (u ''x'')] (map re_rule (rc_rules c2)) 7 [] None = (Inr out2, None) \<and>
     pb_warnings out1 = [] \<and> pb_warnings out2 = [] \<and> pb_events out1 \<noteq> pb_events out2"
proof -
  obtain c1 c2 where c: "resolve_route_protection_config 1 7 order_rules [] [] [] = Inr c1"
    "resolve_route_protection_config 2 7 (rev order_rules) [] [] [] = Inr c2"
    and r: "map re_rule (rc_rules c1) = map fst order_rules" "map re_rule (rc_rules c2) = map fst (rev order_rules)"
    using order_resolve by metis
  obtain k where k: "hmac_key_for_stream demo_prot_env 7 = Inr k" using hmac_key_ok [OF demo_salt] by blast
  have x: "utf8_encode (u ''x'') = Inr (u ''x'')" "utf8_encode MASK_LITERAL = Inr MASK_LITERAL"
    by (rule utf8_ascii, simp add: u_def MASK_LITERAL_def)+
  have "k = int_str 7 @ u '':'' @ u ''gdc-protection-default-salt''"
    using k utf8_ascii [of "int_str 7 @ u '':''"] int_str_ascii by (auto simp: hmac_key_for_stream_def demo_salt)
  then have "\<forall>c \<in> set (u ''sha256:'' @ k @ u ''x''). c < 128" by (simp add: int_str_def nat_str.simps u_def)
  note b = utf8_ascii [OF this]
  note s1 = order_step [OF _ k x(1)] and s2 = order_step [OF _ k x(2)] and s3 = order_step [OF _ k b]
  have a1: "apply_rules demo_prot_env (map fst order_rules) None (order_event (u ''x'')) None =
      ((order_event (u ''sha256:'' @ k @ MASK_LITERAL), Inr (2, [])), None)"
    by (simp add: order_rules_def s1 s2)
  have a2: "apply_rules demo_prot_env (map fst (rev order_rules)) None (order_event (u ''x'')) None =
      ((order_event MASK_LITERAL, Inr (2, [])), None)"
    by (simp add: order_rules_def s1 s3)
  have ne: "order_event (u ''sha256:'' @ k @ MASK_LITERAL) \<noteq> order_event MASK_LITERAL"
    by (simp add: order_event_def MASK_LITERAL_def u_def)
  have key: "protection_execution_cache_key t c1 [] = protection_execution_cache_key t c2 []"
    by (simp add: protection_execution_cache_key_def r)
       (simp add: sort_by_path_def order_rules_def demo_rule_def u_def)
  have en: "\<forall>r \<in> set (map fst order_rules). pr_enabled r" "\<forall>r \<in> set (map fst (rev order_rules)). pr_enabled r"
    "map fst order_rules \<noteq> []" "map fst (rev order_rules) \<noteq> []"
    by (simp_all add: order_rules_def demo_rule_def)
  from order_run [OF a1 en(1,3)] order_run [OF a2 en(2,4)] c r key ne show ?thesis by fastforce
qed

section \<open>Witnesses\<close>

lemma demo_resolved:
  "\<exists>c. resolve_route_protection_config 1 7 [(demo_rule m p, None)] [] [] [] = Inr c \<and>
     map re_rule (rc_rules c) = [demo_rule m p]"
  by (auto simp: resolve_route_protection_config_def apply_route_overrides_def
      rule_entry_from_row_def demo_rule_def Let_def)

definition demo_batch :: shared_batch where
  "demo_batch = \<lparr>sb_ephemeral = [], sb_cache = [], sb_executions = 0\<rparr>"

theorem route_stage_fails_closed_witness:
  "\<exists>res config sb' store'. route_protection_stage demo_prot_env False False 1 7 None [demo_event]
     [(demo_rule MODE_FULL_MASK (u ''$.a''), None)] [] [] demo_batch demo_vault =
       (Inr (res, config), sb', store') \<and>
     pb_warnings res = [] \<and> cache_ok demo_prot_env sb' \<and> batch_done demo_prot_env (map re_rule (rc_rules config)) [] (pb_events res)"
proof -
  obtain c where c: "resolve_route_protection_config 1 7 [(demo_rule MODE_FULL_MASK (u ''$.a''), None)] [] [] [] = Inr c"
    and rc: "map re_rule (rc_rules c) = [demo_rule MODE_FULL_MASK (u ''$.a'')]"
    using demo_resolved [of MODE_FULL_MASK "u ''$.a''"] by (elim exE conjE)
  have "requires_protection_persistence [demo_event] [demo_rule MODE_FULL_MASK (u ''$.a'')] = Inr False"
    by (simp add: requires_protection_persistence_def collect_tokenization_targets_def demo_rule_def mode_defs)
  with c rc demo_run obtain res sb' store' where
    r: "route_protection_stage demo_prot_env False False 1 7 None [demo_event]
     [(demo_rule MODE_FULL_MASK (u ''$.a''), None)] [] [] demo_batch demo_vault = (Inr (res, c), sb', store')"
    by (auto simp: route_protection_stage_def demo_batch_def merge_ephemeral_for_route_def
        execute_protection_def raise_on_warnings_def Let_def)
  have "pe_enabled demo_prot_env" "\<forall>e \<in> set [demo_event]. json_ok e" "cache_ok demo_prot_env demo_batch"
    "vault_ok demo_prot_env (Some demo_vault)"
    by (simp_all add: demo_event_def cache_ok_def demo_batch_def vault_ok_def demo_env_ok demo_prot_env_def)
  from route_stage_fails_closed [OF this r] r show ?thesis
    by (auto simp: merge_ephemeral_for_route_def demo_batch_def)
qed

end
