(* ===== verification/Drift_Policy.thy ===== *)
theory Drift_Policy
  imports Route_Protection
begin

text \<open>
  Schema drift policy of a batch: \<^verbatim>\<open>app/schema_drift_policy/schemas.py\<close>, \<^verbatim>\<open>path_resolve.py\<close> and
  \<^verbatim>\<open>orchestrator.py\<close>.  Fields that appeared since the schema was recorded are matched against the
  batch and the configured policy is turned into a review gate, a quarantine gate or protection rules
  for this batch.  The paths of the batch, the alias map of the mappings and the test whether a path
  exists are arguments; log entries are not modelled.  A missing sensitivity class is the empty text.
\<close>

section \<open>Configuration\<close>

record drift_config =
  dp_normal :: ustr
  dp_sensitive :: ustr

definition UNKNOWN_NORMAL_POLICIES :: "ustr list" where
  "UNKNOWN_NORMAL_POLICIES = [u ''pass_through'', u ''require_review'', u ''drop_field'', u ''quarantine'']"

definition UNKNOWN_SENSITIVE_POLICIES :: "ustr list" where
  "UNKNOWN_SENSITIVE_POLICIES = [u ''auto_protect'', u ''require_review'', u ''drop_field'', u ''quarantine'']"

definition DEFAULT_SCHEMA_DRIFT_POLICY :: drift_config where
  "DEFAULT_SCHEMA_DRIFT_POLICY = \<lparr>dp_normal = u ''pass_through'', dp_sensitive = u ''auto_protect''\<rparr>"

definition policy_text :: "json \<Rightarrow> ustr" where
  "policy_text v = (if v = JNull then [] else strip (py_str v))"

definition normalize_normal :: "json \<Rightarrow> ustr" where
  "normalize_normal v = (if policy_text v \<in> set UNKNOWN_NORMAL_POLICIES then policy_text v else u ''pass_through'')"

definition normalize_sensitive :: "json \<Rightarrow> ustr" where
  "normalize_sensitive v =
     (if policy_text v \<in> set UNKNOWN_SENSITIVE_POLICIES then policy_text v else u ''auto_protect'')"

definition normalize_schema_drift_policy :: "dict \<Rightarrow> drift_config" where
  "normalize_schema_drift_policy doc =
     \<lparr>dp_normal = normalize_normal (dget_none doc (u ''unknown_normal_field_policy'')),
      dp_sensitive = normalize_sensitive (dget_none doc (u ''unknown_sensitive_field_policy''))\<rparr>"

definition load_schema_drift_policy :: "json \<Rightarrow> drift_config" where
  "load_schema_drift_policy config_json =
     (let root = (case config_json of JDict d \<Rightarrow> d | _ \<Rightarrow> [])
      in case dget_none root (u ''governance'') of
           JDict g \<Rightarrow> (case dget_none g (u ''schema_drift_policy'') of
              JDict p \<Rightarrow> normalize_schema_drift_policy p | _ \<Rightarrow> DEFAULT_SCHEMA_DRIFT_POLICY)
         | _ \<Rightarrow> DEFAULT_SCHEMA_DRIFT_POLICY)"

definition validate_schema_drift_policy_payload :: "json \<Rightarrow> dict option result" where
  "validate_schema_drift_policy_payload raw = (case raw of
     JNull \<Rightarrow> Inr None
   | JDict d \<Rightarrow>
       (let normal = dget_default d (u ''unknown_normal_field_policy'') (JStr (u ''pass_through''));
            sensitive = dget_default d (u ''unknown_sensitive_field_policy'') (JStr (u ''auto_protect''))
        in if strip (py_str normal) \<notin> set UNKNOWN_NORMAL_POLICIES then
             Inl (ValueError (u ''invalid unknown_normal_field_policy: '' @ py_repr normal))
           else if strip (py_str sensitive) \<notin> set UNKNOWN_SENSITIVE_POLICIES then
             Inl (ValueError (u ''invalid unknown_sensitive_field_policy: '' @ py_repr sensitive))
           else Inr (Some [(u ''unknown_normal_field_policy'', JStr (strip (py_str normal))),
                           (u ''unknown_sensitive_field_policy'', JStr (strip (py_str sensitive)))]))
   | _ \<Rightarrow> Inl (ValueError (u ''schema_drift_policy must be an object'')))"

definition merge_governance_schema_drift_policy :: "dict \<Rightarrow> dict \<Rightarrow> dict" where
  "merge_governance_schema_drift_policy config_json payload =
     (let governance = (case dget_none config_json (u ''governance'') of JDict g \<Rightarrow> g | _ \<Rightarrow> [])
      in dset (u ''governance'') (JDict (dset (u ''schema_drift_policy'') (JDict payload) governance)) config_json)"

section \<open>Paths\<close>

definition normalize_protection_json_path :: "ustr \<Rightarrow> ustr" where
  "normalize_protection_json_path path =
     (let trimmed = strip path
      in if trimmed = [] then []
         else if startswith trimmed (u ''$'') then trimmed else u ''$.'' @ trimmed)"

text \<open>\<open>_ARRAY_INDEX_RE.sub("", s)\<close>: bracketed decimal numbers are removed from left to right.\<close>

lemma drop_digits [termination_simp]: "length (dropWhile P xs) - Suc 0 < Suc (length xs)"
  using length_dropWhile_le [of P xs] by linarith

fun remove_indexes :: "ustr \<Rightarrow> ustr" where
  "remove_indexes [] = []"
| "remove_indexes (c # cs) =
     (if c = 91 \<and> takeWhile is_digit cs \<noteq> [] \<and> take 1 (dropWhile is_digit cs) = [93]
      then remove_indexes (tl (dropWhile is_digit cs))
      else c # remove_indexes cs)"

definition leaf_segment :: "ustr \<Rightarrow> ustr" where
  "leaf_segment path =
     lower (filter (\<lambda>c. c \<noteq> 36) (remove_indexes (last (split_on 46 (normalize_protection_json_path path)))))"

definition resolve_protection_field_path :: "ustr \<Rightarrow> ustr list \<Rightarrow> (ustr \<times> ustr) list \<Rightarrow> ustr option" where
  "resolve_protection_field_path selected runtime_paths alias_map =
     (let normalized = normalize_protection_json_path selected;
          path_set = remdups (map normalize_protection_json_path runtime_paths)
      in if normalized = [] then None
         else if normalized \<in> set path_set then Some normalized
         else case dget alias_map normalized of
           Some aliased \<Rightarrow>
             if aliased \<noteq> [] \<and> aliased \<in> set path_set then Some aliased
             else (case filter (\<lambda>p. leaf_segment p = leaf_segment normalized) path_set of [p] \<Rightarrow> Some p | _ \<Rightarrow> None)
         | None \<Rightarrow> (case filter (\<lambda>p. leaf_segment p = leaf_segment normalized) path_set of [p] \<Rightarrow> Some p | _ \<Rightarrow> None))"

section \<open>Unknown fields\<close>

record unknown_field =
  uf_extracted :: ustr
  uf_enriched :: ustr
  uf_finding :: int
  uf_sensitive :: bool
  uf_class :: ustr
  uf_applied :: ustr

record drift_result =
  dr_action :: ustr
  dr_unknown :: "unknown_field list"
  dr_unresolved :: "ustr list"
  dr_quarantine :: bool
  dr_quarantine_type :: "ustr option"
  dr_review :: "unknown_field list"
  dr_rules :: "prot_rule list"

record drift_row =
  dw_id :: int
  dw_path :: ustr

definition no_drift :: drift_result where
  "no_drift = \<lparr>dr_action = u ''noop'', dr_unknown = [], dr_unresolved = [], dr_quarantine = False,
     dr_quarantine_type = None, dr_review = [], dr_rules = []\<rparr>"

fun sensitive_paths_from_context :: "json list \<Rightarrow> (ustr \<times> ustr) list \<Rightarrow> (ustr \<times> ustr) list" where
  "sensitive_paths_from_context [] out = out"
| "sensitive_paths_from_context (f # fs) out = (case f of
     JDict d \<Rightarrow>
       (let path = strip (str_or_empty (dget_none d (u ''field_path'')));
            cls = strip (str_or_empty (dget_none d (u ''sensitivity_class'')))
        in if path = [] then sensitive_paths_from_context fs out
           else sensitive_paths_from_context fs
                  (dset path (if cls \<noteq> [] then cls else case dget out path of Some c \<Rightarrow> c | None \<Rightarrow> []) out))
   | _ \<Rightarrow> sensitive_paths_from_context fs out)"

text \<open>Findings are also indexed by the output path of the mapping of their field.\<close>

definition index_aliased :: "(ustr \<times> ustr) list \<Rightarrow> (ustr \<times> ustr) list \<Rightarrow> (ustr \<times> ustr) list" where
  "index_aliased alias_map found = foldl (\<lambda>out (path, cls). case dget alias_map path of
      Some a \<Rightarrow> if a \<noteq> [] \<and> dget out a = None then dset a cls out else out
    | None \<Rightarrow> out) found found"

text \<open>The matched fields and the paths that could not be resolved.\<close>

fun match_unknown_fields ::
  "ustr list \<Rightarrow> (ustr \<times> ustr) list \<Rightarrow> (ustr \<Rightarrow> bool) \<Rightarrow> (ustr \<times> ustr) list \<Rightarrow> drift_row list
     \<Rightarrow> unknown_field list \<times> ustr list" where
  "match_unknown_fields paths alias_map path_exists sensitive [] = ([], [])"
| "match_unknown_fields paths alias_map path_exists sensitive (w # ws) =
     (let (found, unresolved) = match_unknown_fields paths alias_map path_exists sensitive ws;
          extracted = strip (dw_path w)
      in if extracted = [] then (found, unresolved)
         else case resolve_protection_field_path extracted paths alias_map of
           None \<Rightarrow> (found, extracted # unresolved)
         | Some p \<Rightarrow>
             if \<not> path_exists p then (found, unresolved)
             else (\<lparr>uf_extracted = extracted, uf_enriched = p, uf_finding = dw_id w,
                    uf_sensitive = (dget sensitive p \<noteq> None),
                    uf_class = (case dget sensitive p of Some c \<Rightarrow> c | None \<Rightarrow> []), uf_applied = []\<rparr> # found,
                   unresolved))"

section \<open>The policy\<close>

definition action_strength :: "ustr \<Rightarrow> nat" where
  "action_strength a = (if a = u ''drop_field'' \<or> a = u ''auto_protect'' then 1
     else if a = u ''quarantine'' then 2 else 0)"

definition resolve_batch_action :: "ustr \<Rightarrow> ustr \<Rightarrow> bool \<Rightarrow> bool \<Rightarrow> ustr" where
  "resolve_batch_action normal_policy sensitive_policy has_normal has_sensitive =
     (let actions = (if has_normal then [(action_strength normal_policy, normal_policy, False)] else []) @
                    (if has_sensitive then [(action_strength sensitive_policy, sensitive_policy, True)] else [])
      in if actions = [] then u ''noop''
         else
           let max_strength = Max (set (map fst actions));
               strongest = filter (\<lambda>x. fst x = max_strength) actions;
               sensitive_first = filter (\<lambda>x. snd (snd x)) strongest
           in if length strongest = 1 then fst (snd (hd strongest))
              else if sensitive_first \<noteq> [] then fst (snd (hd sensitive_first))
              else fst (snd (hd strongest)))"

definition auto_protect_mode_for_class :: "ustr \<Rightarrow> ustr" where
  "auto_protect_mode_for_class cls = (if strip cls = u ''secret'' then MODE_FULL_MASK else MODE_PARTIAL_MASK)"

definition with_policy :: "drift_config \<Rightarrow> unknown_field \<Rightarrow> unknown_field" where
  "with_policy config f = f\<lparr>uf_applied := (if uf_sensitive f then dp_sensitive config else dp_normal config)\<rparr>"

definition ephemeral_rule :: "int \<Rightarrow> ustr \<Rightarrow> unknown_field \<Rightarrow> prot_rule" where
  "ephemeral_rule stream_id mode f = \<lparr>pr_id = None, pr_stream = stream_id, pr_path = uf_enriched f, pr_mode = mode,
     pr_class = uf_class f, pr_enabled = True\<rparr>"

text \<open>What the batch action does with the matched fields; \<open>existing\<close> are the paths of the stream's rules.\<close>

definition decide_batch ::
  "drift_config \<Rightarrow> int \<Rightarrow> ustr list \<Rightarrow> unknown_field list \<Rightarrow> ustr list \<Rightarrow> drift_result" where
  "decide_batch config stream_id existing found unresolved =
     (if found = [] then no_drift\<lparr>dr_unresolved := unresolved\<rparr>
      else
        let batch_action = resolve_batch_action (dp_normal config) (dp_sensitive config)
              (list_ex (\<lambda>f. \<not> uf_sensitive f) found) (list_ex uf_sensitive found);
            fs = map (with_policy config) found;
            res = no_drift\<lparr>dr_action := batch_action, dr_unknown := fs, dr_unresolved := unresolved\<rparr>
        in if batch_action = u ''pass_through'' then res
           else if batch_action = u ''require_review'' then
             res\<lparr>dr_review := filter (\<lambda>f. uf_applied f = u ''require_review'') fs\<rparr>
           else if batch_action = u ''auto_protect'' then
             res\<lparr>dr_rules := map (\<lambda>f. ephemeral_rule stream_id (auto_protect_mode_for_class (uf_class f)) f)
               (filter (\<lambda>f. uf_sensitive f \<and> dp_sensitive config = u ''auto_protect'' \<and>
                  uf_enriched f \<notin> set existing) fs)\<rparr>
           else if batch_action = u ''drop_field'' then
             res\<lparr>dr_rules := map (ephemeral_rule stream_id MODE_DROP_FIELD)
               (filter (\<lambda>f. uf_applied f = u ''drop_field'' \<and> uf_enriched f \<notin> set existing) fs)\<rparr>
           else if batch_action = u ''quarantine'' then
             (let items = filter (\<lambda>f. uf_applied f = u ''quarantine'') fs;
                  items = (if items = [] then fs else items);
                  dominant = (case find uf_sensitive items of Some f \<Rightarrow> f | None \<Rightarrow> hd items)
              in res\<lparr>dr_quarantine := True, dr_quarantine_type :=
                   Some (if uf_sensitive dominant then u ''unknown_sensitive'' else u ''unknown_normal'')\<rparr>)
           else res)"

text \<open>\<open>db\<close> is the session: the open added-field drifts and the paths of the enabled stream rules.\<close>

definition apply_schema_drift_policy_to_batch ::
  "bool \<Rightarrow> (drift_row list \<times> ustr list) option \<Rightarrow> int \<Rightarrow> json \<Rightarrow> ustr list \<Rightarrow> (ustr \<times> ustr) list
     \<Rightarrow> (ustr \<Rightarrow> bool) \<Rightarrow> json list \<Rightarrow> json list \<Rightarrow> drift_result" where
  "apply_schema_drift_policy_to_batch enabled db stream_id config_json paths alias_map path_exists events findings =
     (case db of
        None \<Rightarrow> no_drift
      | Some (open_drifts, existing) \<Rightarrow>
          if \<not> enabled \<or> events = [] \<or> open_drifts = [] then no_drift
          else
            let sensitive = index_aliased alias_map (sensitive_paths_from_context findings []);
                (found, unresolved) = match_unknown_fields paths alias_map path_exists sensitive open_drifts
            in decide_batch (load_schema_drift_policy config_json) stream_id existing found unresolved)"

section \<open>Configuration round trip\<close>

lemma policy_names_strip:
  "p \<in> set UNKNOWN_NORMAL_POLICIES \<union> set UNKNOWN_SENSITIVE_POLICIES \<Longrightarrow> strip p = p"
  by (auto simp: UNKNOWN_NORMAL_POLICIES_def UNKNOWN_SENSITIVE_POLICIES_def strip_def u_def is_space_def)

text \<open>
  A saved drift policy is the policy that is loaded.  When a payload is accepted, storing it in a
  stream configuration and loading the configuration again gives exactly the two accepted policies,
  and every other governance key and every other configuration key keeps its value.
\<close>

lemma drift_policy_roundtrip:
  assumes "validate_schema_drift_policy_payload raw = Inr (Some payload)"
  shows "load_schema_drift_policy (JDict (merge_governance_schema_drift_policy cfg payload)) =
      \<lparr>dp_normal = py_str (dget_none payload (u ''unknown_normal_field_policy'')),
       dp_sensitive = py_str (dget_none payload (u ''unknown_sensitive_field_policy''))\<rparr> \<and>
    dp_normal (load_schema_drift_policy (JDict (merge_governance_schema_drift_policy cfg payload)))
      \<in> set UNKNOWN_NORMAL_POLICIES \<and>
    (\<forall>k. k \<noteq> u ''governance'' \<longrightarrow> dget (merge_governance_schema_drift_policy cfg payload) k = dget cfg k) \<and>
    (\<forall>g k. dget cfg (u ''governance'') = Some (JDict g) \<longrightarrow> k \<noteq> u ''schema_drift_policy'' \<longrightarrow>
       (\<exists>g'. dget (merge_governance_schema_drift_policy cfg payload) (u ''governance'') = Some (JDict g') \<and>
             dget g' k = dget g k))"
proof -
  from assms obtain n s where p: "payload = [(u ''unknown_normal_field_policy'', JStr n),
      (u ''unknown_sensitive_field_policy'', JStr s)]"
    "n \<in> set UNKNOWN_NORMAL_POLICIES" "s \<in> set UNKNOWN_SENSITIVE_POLICIES"
    by (auto simp: validate_schema_drift_policy_payload_def Let_def split: json.splits if_splits)
  have "strip n = n" "strip s = s" using p policy_names_strip by auto
  then show ?thesis using p
    by (auto simp: load_schema_drift_policy_def merge_governance_schema_drift_policy_def dict_simps
        dget_none_def normalize_schema_drift_policy_def normalize_normal_def normalize_sensitive_def
        policy_text_def py_str_def Let_def)
qed

section \<open>Enforcement\<close>

lemma resolve_strongest:
  "resolve_batch_action n s hn hs =
     (if hs \<and> (\<not> hn \<or> action_strength n \<le> action_strength s) then s else if hn then n else u ''noop'')"
  by (auto simp: resolve_batch_action_def max_def)

definition valid_config :: "drift_config \<Rightarrow> bool" where
  "valid_config config \<longleftrightarrow> dp_normal config \<in> set UNKNOWN_NORMAL_POLICIES \<and>
     dp_sensitive config \<in> set UNKNOWN_SENSITIVE_POLICIES"

lemma load_valid: "valid_config (load_schema_drift_policy c)"
  by (auto simp: valid_config_def load_schema_drift_policy_def normalize_schema_drift_policy_def Let_def
      normalize_normal_def normalize_sensitive_def DEFAULT_SCHEMA_DRIFT_POLICY_def UNKNOWN_NORMAL_POLICIES_def
      UNKNOWN_SENSITIVE_POLICIES_def split: json.splits)

text \<open>The policy configured for a field.\<close>

definition configured :: "drift_config \<Rightarrow> unknown_field \<Rightarrow> ustr" where
  "configured config f = (if uf_sensitive f then dp_sensitive config else dp_normal config)"

lemma applied_configured [simp]: "uf_applied (with_policy config f) = configured config f"
  by (simp add: with_policy_def configured_def)

lemma with_policy_keeps [simp]:
  "uf_enriched (with_policy config f) = uf_enriched f"
  "uf_sensitive (with_policy config f) = uf_sensitive f"
  "uf_class (with_policy config f) = uf_class f"
  by (simp_all add: with_policy_def)

text \<open>
  A field counts as handled when the result does to it what its policy says: the quarantine gate is closed, the field itself is
  listed for review, or its path has an enabled rule of the right mode for this batch.  A path for which the stream
  already has a rule gets none: that rule stays in charge, whatever its mode is.
\<close>

definition handled :: "ustr list \<Rightarrow> drift_result \<Rightarrow> unknown_field \<Rightarrow> ustr \<Rightarrow> bool" where
  "handled existing res f policy \<longleftrightarrow>
     (policy = u ''quarantine'' \<longrightarrow> dr_quarantine res) \<and>
     (policy = u ''require_review'' \<longrightarrow> f\<lparr>uf_applied := policy\<rparr> \<in> set (dr_review res)) \<and>
     (policy = u ''auto_protect'' \<longrightarrow> uf_enriched f \<notin> set existing \<longrightarrow>
        (\<exists>r \<in> set (dr_rules res). pr_path r = uf_enriched f \<and> pr_enabled r \<and>
           pr_mode r = auto_protect_mode_for_class (uf_class f))) \<and>
     (policy = u ''drop_field'' \<longrightarrow> uf_enriched f \<notin> set existing \<longrightarrow>
        (\<exists>r \<in> set (dr_rules res). pr_path r = uf_enriched f \<and> pr_enabled r \<and> pr_mode r = MODE_DROP_FIELD))"

text \<open>Nothing else is done: review entries and rules come from fields whose own policy is the batch action.\<close>

definition nothing_more :: "drift_config \<Rightarrow> ustr list \<Rightarrow> unknown_field list \<Rightarrow> drift_result \<Rightarrow> bool" where
  "nothing_more config existing found res \<longleftrightarrow>
     (\<forall>g \<in> set (dr_review res). \<exists>f \<in> set found. g = f\<lparr>uf_applied := dr_action res\<rparr> \<and>
        configured config f = dr_action res \<and> dr_action res = u ''require_review'') \<and>
     (\<forall>r \<in> set (dr_rules res). pr_path r \<notin> set existing \<and> (\<exists>f \<in> set found. pr_path r = uf_enriched f \<and>
        configured config f = dr_action res \<and> dr_action res \<in> {u ''auto_protect'', u ''drop_field''})) \<and>
     (dr_quarantine res \<longrightarrow> (\<exists>f \<in> set found. configured config f = u ''quarantine''))"

lemma strength_quarantine: "2 \<le> action_strength a \<Longrightarrow> a = u ''quarantine''"
  by (auto simp: action_strength_def split: if_splits)

definition batch_action_of :: "drift_config \<Rightarrow> unknown_field list \<Rightarrow> ustr" where
  "batch_action_of config found = resolve_batch_action (dp_normal config) (dp_sensitive config)
     (list_ex (\<lambda>f. \<not> uf_sensitive f) found) (list_ex uf_sensitive found)"

lemma action_dominates:
  "f \<in> set found \<Longrightarrow> action_strength (configured config f) \<le> action_strength (batch_action_of config found)"
  by (auto simp: batch_action_of_def resolve_strongest configured_def list_ex_iff)

lemma action_quarantine:
  assumes "f \<in> set found" "configured config f = u ''quarantine''"
  shows "batch_action_of config found = u ''quarantine''"
  using action_dominates [OF assms(1), of config] assms(2)
  by (intro strength_quarantine) (simp add: action_strength_def)

lemma action_auto_protect:
  assumes "batch_action_of config found = u ''auto_protect''" "valid_config config"
  shows "dp_sensitive config = u ''auto_protect'' \<and> dp_normal config \<noteq> u ''auto_protect''"
  using assms by (auto simp: batch_action_of_def resolve_strongest valid_config_def UNKNOWN_NORMAL_POLICIES_def
      split: if_splits)

lemma only_configured:
  assumes "found \<noteq> []" "valid_config config"
  shows "nothing_more config existing found (decide_batch config stream_id existing found unresolved)"
proof -
  let ?a = "batch_action_of config found" let ?res = "decide_batch config stream_id existing found unresolved"
  note d = decide_batch_def [of config stream_id existing found unresolved, folded batch_action_of_def]
  have act: "dr_action ?res = ?a" using assms(1) by (simp add: d no_drift_def Let_def)
  have "\<exists>f \<in> set found. g = f\<lparr>uf_applied := ?a\<rparr> \<and> configured config f = ?a \<and> ?a = u ''require_review''" if "g \<in> set (dr_review ?res)" for g
    using that assms(1) by (auto simp: d no_drift_def Let_def with_policy_def configured_def split: if_splits)
  moreover have "pr_path r \<notin> set existing \<and> (\<exists>f \<in> set found. pr_path r = uf_enriched f \<and> configured config f = ?a \<and>
      ?a \<in> {u ''auto_protect'', u ''drop_field''})" if "r \<in> set (dr_rules ?res)" for r
    using that assms(1) by (auto simp: d no_drift_def Let_def ephemeral_rule_def configured_def split: if_splits)
  moreover have "\<exists>f \<in> set found. configured config f = u ''quarantine''" if "dr_quarantine ?res"
  proof -
    have "?a = u ''quarantine''" using that assms(1) by (auto simp: d no_drift_def Let_def split: if_splits)
    then show ?thesis by (auto simp: batch_action_of_def resolve_strongest configured_def list_ex_iff split: if_splits)
  qed
  ultimately show ?thesis unfolding nothing_more_def act by blast
qed

text \<open>
  C22. The decided action is carried out, and nothing else.  For every non-empty list of unknown fields and every
  configuration that can be loaded: no field has a policy stronger than the batch action; a field whose
  policy is quarantine always closes the quarantine gate; every field whose own policy is the batch
  action is handled as that policy says: it is itself listed for review, or the gate is closed, or its path gets an enabled rule of the
  right mode, unless the stream already has a rule for the path, which then stays in charge whatever its mode is.  Conversely,
  review entries, rules and the closed gate come only from fields whose own policy is the batch action.
\<close>

theorem drift_action_enforced:
  fixes config_json stream_id existing unresolved
  assumes "f \<in> set found"
  defines "config \<equiv> load_schema_drift_policy config_json"
  defines "res \<equiv> decide_batch config stream_id existing found unresolved"
  shows "action_strength (configured config f) \<le> action_strength (dr_action res) \<and>
    (configured config f = u ''quarantine'' \<longrightarrow> dr_quarantine res) \<and>
    (configured config f = dr_action res \<longrightarrow> handled existing res f (dr_action res)) \<and>
    nothing_more config existing found res"
proof -
  have ne: "found \<noteq> []" using assms(1) by auto
  note d = decide_batch_def [of config stream_id existing found unresolved, folded batch_action_of_def res_def]
  have v: "valid_config config" by (simp add: config_def load_valid)
  have a: "dr_action res = batch_action_of config found" using ne by (simp add: d no_drift_def Let_def)
  have q: "dr_quarantine res" if "batch_action_of config found = u ''quarantine''"
    using ne that by (simp add: d Let_def)
  have h: "handled existing res f (batch_action_of config found)"
    if e: "configured config f = batch_action_of config found"
  proof -
    consider "batch_action_of config found = u ''require_review''" | "batch_action_of config found = u ''auto_protect''"
      | "batch_action_of config found = u ''drop_field''" | "batch_action_of config found = u ''quarantine''"
      | "batch_action_of config found \<notin> {u ''require_review'', u ''auto_protect'', u ''drop_field'', u ''quarantine''}"
      by blast
    then show ?thesis
    proof cases
      case 1
      moreover have "with_policy config f = f\<lparr>uf_applied := u ''require_review''\<rparr>"
        using e 1 by (simp add: with_policy_def configured_def)
      ultimately show ?thesis using ne e assms(1) by (force simp: handled_def d Let_def)
    next
      case 2
      then have "uf_sensitive f" using action_auto_protect [OF 2 v] e by (auto simp: configured_def split: if_splits)
      with 2 show ?thesis using ne action_auto_protect [OF 2 v] assms(1)
        by (auto simp: handled_def d Let_def ephemeral_rule_def)
    next
      case 3
      then show ?thesis using ne e assms(1) by (auto simp: handled_def d Let_def ephemeral_rule_def)
    next
      case 4
      then show ?thesis using q by (simp add: handled_def)
    qed (simp add: handled_def)
  qed
  show ?thesis using action_dominates [OF assms(1), of config] a q action_quarantine [OF assms(1), of config] h
      only_configured [OF ne v, of existing stream_id unresolved, folded res_def] by auto
qed

text \<open>
  A weaker policy is dropped, not applied.  Unknown plain fields are to be dropped and unknown
  sensitive fields are to be held for review: as soon as a batch has one of each, the batch action is
  to drop the plain field, and for the sensitive fields there is no review entry, no quarantine and no
  rule, so both gates stay open.  Without the plain field the same batch is held for review.
\<close>

lemma drift_review_lost:
  fixes stream_id existing unresolved
  assumes "plain \<in> set found" "\<not> uf_sensitive plain" "secret \<in> set found" "uf_sensitive secret"
    and "\<forall>f \<in> set found. uf_enriched f = uf_enriched secret \<longrightarrow> uf_sensitive f"
  defines "config \<equiv> \<lparr>dp_normal = u ''drop_field'', dp_sensitive = u ''require_review''\<rparr>"
  defines "res \<equiv> decide_batch config stream_id existing found unresolved"
  shows "dr_action res = u ''drop_field'' \<and> dr_review res = [] \<and> \<not> dr_quarantine res \<and>
    (\<forall>r \<in> set (dr_rules res). pr_path r \<noteq> uf_enriched secret) \<and>
    dr_review (decide_batch config stream_id existing (filter uf_sensitive found) unresolved) \<noteq> []"
proof -
  let ?s = "filter uf_sensitive found"
  have "batch_action_of config found = u ''drop_field''" "batch_action_of config ?s = u ''require_review''"
    using assms(1-4) by (auto simp: batch_action_of_def resolve_strongest config_def action_strength_def list_ex_iff)
  moreover have "found \<noteq> []" "?s \<noteq> []" using assms(1-4) by (auto simp: filter_empty_conv)
  moreover have "uf_applied (with_policy config f) = u ''require_review'' \<longleftrightarrow> uf_sensitive f" for f
    by (simp add: configured_def config_def)
  moreover have "configured config f = u ''drop_field'' \<longleftrightarrow> \<not> uf_sensitive f" for f
    by (simp add: configured_def config_def)
  ultimately show ?thesis
    using assms(3,4,5) by (auto simp: res_def decide_batch_def batch_action_of_def [symmetric] no_drift_def Let_def
        ephemeral_rule_def filter_empty_conv)
qed

section \<open>Witnesses\<close>

definition demo_field :: "ustr \<Rightarrow> bool \<Rightarrow> unknown_field" where
  "demo_field path sensitive = \<lparr>uf_extracted = path, uf_enriched = path, uf_finding = 1, uf_sensitive = sensitive,
     uf_class = (if sensitive then u ''pii'' else []), uf_applied = []\<rparr>"

lemma drift_policy_roundtrip_witness:
  "load_schema_drift_policy (JDict (merge_governance_schema_drift_policy []
     [(u ''unknown_normal_field_policy'', JStr (u ''drop_field'')),
      (u ''unknown_sensitive_field_policy'', JStr (u ''auto_protect''))])) =
   \<lparr>dp_normal = u ''drop_field'', dp_sensitive = u ''auto_protect''\<rparr>"
proof -
  have "validate_schema_drift_policy_payload (JDict [(u ''unknown_normal_field_policy'', JStr (u '' drop_field''))]) =
    Inr (Some [(u ''unknown_normal_field_policy'', JStr (u ''drop_field'')),
      (u ''unknown_sensitive_field_policy'', JStr (u ''auto_protect''))])"
  proof -
    have "strip (u '' drop_field'') = u ''drop_field''" "strip (u ''auto_protect'') = u ''auto_protect''"
      by (simp_all add: strip_def u_def is_space_def)
    then show ?thesis
      by (simp add: validate_schema_drift_policy_payload_def dget_default_def py_str_def UNKNOWN_NORMAL_POLICIES_def
          UNKNOWN_SENSITIVE_POLICIES_def Let_def)
  qed
  from drift_policy_roundtrip [OF this, of "[]"] show ?thesis by (simp add: dget_none_def py_str_def)
qed

theorem drift_action_enforced_witness:
  "handled [] (decide_batch (load_schema_drift_policy JNull) 7 [] [demo_field (u ''$.a'') True] [])
     (demo_field (u ''$.a'') True) (u ''auto_protect'')"
proof -
  have a: "dr_action (decide_batch (load_schema_drift_policy JNull) 7 [] [demo_field (u ''$.a'') True] []) = u ''auto_protect''"
    and c: "configured (load_schema_drift_policy JNull) (demo_field (u ''$.a'') True) = u ''auto_protect''"
    by (simp_all add: decide_batch_def resolve_strongest load_schema_drift_policy_def DEFAULT_SCHEMA_DRIFT_POLICY_def
        demo_field_def dget_none_def no_drift_def configured_def Let_def)
  from drift_action_enforced [of "demo_field (u ''$.a'') True" "[demo_field (u ''$.a'') True]" JNull 7 "[]" "[]"]
  show ?thesis by (simp add: a c)
qed

lemma drift_review_lost_witness:
  "dr_review (decide_batch \<lparr>dp_normal = u ''drop_field'', dp_sensitive = u ''require_review''\<rparr> 7 []
     [demo_field (u ''$.a'') False, demo_field (u ''$.b'') True] []) = []"
  using drift_review_lost [of "demo_field (u ''$.a'') False" "[demo_field (u ''$.a'') False, demo_field (u ''$.b'') True]"
    "demo_field (u ''$.b'') True" 7 "[]" "[]"]
  by (simp add: demo_field_def)

end
