(* ===== verification/Precedence.thy ===== *)
theory Precedence
  imports Prelude
begin

text \<open>
  Several components combine independent opinions by taking the most severe one: classification
  levels, delivery behaviours, route policy decisions and AI policy actions.  The contract of such a
  choice, and what follows from it for every one of them.
\<close>

locale strictest =
  fixes score :: "'a \<Rightarrow> nat" and pick :: "'a list \<Rightarrow> 'a" and dflt :: 'a
  assumes bound: "x \<in> set xs \<Longrightarrow> score x \<le> score (pick xs)"
    and chosen: "pick xs \<in> insert dflt (set xs)"
    and lowest: "score dflt \<le> score (pick xs)"
begin

text \<open>An additional opinion never relaxes the result.\<close>

lemma mono: "set xs \<subseteq> set ys \<Longrightarrow> score (pick xs) \<le> score (pick ys)"
  using chosen [of xs] bound [of "pick xs" ys] lowest [of ys] by auto

lemma order_free: "set xs = set ys \<Longrightarrow> score (pick xs) = score (pick ys)"
  by (simp add: mono antisym)

lemma pick_append: "score (pick (xs @ ys)) = max (score (pick xs)) (score (pick ys))"
proof (rule antisym)
  show "score (pick (xs @ ys)) \<le> max (score (pick xs)) (score (pick ys))"
    using chosen [of "xs @ ys"] bound [of "pick (xs @ ys)" xs] bound [of "pick (xs @ ys)" ys] lowest [of xs]
    by auto
  show "max (score (pick xs)) (score (pick ys)) \<le> score (pick (xs @ ys))"
    by (simp add: mono)
qed

lemma below_iff: "score dflt < n \<Longrightarrow> score (pick xs) < n \<longleftrightarrow> (\<forall>x \<in> set xs. score x < n)"
  using chosen [of xs] bound [of _ xs] by (auto dest: le_less_trans)

end

text \<open>When no two different opinions are equally severe, the result is determined as a whole.\<close>

locale strictest_inj = strictest +
  assumes distinct_scores: "inj score"
begin

lemma pick_set_cong: "set xs = set ys \<Longrightarrow> pick xs = pick ys"
  using order_free [of xs ys] distinct_scores by (simp add: inj_eq)

end

text \<open>The loop most of the code uses: keep the first candidate with a strictly higher score.\<close>

fun pick_first :: "('a \<Rightarrow> nat) \<Rightarrow> 'a \<Rightarrow> 'a list \<Rightarrow> 'a" where
  "pick_first score best [] = best"
| "pick_first score best (x # xs) = pick_first score (if score x > score best then x else best) xs"

lemma pick_first_best: "score best \<le> score (pick_first score best xs)"
  by (induction xs arbitrary: best) (auto intro: le_trans less_imp_le)

lemma pick_first_bound: "x \<in> set xs \<Longrightarrow> score x \<le> score (pick_first score best xs)"
proof (induction xs arbitrary: best)
  case (Cons y ys)
  show ?case
  proof (cases "x = y")
    case True
    have "score y \<le> score (if score y > score best then y else best)" by simp
    with True pick_first_best [of score "if score y > score best then y else best" ys] show ?thesis
      by (auto split: if_splits)
  qed (use Cons in auto)
qed simp

lemma pick_first_chosen: "pick_first score best xs \<in> insert best (set xs)"
  by (induction xs arbitrary: best) auto

lemma strictest_pick_first: "strictest score (pick_first score best) best"
  by unfold_locales (rule pick_first_bound pick_first_chosen pick_first_best, assumption?)+

end
