(* ===== verification/Classification.thy ===== *)
theory Classification
  imports Precedence
begin

text \<open>
  Classification of events: \<^verbatim>\<open>app/classification\<close> and the route stage of \<^verbatim>\<open>app/route_classification\<close>.
  A level is a datatype with the order of \<open>_LEVEL_RANK\<close>; \<open>normalize_level\<close> is what turns text into
  one.  Sets of levels and of finding classes are lists here; they are only tested for membership
  and maximum.  Durations and log entries are not modelled.
\<close>

section \<open>Levels\<close>

datatype level = Public | Internal | Confidential | Restricted

definition level_rank :: "level \<Rightarrow> nat" where
  "level_rank l = (case l of Public \<Rightarrow> 0 | Internal \<Rightarrow> 1 | Confidential \<Rightarrow> 2 | Restricted \<Rightarrow> 3)"

lemma level_rank_inj: "level_rank a = level_rank b \<Longrightarrow> a = b"
  by (cases a; cases b) (simp_all add: level_rank_def)

instantiation level :: linorder
begin

definition less_eq_level :: "level \<Rightarrow> level \<Rightarrow> bool" where
  "less_eq_level a b \<longleftrightarrow> level_rank a \<le> level_rank b"

definition less_level :: "level \<Rightarrow> level \<Rightarrow> bool" where
  "less_level a b \<longleftrightarrow> level_rank a < level_rank b"

instance
  by standard (auto simp: less_eq_level_def less_level_def intro: level_rank_inj)

end

definition level_name :: "level \<Rightarrow> ustr" where
  "level_name l = (case l of Public \<Rightarrow> u ''PUBLIC'' | Internal \<Rightarrow> u ''INTERNAL''
     | Confidential \<Rightarrow> u ''CONFIDENTIAL'' | Restricted \<Rightarrow> u ''RESTRICTED'')"

definition normalize_level :: "ustr \<Rightarrow> level option" where
  "normalize_level t = (let raw = upper (strip t) in
     find (\<lambda>l. level_name l = raw) [Public, Internal, Confidential, Restricted])"

text \<open>The loop of \<open>max_level\<close> over the levels that could be read.\<close>

fun best_level :: "level option \<Rightarrow> ustr list \<Rightarrow> level option" where
  "best_level best [] = best"
| "best_level best (t # ts) = (case normalize_level t of
     None \<Rightarrow> best_level best ts
   | Some l \<Rightarrow>
       best_level (case best of None \<Rightarrow> Some l
         | Some b \<Rightarrow> if level_rank l > level_rank b then Some l else Some b) ts)"

definition max_level :: "ustr list \<Rightarrow> level" where
  "max_level levels = (if levels = [] then Internal
     else case best_level None levels of None \<Rightarrow> Public | Some b \<Rightarrow> b)"

definition default_sensitivity_classification :: "ustr \<Rightarrow> level option" where
  "default_sensitivity_classification c =
     (if c = u ''secret'' then Some Restricted
      else if c = u ''pii'' then Some Confidential
      else if c = u ''security_metadata'' then Some Internal else None)"

definition default_level_from_findings :: "ustr list \<Rightarrow> level" where
  "default_level_from_findings classes =
     (if classes = [] then Internal
      else let mapped = List.map_filter default_sensitivity_classification classes
           in if mapped = [] then Internal else max_level (map level_name mapped))"

section \<open>The engine\<close>

record class_rule =
  cr_id :: "int option"
  cr_name :: ustr
  cr_condition :: json
  cr_level :: ustr
  cr_enabled :: bool

definition SUPPORTED_CLASSES :: "ustr list" where
  "SUPPORTED_CLASSES = [u ''secret'', u ''pii'', u ''security_metadata'']"

fun finding_classes :: "json list \<Rightarrow> ustr list" where
  "finding_classes [] = []"
| "finding_classes (f # fs) = (case f of
     JDict d \<Rightarrow> (case dget_none d (u ''sensitivity_class'') of
        JNull \<Rightarrow> finding_classes fs
      | raw \<Rightarrow> List.insert (py_str raw) (finding_classes fs))
   | _ \<Rightarrow> finding_classes fs)"

definition rule_condition_matches :: "json \<Rightarrow> ustr list \<Rightarrow> bool" where
  "rule_condition_matches condition classes = (case condition of
     JDict d \<Rightarrow> (case dget_none d (u ''sensitivity_class'') of
        JNull \<Rightarrow> False
      | required \<Rightarrow> py_str required \<in> set SUPPORTED_CLASSES \<and> py_str required \<in> set classes)
   | _ \<Rightarrow> False)"

definition matched_levels :: "ustr list \<Rightarrow> class_rule list \<Rightarrow> level list" where
  "matched_levels classes rules =
     List.map_filter (\<lambda>r. if rule_condition_matches (cr_condition r) classes
        then normalize_level (cr_level r) else None) (filter cr_enabled rules)"

definition resolve_classification_level :: "ustr list \<Rightarrow> class_rule list \<Rightarrow> level \<times> nat" where
  "resolve_classification_level classes rules =
     (let ls = matched_levels classes rules
      in if ls \<noteq> [] then (max_level (map level_name ls), length ls)
         else (default_level_from_findings classes, 0))"

definition LEVEL_FIELD :: ustr where "LEVEL_FIELD = u ''classification_level''"
definition LEVEL_GDC_FIELD :: ustr where "LEVEL_GDC_FIELD = u ''classification_level_gdc''"

definition read_classification_level :: "dict \<Rightarrow> ustr option" where
  "read_classification_level event =
     (let raw = dget_none event LEVEL_GDC_FIELD;
          raw = (if raw = JNull then dget_none event LEVEL_FIELD else raw)
      in if raw = JNull then None else Some (py_str raw))"

definition stamp_classification_level :: "level \<Rightarrow> dict \<Rightarrow> dict" where
  "stamp_classification_level l event =
     (if dget event LEVEL_FIELD \<noteq> None then dset LEVEL_GDC_FIELD (JStr (level_name l)) event
      else dset LEVEL_FIELD (JStr (level_name l)) event)"

text \<open>Stamping the object events of a batch.\<close>

definition stamp_events :: "level \<Rightarrow> json list \<Rightarrow> json list" where
  "stamp_events l evs = map (\<lambda>ev. case ev of JDict d \<Rightarrow> JDict (stamp_classification_level l d) | _ \<Rightarrow> ev) evs"

record class_result =
  cb_level :: level
  cb_matched :: nat
  cb_classified :: nat

definition classify_batch :: "json list \<Rightarrow> class_rule list \<Rightarrow> json list \<Rightarrow> class_result \<times> json list" where
  "classify_batch events rules findings =
     (if events = [] then (\<lparr>cb_level = Internal, cb_matched = 0, cb_classified = 0\<rparr>, [])
      else case resolve_classification_level (finding_classes findings) rules of
        (l, n) \<Rightarrow> (\<lparr>cb_level = l, cb_matched = n, cb_classified = length (filter is_dict events)\<rparr>,
                   stamp_events l events))"

fun classification_levels_from_events :: "json list \<Rightarrow> level list" where
  "classification_levels_from_events [] = []"
| "classification_levels_from_events (ev # evs) = (case ev of
     JDict d \<Rightarrow> (case Option.bind (read_classification_level d) normalize_level of
        Some l \<Rightarrow> List.insert l (classification_levels_from_events evs)
      | None \<Rightarrow> classification_levels_from_events evs)
   | _ \<Rightarrow> classification_levels_from_events evs)"

section \<open>The route stage\<close>

datatype rule_source = FromRoute | FromStream | FromNowhere

record class_config =
  cc_rules :: "class_rule list"
  cc_override_levels :: "level list"
  cc_source :: rule_source

fun extract_override_levels :: "int \<Rightarrow> dict list \<Rightarrow> level list result" where
  "extract_override_levels rid [] = Inr []"
| "extract_override_levels rid (ov # ovs) =
     rbind (py_int (dget_default ov (u ''route_id'') (JInt (- 1)))) (\<lambda>i.
       if i \<noteq> rid then extract_override_levels rid ovs
       else if \<not> truthy (dget_default ov (u ''enabled'') (JBool True)) then extract_override_levels rid ovs
       else case dget_none ov (u ''classification_level'') of
         JNull \<Rightarrow> extract_override_levels rid ovs
       | raw \<Rightarrow> (case normalize_level (py_str raw) of
           None \<Rightarrow> extract_override_levels rid ovs
         | Some l \<Rightarrow> rbind (extract_override_levels rid ovs) (\<lambda>ls. Inr (l # ls))))"

definition resolve_route_classification_config ::
  "int \<Rightarrow> class_rule list \<Rightarrow> class_rule list \<Rightarrow> dict list \<Rightarrow> class_config result" where
  "resolve_route_classification_config route_id route_rules stream_rules overrides =
     (let rr = filter cr_enabled route_rules; sr = filter cr_enabled stream_rules;
          (rules, src) = (if rr \<noteq> [] then (rr, FromRoute) else if sr \<noteq> [] then (sr, FromStream)
                          else ([], FromNowhere))
      in rbind (extract_override_levels route_id overrides) (\<lambda>ls.
           Inr \<lparr>cc_rules = rules, cc_override_levels = ls, cc_source = src\<rparr>))"

record route_class_result =
  rk_level :: level
  rk_matched :: nat
  rk_source :: rule_source
  rk_override :: bool

definition route_classification_stage ::
  "bool \<Rightarrow> class_config \<Rightarrow> json list \<Rightarrow> json list \<Rightarrow> json list \<times> route_class_result option" where
  "route_classification_stage enabled config findings input_events =
     (if \<not> enabled then (input_events, None)
      else
        let (br, stamped) = classify_batch input_events (cc_rules config) findings;
            effective = (if cc_override_levels config \<noteq> []
              then max_level (map level_name (cb_level br # cc_override_levels config)) else cb_level br);
            override_applied = (cc_override_levels config \<noteq> [] \<and> effective \<noteq> cb_level br)
        in (if override_applied then stamp_events effective stamped else stamped,
            Some \<lparr>rk_level = effective, rk_matched = cb_matched br, rk_source = cc_source config,
                  rk_override = override_applied\<rparr>))"

section \<open>The maximum\<close>

lemma strip_level_name [simp]: "upper (strip (level_name l)) = level_name l"
  by (cases l) (simp_all add: level_name_def strip_def upper_def u_def is_space_def ch_upper_def)

lemma level_name_inj [simp]: "level_name a = level_name b \<longleftrightarrow> a = b"
  by (cases a; cases b) (simp_all add: level_name_def)

lemma normalize_level_name [simp]: "normalize_level (level_name l) = Some l"
  by (cases l) (simp_all add: normalize_level_def)

lemma level_max: "(if level_rank l > level_rank b then l else b) = max b l"
  by (auto simp: max_def less_eq_level_def dest: level_rank_inj)

lemma best_level_Some: "best_level (Some b) (map level_name ls) = Some (foldl max b ls)"
  by (induction ls arbitrary: b) (auto simp: level_max [symmetric])

lemma foldl_max: "foldl max (b :: 'a :: linorder) ls = Max (insert b (set ls))"
proof (induction ls arbitrary: b)
  case (Cons l ls)
  then show ?case by (cases "ls = []") (simp_all add: max.assoc max.left_commute)
qed simp

lemma max_level_names: "ls \<noteq> [] \<Longrightarrow> max_level (map level_name ls) = Max (set ls)"
  by (cases ls) (auto simp: max_level_def best_level_Some foldl_max)

text \<open>The loop is a strictest choice on levels.\<close>

definition loop_level :: "level list \<Rightarrow> level" where
  "loop_level ls = (case best_level None (map level_name ls) of None \<Rightarrow> Public | Some b \<Rightarrow> b)"

lemma loop_level_Max: "loop_level ls = (if ls = [] then Public else Max (set ls))"
  by (cases ls) (auto simp: loop_level_def best_level_Some foldl_max)

interpretation level_pick: strictest_inj level_rank loop_level Public
proof
  fix x :: level and xs ys
  show "x \<in> set xs \<Longrightarrow> level_rank x \<le> level_rank (loop_level xs)"
    using Max_ge [of "set xs" x] by (auto simp: loop_level_Max less_eq_level_def)
  show "loop_level xs \<in> insert Public (set xs)" using Max_in [of "set xs"] by (auto simp: loop_level_Max)
  show "level_rank Public \<le> level_rank (loop_level xs)" by (simp add: level_rank_def)
  show "inj level_rank" by (auto intro: injI level_rank_inj)
qed

section \<open>Stamping\<close>

lemma fields_distinct [simp]: "LEVEL_FIELD \<noteq> LEVEL_GDC_FIELD" "LEVEL_GDC_FIELD \<noteq> LEVEL_FIELD"
  by (simp_all add: LEVEL_FIELD_def LEVEL_GDC_FIELD_def)

text \<open>A source field of its own name keeps its value; the stamp goes to the second field then.\<close>

lemma read_stamp:
  "dget d LEVEL_FIELD \<noteq> None \<or> dget_none d LEVEL_GDC_FIELD = JNull \<Longrightarrow>
   read_classification_level (stamp_classification_level l d) = Some (level_name l)"
  by (auto simp: read_classification_level_def stamp_classification_level_def dget_none_def dict_simps
      py_str_def Let_def)

lemma restamp_has_field: "dget (stamp_classification_level l d) LEVEL_FIELD \<noteq> None"
  by (auto simp: stamp_classification_level_def dict_simps)

text \<open>Events that do not arrive with the second field alone.\<close>

definition unstamped :: "json \<Rightarrow> bool" where
  "unstamped ev = (case ev of
     JDict d \<Rightarrow> dget d LEVEL_FIELD \<noteq> None \<or> dget_none d LEVEL_GDC_FIELD = JNull | _ \<Rightarrow> True)"

lemma levels_of_stamped:
  "\<forall>ev \<in> set evs. unstamped ev \<Longrightarrow>
   set (classification_levels_from_events (stamp_events l evs)) = (if list_ex is_dict evs then {l} else {})"
proof (induction evs)
  case (Cons ev evs)
  then show ?case
    by (cases ev) (auto simp: stamp_events_def is_dict_def unstamped_def read_stamp)
qed (simp add: stamp_events_def)

lemma stamp_events_unstamped: "\<forall>ev \<in> set (stamp_events l evs). unstamped ev"
  using restamp_has_field by (auto simp: stamp_events_def unstamped_def split: json.splits)

lemma stamp_events_length [simp]: "length (stamp_events l evs) = length evs"
  by (simp add: stamp_events_def)

lemma stamp_events_dicts [simp]: "list_ex is_dict (stamp_events l evs) = list_ex is_dict evs"
  by (induction evs) (auto simp: stamp_events_def is_dict_def split: json.splits)

lemma classify_level:
  "evs \<noteq> [] \<Longrightarrow> classify_batch evs rules fs =
     (\<lparr>cb_level = fst (resolve_classification_level (finding_classes fs) rules),
       cb_matched = snd (resolve_classification_level (finding_classes fs) rules),
       cb_classified = length (filter is_dict evs)\<rparr>,
      stamp_events (fst (resolve_classification_level (finding_classes fs) rules)) evs)"
  by (simp add: classify_batch_def split: prod.splits)

definition default_levels :: "ustr list \<Rightarrow> level set" where
  "default_levels classes = set (List.map_filter default_sensitivity_classification classes)"

lemma default_levels_finite [simp]: "finite (default_levels classes)"
  by (simp add: default_levels_def)

lemma default_level_eq:
  "default_level_from_findings cs = (if default_levels cs = {} then Internal else Max (default_levels cs))"
  by (auto simp: default_level_from_findings_def default_levels_def max_level_names map_filter_simps Let_def)

lemma default_levels_mono: "set cs \<subseteq> set ds \<Longrightarrow> default_levels cs \<subseteq> default_levels ds"
  by (auto simp: default_levels_def map_filter_def)

lemma default_levels_low: "l \<in> default_levels cs \<Longrightarrow> Internal \<le> l"
  by (auto simp: default_levels_def map_filter_def default_sensitivity_classification_def less_eq_level_def
      level_rank_def split: if_splits)

lemma default_level_mono:
  assumes "set cs \<subseteq> set ds"
  shows "default_level_from_findings cs \<le> default_level_from_findings ds"
proof (cases "default_levels cs = {}")
  case True
  have "Internal \<le> Max (default_levels ds)" if "default_levels ds \<noteq> {}"
    using default_levels_low [OF Max_in [OF default_levels_finite that]] .
  with True show ?thesis by (simp add: default_level_eq)
next
  case False
  with default_levels_mono [OF assms] have "default_levels ds \<noteq> {}" by auto
  with False Max_mono [OF default_levels_mono [OF assms] False] show ?thesis
    by (simp add: default_level_eq del: Max.bounded_iff)
qed

section \<open>Properties\<close>

text \<open>
  C21. Route overrides are a floor.  With classification enabled, the effective level of a non-empty
  batch is the greatest of the level the engine resolved and all override levels of the route, and
  the levels the policy engine reads from the events that leave the stage are exactly this one,
  provided no event arrives with a \<open>classification_level_gdc\<close> of its own but no
  \<open>classification_level\<close> (for such an event the source chooses what is read).
\<close>

theorem classification_floor:
  assumes "evs \<noteq> []" and "\<forall>ev \<in> set evs. unstamped ev"
    and "route_classification_stage True config findings evs = (out, Some res)"
  shows "rk_level res = Max (insert (fst (resolve_classification_level (finding_classes findings) (cc_rules config)))
           (set (cc_override_levels config))) \<and>
    set (classification_levels_from_events out) = (if list_ex is_dict evs then {rk_level res} else {}) \<and>
    length out = length evs"
proof -
  let ?base = "fst (resolve_classification_level (finding_classes findings) (cc_rules config))"
  define eff where "eff = (if cc_override_levels config \<noteq> []
    then max_level (map level_name (?base # cc_override_levels config)) else ?base)"
  have "eff = Max (set (?base # cc_override_levels config))"
    using max_level_names [of "?base # cc_override_levels config"] by (simp add: eff_def)
  moreover have r: "rk_level res = eff"
    "out = (if cc_override_levels config \<noteq> [] \<and> eff \<noteq> ?base then stamp_events eff (stamp_events ?base evs)
            else stamp_events ?base evs)"
    using assms(1,3) by (cases "cc_override_levels config"; force simp: route_classification_stage_def classify_level
        Let_def eff_def split: if_splits)+
  ultimately have e: "rk_level res = Max (insert ?base (set (cc_override_levels config)))" by simp
  have "out = stamp_events ?base evs \<and> rk_level res = ?base \<or>
        out = stamp_events (rk_level res) (stamp_events ?base evs)"
    using r by (auto simp: eff_def)
  then have "set (classification_levels_from_events out) = (if list_ex is_dict evs then {rk_level res} else {})"
    "length out = length evs"
    by (elim disjE conjE; simp add: levels_of_stamped [OF assms(2)] levels_of_stamped [OF stamp_events_unstamped])+
  with e show ?thesis by blast
qed

text \<open>
  Explicit rules decide, and otherwise the findings do.  The engine's level is the greatest level
  of the enabled rules whose condition matches, and with no such rule the greatest default level of
  the finding classes, which never falls when findings are added.
\<close>

lemma classification_level_resolved:
  "(matched_levels classes rules \<noteq> [] \<longrightarrow>
      resolve_classification_level classes rules =
        (Max (set (matched_levels classes rules)), length (matched_levels classes rules))) \<and>
   (matched_levels classes rules = [] \<longrightarrow>
      fst (resolve_classification_level classes rules) =
        (if default_levels classes = {} then Internal else Max (default_levels classes))) \<and>
   (matched_levels found rules = [] \<longrightarrow> set classes \<subseteq> set found \<longrightarrow> matched_levels classes rules = [] \<longrightarrow>
      fst (resolve_classification_level classes rules) \<le> fst (resolve_classification_level found rules))"
  using default_level_eq default_level_mono
  by (simp add: resolve_classification_level_def max_level_names Let_def)

section \<open>Witnesses\<close>

definition demo_class_config :: class_config where
  "demo_class_config = \<lparr>cc_rules = [], cc_override_levels = [Restricted], cc_source = FromNowhere\<rparr>"

theorem classification_floor_witness:
  "\<exists>out res. route_classification_stage True demo_class_config [] [JDict []] = (out, Some res) \<and>
     rk_level res = Restricted \<and> set (classification_levels_from_events out) = {Restricted}"
proof -
  have "case route_classification_stage True demo_class_config [] [JDict []] of
      (out, Some res) \<Rightarrow> rk_level res = Restricted | _ \<Rightarrow> False" by code_simp
  then obtain out res where r: "route_classification_stage True demo_class_config [] [JDict []] = (out, Some res)"
    "rk_level res = Restricted" by (auto split: prod.splits option.splits)
  from classification_floor [OF _ _ r(1)] r show ?thesis
    by (simp add: unstamped_def dget_none_def is_dict_def)
qed

lemma classification_level_resolved_witness:
  "matched_levels [u ''pii''] [] = [] \<and>
   fst (resolve_classification_level [u ''pii''] []) \<le> fst (resolve_classification_level [u ''secret'', u ''pii''] [])"
proof -
  have m: "matched_levels [u ''pii''] [] = []" "matched_levels [u ''secret'', u ''pii''] [] = []"
    by (simp_all add: matched_levels_def map_filter_simps)
  have "set [u ''pii''] \<subseteq> set [u ''secret'', u ''pii'']" by simp
  with classification_level_resolved [of "[u ''pii'']" "[]" "[u ''secret'', u ''pii'']"] m show ?thesis by blast
qed

end
