(* ===== verification/Route_Policy.thy ===== *)
theory Route_Policy
  imports Drift_Policy Classification
begin

text \<open>
  The policy stage of a route: \<^verbatim>\<open>app/route_policy\<close>, the batch evaluation of
  \<^verbatim>\<open>app/protection/policy_engine.py\<close> and the quarantine records of \<^verbatim>\<open>app/quarantine\<close>.  Rules,
  governance delivery behaviours and schema drift gates are merged into one decision; a quarantine
  decision is recorded before the stage returns.  What a database session does when the record is
  written is an argument (\<open>qdb\<close>); time stamps, log entries and notifications are not modelled.  The
  condition column of a rule holds an object.
\<close>

section \<open>The policy engine\<close>

record policy_rule =
  po_id :: "int option"
  po_name :: ustr
  po_condition :: dict
  po_action :: ustr
  po_enabled :: bool

record policy_item =
  pi_id :: int
  pi_matched :: bool
  pi_name :: ustr
  pi_action :: ustr

record policy_batch =
  pl_items :: "policy_item list"
  pl_names :: "ustr list"
  pl_count :: nat
  pl_matched :: nat
  pl_audit :: nat

definition POLICY_ACTION_AUDIT_ONLY :: ustr where "POLICY_ACTION_AUDIT_ONLY = u ''audit_only''"
definition POLICY_ACTION_QUARANTINE :: ustr where "POLICY_ACTION_QUARANTINE = u ''quarantine''"

definition no_policy :: policy_batch where
  "no_policy = \<lparr>pl_items = [], pl_names = [], pl_count = 0, pl_matched = 0, pl_audit = 0\<rparr>"

definition condition_matches :: "json \<Rightarrow> ustr list \<Rightarrow> level list \<Rightarrow> bool" where
  "condition_matches condition classes levels = (case condition of
     JDict d \<Rightarrow>
       (case dget_none d (u ''classification_level'') of
          JNull \<Rightarrow>
            (case dget_none d (u ''sensitivity_class'') of
               JNull \<Rightarrow> False
             | required \<Rightarrow> py_str required \<in> set SUPPORTED_CLASSES \<and> py_str required \<in> set classes)
        | required_level \<Rightarrow>
            (case normalize_level (py_str required_level) of
               None \<Rightarrow> False | Some l \<Rightarrow> l \<in> set levels))
   | _ \<Rightarrow> False)"

definition evaluate_rule :: "ustr list \<Rightarrow> level list \<Rightarrow> policy_rule \<Rightarrow> policy_item" where
  "evaluate_rule classes levels r =
     \<lparr>pi_id = (case po_id r of Some i \<Rightarrow> i | None \<Rightarrow> 0),
      pi_matched = condition_matches (JDict (po_condition r)) classes levels,
      pi_name = po_name r, pi_action = po_action r\<rparr>"

definition evaluate_injected_policy_batch :: "policy_rule list \<Rightarrow> json list \<Rightarrow> json list \<Rightarrow> policy_batch" where
  "evaluate_injected_policy_batch rules events findings =
     (if events = [] then no_policy
      else
        let enabled = filter po_enabled rules
        in if enabled = [] then no_policy
           else
             let items = map (evaluate_rule (finding_classes findings) (classification_levels_from_events events)) enabled;
                 matched = filter pi_matched items
             in \<lparr>pl_items = items, pl_names = map pi_name matched, pl_count = length enabled,
                 pl_matched = length matched,
                 pl_audit = length (filter (\<lambda>i. pi_action i = POLICY_ACTION_AUDIT_ONLY) matched)\<rparr>)"

section \<open>Delivery behaviours\<close>

datatype behavior = Continue | Block_Delivery | Quarantine_Delivery | Review_Delivery

definition DELIVERY_BEHAVIOR_ALIASES :: "(ustr \<times> behavior) list" where
  "DELIVERY_BEHAVIOR_ALIASES =
     [(u ''continue'', Continue), (u ''continue_delivery'', Continue), (u ''allow'', Continue),
      (u ''block'', Block_Delivery), (u ''quarantine'', Quarantine_Delivery),
      (u ''require_review'', Review_Delivery), (u ''review'', Review_Delivery)]"

definition normalize_delivery_behavior :: "json \<Rightarrow> behavior option" where
  "normalize_delivery_behavior raw =
     (if raw = JNull then None else dget DELIVERY_BEHAVIOR_ALIASES (lower (strip (py_str raw))))"

definition behavior_precedence :: "behavior option \<Rightarrow> nat" where
  "behavior_precedence b = (case b of None \<Rightarrow> 0 | Some Continue \<Rightarrow> 1 | Some Review_Delivery \<Rightarrow> 2
     | Some Block_Delivery \<Rightarrow> 3 | Some Quarantine_Delivery \<Rightarrow> 4)"

definition pick_most_restrictive :: "behavior list \<Rightarrow> behavior option" where
  "pick_most_restrictive candidates = pick_first behavior_precedence None (map Some candidates)"

definition is_enabled :: "dict \<Rightarrow> bool" where
  "is_enabled d = truthy (dget_default d (u ''enabled'') (JBool True))"

text \<open>The behaviours of the enabled overrides of a route, in order.\<close>

fun override_behaviors :: "int \<Rightarrow> dict list \<Rightarrow> behavior list result" where
  "override_behaviors rid [] = Inr []"
| "override_behaviors rid (ov # ovs) =
     rbind (py_int (dget_default ov (u ''route_id'') (JInt (- 1)))) (\<lambda>i.
     rbind (override_behaviors rid ovs) (\<lambda>bs.
       Inr (if i \<noteq> rid \<or> \<not> is_enabled ov then bs
            else case normalize_delivery_behavior (dget_none ov (u ''delivery_behavior'')) of
              None \<Rightarrow> bs | Some b \<Rightarrow> b # bs)))"

definition extract_route_override_delivery_behavior :: "dict list \<Rightarrow> int \<Rightarrow> behavior option result" where
  "extract_route_override_delivery_behavior overrides route_id =
     rbind (override_behaviors route_id overrides) (\<lambda>bs. Inr (pick_most_restrictive bs))"

definition extract_stream_default_delivery_behavior :: "dict list \<Rightarrow> behavior option" where
  "extract_stream_default_delivery_behavior rules = pick_most_restrictive
     (List.map_filter (\<lambda>r. normalize_delivery_behavior (dget_none r (u ''default_delivery_behavior'')))
        (filter is_enabled rules))"

definition resolve_effective_delivery_behavior :: "int \<Rightarrow> dict list \<Rightarrow> dict list \<Rightarrow> behavior option result" where
  "resolve_effective_delivery_behavior route_id overrides rules =
     rbind (extract_route_override_delivery_behavior overrides route_id) (\<lambda>b.
       Inr (if b \<noteq> None then b else extract_stream_default_delivery_behavior rules))"

definition has_active_delivery_behavior_gates :: "dict list \<Rightarrow> dict list \<Rightarrow> bool" where
  "has_active_delivery_behavior_gates overrides rules \<longleftrightarrow>
     list_ex (\<lambda>ov. is_enabled ov \<and> normalize_delivery_behavior (dget_none ov (u ''delivery_behavior'')) \<noteq> None) overrides \<or>
     list_ex (\<lambda>r. is_enabled r \<and>
       normalize_delivery_behavior (dget_none r (u ''default_delivery_behavior'')) \<noteq> None) rules"

section \<open>Drift gates and configuration\<close>

text \<open>The first override of the route with a behaviour; the loop stops there.\<close>

fun first_override_behavior :: "int \<Rightarrow> dict list \<Rightarrow> behavior option result" where
  "first_override_behavior rid [] = Inr None"
| "first_override_behavior rid (ov # ovs) =
     rbind (py_int (dget_default ov (u ''route_id'') (JInt (- 1)))) (\<lambda>i.
       if i \<noteq> rid \<or> \<not> is_enabled ov then first_override_behavior rid ovs
       else case normalize_delivery_behavior (dget_none ov (u ''delivery_behavior'')) of
         None \<Rightarrow> first_override_behavior rid ovs | Some b \<Rightarrow> Inr (Some b))"

definition derive_drift_gates :: "drift_result option \<Rightarrow> int \<Rightarrow> dict list \<Rightarrow> (bool \<times> bool) result" where
  "derive_drift_gates drift route_id overrides =
     (let quarantine = (case drift of None \<Rightarrow> False | Some d \<Rightarrow> dr_quarantine d);
          review = (case drift of None \<Rightarrow> False
                    | Some d \<Rightarrow> dr_action d = u ''require_review'' \<or> dr_review d \<noteq> [])
      in rbind (first_override_behavior route_id overrides) (\<lambda>b.
           Inr (review \<or> b = Some Review_Delivery, quarantine \<or> b = Some Quarantine_Delivery)))"

record policy_config =
  pc_rules :: "policy_rule list"
  pc_behavior :: "behavior option"
  pc_source :: rule_source
  pc_overrides :: nat
  pc_fallback :: bool
  pc_drift_review :: bool
  pc_drift_quarantine :: bool

definition policy_config_empty :: "policy_config \<Rightarrow> bool" where
  "policy_config_empty c \<longleftrightarrow> pc_rules c = [] \<and> pc_behavior c = None \<and> \<not> pc_drift_review c \<and> \<not> pc_drift_quarantine c"

definition resolve_route_policy_config ::
  "int \<Rightarrow> policy_rule list \<Rightarrow> policy_rule list \<Rightarrow> dict list \<Rightarrow> dict list \<Rightarrow> drift_result option
     \<Rightarrow> policy_config result" where
  "resolve_route_policy_config route_id route_rules stream_rules overrides governance drift =
     (let rr = filter po_enabled route_rules; sr = filter po_enabled stream_rules;
          (rules, src) = (if rr \<noteq> [] then (rr, FromRoute) else if sr \<noteq> [] then (sr, FromStream)
                          else ([], FromNowhere))
      in rbind (resolve_effective_delivery_behavior route_id overrides governance) (\<lambda>b.
         rbind (derive_drift_gates drift route_id overrides) (\<lambda>(review, quarantine).
         rbind (override_behaviors route_id overrides) (\<lambda>bs.
           Inr \<lparr>pc_rules = rules, pc_behavior = b, pc_source = src, pc_overrides = length bs,
                pc_fallback = (src = FromStream), pc_drift_review = review, pc_drift_quarantine = quarantine\<rparr>))))"

section \<open>The decision\<close>

datatype decision = Allow | Audit | Require_Review | Block | Quarantine

definition decision_precedence :: "decision \<Rightarrow> nat" where
  "decision_precedence d = (case d of Allow \<Rightarrow> 1 | Audit \<Rightarrow> 2 | Require_Review \<Rightarrow> 3 | Block \<Rightarrow> 4 | Quarantine \<Rightarrow> 5)"

definition pick_strongest :: "decision list \<Rightarrow> decision" where
  "pick_strongest candidates = (case candidates of [] \<Rightarrow> Allow
     | c # cs \<Rightarrow> pick_first decision_precedence c cs)"

definition matched_quarantine_evaluations :: "policy_batch \<Rightarrow> policy_item list" where
  "matched_quarantine_evaluations res = filter (\<lambda>i. pi_matched i \<and> pi_action i = POLICY_ACTION_QUARANTINE) (pl_items res)"

definition audit_matches :: "policy_batch \<Rightarrow> policy_item list" where
  "audit_matches res = filter (\<lambda>i. pi_matched i \<and> pi_action i = POLICY_ACTION_AUDIT_ONLY) (pl_items res)"

text \<open>The candidates with the reason each of them adds.\<close>

definition decision_candidates :: "policy_batch \<Rightarrow> policy_config \<Rightarrow> (decision \<times> ustr) list" where
  "decision_candidates res c =
     (if matched_quarantine_evaluations res \<noteq> [] then [(Quarantine, u ''matched_policy_quarantine'')] else []) @
     (if audit_matches res \<noteq> [] then [(Audit, u ''matched_policy_audit'')] else []) @
     (case pc_behavior c of
        Some Block_Delivery \<Rightarrow> [(Block, u ''delivery_behavior_block'')]
      | Some Quarantine_Delivery \<Rightarrow> [(Quarantine, u ''delivery_behavior_quarantine'')]
      | Some Review_Delivery \<Rightarrow> [(Require_Review, u ''delivery_behavior_require_review'')]
      | _ \<Rightarrow> []) @
     (if pc_drift_quarantine c then [(Quarantine, u ''schema_drift_quarantine'')] else []) @
     (if pc_drift_review c then [(Require_Review, u ''schema_drift_require_review'')] else [])"

definition merge_route_policy_decision :: "policy_batch \<Rightarrow> policy_config \<Rightarrow> decision \<times> ustr" where
  "merge_route_policy_decision res c =
     (let cands = decision_candidates res c;
          reasons = (if cands = [] then [u ''default_allow''] else map snd cands)
      in (pick_strongest (Allow # map fst cands), join_with (u '';'') reasons))"

definition delivery_allowed_for_decision :: "decision \<Rightarrow> bool" where
  "delivery_allowed_for_decision d \<longleftrightarrow> d \<in> {Allow, Audit}"

section \<open>Quarantine records\<close>

record quarantine_row =
  qr_id :: int
  qr_stream :: int
  qr_route :: int
  qr_destination :: int
  qr_reason :: ustr
  qr_payload :: "json list"
  qr_decision_reason :: ustr
  qr_behavior :: "behavior option"
  qr_level :: "level option"
  qr_drift :: bool
  qr_policies :: "(int \<times> ustr) list"

text \<open>
  A session: whether one can be opened, whether adding and flushing the row works and which id it
  gets, whether the log row about it is written, and whether the commit at the end works.
\<close>

record qdb =
  qd_open :: bool
  qd_flush :: "int option"
  qd_log :: bool
  qd_commit :: bool

definition MAX_EVENTS :: nat where "MAX_EVENTS = 500"

definition snapshot_events :: "json list \<Rightarrow> json list" where
  "snapshot_events events = filter is_dict (take MAX_EVENTS events)"

definition build_quarantine_reason :: "policy_batch \<Rightarrow> ustr" where
  "build_quarantine_reason res =
     (case matched_quarantine_evaluations res of
        [] \<Rightarrow> u ''policy:unknown''
      | i # is \<Rightarrow>
          (let names = filter (\<lambda>n. n \<noteq> []) (map pi_name (i # is))
           in if names \<noteq> [] then u ''policy:'' @ join_with (u '','') names
              else u ''policy:rule_'' @ int_str (pi_id i)))"

text \<open>The row to write, or none when there is no reason or no object event to keep.\<close>

definition quarantine_row_for ::
  "int \<Rightarrow> int \<Rightarrow> int \<Rightarrow> json list \<Rightarrow> policy_batch \<Rightarrow> ustr \<Rightarrow> level option \<Rightarrow> behavior option \<Rightarrow> bool
     \<Rightarrow> int \<Rightarrow> quarantine_row option" where
  "quarantine_row_for stream_id route_id destination_id events res decision_reason level behavior drift new_id =
     (let matched = matched_quarantine_evaluations res; payload = snapshot_events events
      in if matched = [] \<and> \<not> drift \<and> behavior \<noteq> Some Quarantine_Delivery then None
         else if payload = [] then None
         else Some \<lparr>qr_id = new_id, qr_stream = stream_id, qr_route = route_id, qr_destination = destination_id,
           qr_reason = take 256 (if matched \<noteq> [] then build_quarantine_reason res
             else if drift then u ''policy:drift_quarantine:'' @ decision_reason
             else u ''policy:delivery_behavior_quarantine:'' @ decision_reason),
           qr_payload = payload, qr_decision_reason = decision_reason, qr_behavior = behavior, qr_level = level,
           qr_drift = drift, qr_policies = map (\<lambda>i. (pi_id i, pi_name i)) matched\<rparr>)"

text \<open>
  The row is flushed first, then the log row about it; both belong to the transaction of the session.  When the second
  flush fails, the session has lost its transaction, and with it the first row, and no row is returned.
\<close>

definition record_route_policy_quarantine_event ::
  "qdb \<Rightarrow> int \<Rightarrow> int \<Rightarrow> int \<Rightarrow> json list \<Rightarrow> policy_batch \<Rightarrow> ustr \<Rightarrow> level option \<Rightarrow> behavior option \<Rightarrow> bool
     \<Rightarrow> quarantine_row list \<Rightarrow> quarantine_row option \<times> quarantine_row list" where
  "record_route_policy_quarantine_event q stream_id route_id destination_id events res decision_reason level
     behavior drift store =
     (case qd_flush q of
        None \<Rightarrow> (None, store)
      | Some new_id \<Rightarrow>
          (case quarantine_row_for stream_id route_id destination_id events res decision_reason level behavior drift new_id of
             None \<Rightarrow> (None, store)
           | Some row \<Rightarrow> if qd_log q then (Some row, store @ [row]) else (None, store)))"

definition SCHEMA_DRIFT_VIRTUAL_POLICY_ID :: int where "SCHEMA_DRIFT_VIRTUAL_POLICY_ID = 0"

definition merge_schema_drift_quarantine :: "policy_batch \<Rightarrow> ustr \<Rightarrow> ustr list \<Rightarrow> policy_batch" where
  "merge_schema_drift_quarantine res policy_type field_paths =
     (if field_paths = [] then res
      else
        let virtual = \<lparr>pi_id = SCHEMA_DRIFT_VIRTUAL_POLICY_ID, pi_matched = True,
              pi_name = u ''schema_drift:'' @ policy_type, pi_action = POLICY_ACTION_QUARANTINE\<rparr>;
            items = pl_items res @ [virtual]
        in res\<lparr>pl_items := items, pl_names := pl_names res @ [pi_name virtual],
               pl_matched := length (filter pi_matched items)\<rparr>)"

definition drift_field_paths :: "drift_result option \<Rightarrow> ustr list" where
  "drift_field_paths drift = (case drift of
     None \<Rightarrow> []
   | Some d \<Rightarrow>
       (let chosen = map uf_enriched (filter (\<lambda>f. uf_applied f = u ''quarantine'') (dr_unknown d))
        in filter (\<lambda>p. p \<noteq> [])
             (if chosen = [] then filter (\<lambda>p. p \<noteq> []) (map uf_enriched (dr_unknown d)) else chosen)))"

section \<open>The stage\<close>

record policy_result =
  ps_decision :: decision
  ps_matched :: nat
  ps_source :: rule_source
  ps_allowed :: bool
  ps_recorded :: bool
  ps_review :: bool
  ps_override :: bool
  ps_reason :: ustr
  ps_event_id :: "int option"

text \<open>
  Recording in \<open>stage_persistence_session\<close>: with a session of the caller (\<open>own\<close>) the row joins its
  transaction; otherwise a session is opened and committed, and nothing is kept when it fails.
\<close>

definition persist_quarantine ::
  "qdb \<Rightarrow> bool \<Rightarrow> int \<Rightarrow> (quarantine_row list \<Rightarrow> quarantine_row option \<times> quarantine_row list)
     \<Rightarrow> quarantine_row list \<Rightarrow> (stage_exc + quarantine_row) \<times> quarantine_row list" where
  "persist_quarantine q own route_id rec store =
     (if \<not> own \<and> \<not> qd_open q then (Inl (QuarantinePersistenceError route_id), store)
      else case rec store of
        (None, store1) \<Rightarrow> (Inl (QuarantinePersistenceError route_id), if own then store1 else store)
      | (Some row, store1) \<Rightarrow>
          if own \<or> qd_commit q then (Inr row, store1) else (Inl (QuarantinePersistenceError route_id), store))"

definition policy_outcome :: "policy_config \<Rightarrow> decision \<Rightarrow> ustr \<Rightarrow> policy_batch \<Rightarrow> int option \<Rightarrow> policy_result" where
  "policy_outcome c decision reason res event_id =
     \<lparr>ps_decision = decision, ps_matched = pl_matched res, ps_source = pc_source c,
      ps_allowed = delivery_allowed_for_decision decision, ps_recorded = (event_id \<noteq> None),
      ps_review = (decision = Require_Review), ps_override = (pc_behavior c \<noteq> None), ps_reason = reason,
      ps_event_id = event_id\<rparr>"

definition evaluate_route_policy :: "policy_config \<Rightarrow> json list \<Rightarrow> json list \<Rightarrow> policy_batch" where
  "evaluate_route_policy c events findings =
     (if events \<noteq> [] \<and> (pc_rules c \<noteq> [] \<or> \<not> policy_config_empty c)
      then evaluate_injected_policy_batch (pc_rules c) events findings else no_policy)"

definition route_policy_stage ::
  "qdb \<Rightarrow> bool \<Rightarrow> bool \<Rightarrow> int \<Rightarrow> int \<Rightarrow> int \<Rightarrow> json list \<Rightarrow> json list \<Rightarrow> level option
     \<Rightarrow> policy_rule list \<Rightarrow> policy_rule list \<Rightarrow> dict list \<Rightarrow> dict list \<Rightarrow> drift_result option \<Rightarrow> quarantine_row list
     \<Rightarrow> (stage_exc + json list \<times> policy_result \<times> policy_config) \<times> quarantine_row list" where
  "route_policy_stage q own preview_only stream_id route_id destination_id events findings level
     route_rules stream_rules overrides governance drift store =
     (case resolve_route_policy_config route_id route_rules stream_rules overrides governance drift of
        Inl e \<Rightarrow> (Inl (StageFailure e), store)
      | Inr c \<Rightarrow>
          (let res = evaluate_route_policy c events findings;
               (decision, reason) = merge_route_policy_decision res c;
               allowed = delivery_allowed_for_decision decision;
               out = (if allowed then events else [])
           in if decision = Quarantine \<and> events \<noteq> [] \<and> \<not> preview_only then
                (let drift_only = (matched_quarantine_evaluations res = [] \<and> pc_drift_quarantine c);
                     qtype = (case drift of Some d \<Rightarrow> (case dr_quarantine_type d of
                                 Some t \<Rightarrow> if t = [] then u ''unknown_normal'' else t | None \<Rightarrow> u ''unknown_normal'')
                              | None \<Rightarrow> u ''unknown_normal'');
                     res1 = (if drift_only then merge_schema_drift_quarantine res qtype (drift_field_paths drift) else res)
                 in case persist_quarantine q own route_id
                           (record_route_policy_quarantine_event q stream_id route_id destination_id events res1 reason
                              level (pc_behavior c) drift_only) store of
                      (Inl e, store1) \<Rightarrow> (Inl e, store1)
                    | (Inr row, store1) \<Rightarrow>
                        (Inr (out, policy_outcome c decision reason res1 (Some (qr_id row)), c), store1))
              else (Inr (out, policy_outcome c decision reason res None, c), store)))"

section \<open>The choices\<close>

lemma behavior_precedence_inj: "inj behavior_precedence"
  by (rule injI) (auto simp: behavior_precedence_def split: option.splits behavior.splits)

interpretation behavior_pick: strictest_inj behavior_precedence "pick_first behavior_precedence None" None
  by (intro strictest_inj.intro strictest_pick_first strictest_inj_axioms.intro behavior_precedence_inj)

lemma decision_precedence_inj: "inj decision_precedence"
  by (rule injI) (auto simp: decision_precedence_def split: decision.splits)

lemma decision_lowest: "decision_precedence Allow \<le> decision_precedence d"
  by (cases d) (simp_all add: decision_precedence_def)

interpretation decision_pick: strictest_inj decision_precedence pick_strongest Allow
proof
  fix x :: decision and xs
  show "x \<in> set xs \<Longrightarrow> decision_precedence x \<le> decision_precedence (pick_strongest xs)"
    using pick_first_bound [of x _ decision_precedence] pick_first_best [of decision_precedence]
    by (cases xs) (auto simp: pick_strongest_def)
  show "pick_strongest xs \<in> insert Allow (set xs)"
    using pick_first_chosen [of decision_precedence] by (cases xs) (auto simp: pick_strongest_def)
  show "decision_precedence Allow \<le> decision_precedence (pick_strongest xs)" by (rule decision_lowest)
  show "inj decision_precedence" by (rule decision_precedence_inj)
qed

lemma allowed_below: "delivery_allowed_for_decision d \<longleftrightarrow> decision_precedence d < 3"
  by (cases d) (simp_all add: delivery_allowed_for_decision_def decision_precedence_def)

lemma candidate_iff:
  "d \<in> fst ` set (decision_candidates res c) \<longleftrightarrow> (case d of
     Allow \<Rightarrow> False
   | Audit \<Rightarrow> audit_matches res \<noteq> []
   | Require_Review \<Rightarrow> pc_behavior c = Some Review_Delivery \<or> pc_drift_review c
   | Block \<Rightarrow> pc_behavior c = Some Block_Delivery
   | Quarantine \<Rightarrow> matched_quarantine_evaluations res \<noteq> [] \<or> pc_drift_quarantine c \<or>
       pc_behavior c = Some Quarantine_Delivery)"
proof (cases "pc_behavior c")
  case None
  then show ?thesis by (cases d) (auto simp: decision_candidates_def split: if_splits)
next
  case (Some b)
  then show ?thesis by (cases b; cases d) (auto simp: decision_candidates_def split: if_splits)
qed

lemma merged_below:
  assumes "1 < n"
  shows "decision_precedence (fst (merge_route_policy_decision res c)) < n \<longleftrightarrow>
    (\<forall>d \<in> fst ` set (decision_candidates res c). decision_precedence d < n)"
  using assms decision_pick.below_iff [of n "Allow # map fst (decision_candidates res c)"]
  by (simp add: merge_route_policy_decision_def Let_def decision_precedence_def [of Allow])

lemma all_decisions: "(\<forall>d. P d) \<longleftrightarrow> P Allow \<and> P Audit \<and> P Require_Review \<and> P Block \<and> P Quarantine"
  by (metis decision.exhaust)

lemma merged_allowed:
  "delivery_allowed_for_decision (fst (merge_route_policy_decision res c)) \<longleftrightarrow>
   matched_quarantine_evaluations res = [] \<and> \<not> pc_drift_quarantine c \<and> \<not> pc_drift_review c \<and>
   pc_behavior c \<notin> {Some Block_Delivery, Some Quarantine_Delivery, Some Review_Delivery}"
proof -
  have "(1 :: nat) < 3" by simp
  then show ?thesis
    unfolding allowed_below merged_below [OF \<open>1 < 3\<close>] Ball_def candidate_iff all_decisions
    by (auto simp: decision_precedence_def)
qed

lemma merged_quarantine:
  "fst (merge_route_policy_decision res c) = Quarantine \<longleftrightarrow>
   matched_quarantine_evaluations res \<noteq> [] \<or> pc_drift_quarantine c \<or> pc_behavior c = Some Quarantine_Delivery"
proof -
  have q: "d = Quarantine \<longleftrightarrow> \<not> decision_precedence d < 5" for d
    by (cases d) (simp_all add: decision_precedence_def)
  have "(1 :: nat) < 5" by simp
  show ?thesis
    unfolding q merged_below [OF \<open>1 < 5\<close>] Ball_def candidate_iff all_decisions
    by (auto simp: decision_precedence_def)
qed

section \<open>The stage\<close>

lemma evaluated_items:
  "pl_items (evaluate_route_policy c events findings) =
     (if events = [] then [] else map (evaluate_rule (finding_classes findings) (classification_levels_from_events events))
        (filter po_enabled (pc_rules c)))"
  by (auto simp: evaluate_route_policy_def evaluate_injected_policy_batch_def no_policy_def Let_def)

lemma resolved_enabled:
  "resolve_route_policy_config rid rr sr ovs gov drift = Inr c \<Longrightarrow> r \<in> set (pc_rules c) \<Longrightarrow> po_enabled r"
  by (auto simp: resolve_route_policy_config_def Let_def rbind_Inr_iff split: if_splits)

text \<open>A returning stage, unfolded once: what it decided and what it recorded.\<close>

lemma policy_stage_cases:
  assumes "route_policy_stage q own preview sid rid did events findings level rr sr ovs gov drift store =
    (Inr (out, pres, c), store')"
  obtains (quiet) res where "res = evaluate_route_policy c events findings"
      "resolve_route_policy_config rid rr sr ovs gov drift = Inr c"
      "ps_decision pres = fst (merge_route_policy_decision res c)" "store' = store"
      "ps_decision pres \<noteq> Quarantine \<or> events = [] \<or> preview" "\<not> ps_recorded pres"
      "ps_allowed pres = delivery_allowed_for_decision (ps_decision pres)"
      "out = (if ps_allowed pres then events else [])"
    | (recorded) res row where "res = evaluate_route_policy c events findings"
      "resolve_route_policy_config rid rr sr ovs gov drift = Inr c"
      "ps_decision pres = fst (merge_route_policy_decision res c)" "store' = store @ [row]"
      "ps_decision pres = Quarantine" "events \<noteq> []" "\<not> preview" "ps_recorded pres" "\<not> ps_allowed pres"
      "qr_payload row = snapshot_events events" "qr_route row = rid" "qr_stream row = sid" "qr_destination row = did"
      "ps_event_id pres = Some (qr_id row)" "out = []" "own \<or> qd_open q \<and> qd_commit q"
proof -
  from assms have c: "resolve_route_policy_config rid rr sr ovs gov drift = Inr c"
    by (auto simp: route_policy_stage_def Let_def split: sum.splits prod.splits if_splits)
  define res where "res = evaluate_route_policy c events findings"
  obtain d reason where m: "merge_route_policy_decision res c = (d, reason)" by (metis prod.exhaust)
  show thesis
  proof (cases "d = Quarantine \<and> events \<noteq> [] \<and> \<not> preview")
    case False
    with assms c m show thesis
      by (intro quiet [of res]) (auto simp: route_policy_stage_def res_def [symmetric] policy_outcome_def Let_def)
  next
    case True
    with assms c m obtain res1 drift_only row where
      p: "persist_quarantine q own rid (record_route_policy_quarantine_event q sid rid did events res1 reason
            level (pc_behavior c) drift_only) store = (Inr row, store')"
      and o: "out = (if delivery_allowed_for_decision Quarantine then events else [])"
        "pres = policy_outcome c Quarantine reason res1 (Some (qr_id row))"
      by (auto simp: route_policy_stage_def res_def [symmetric] Let_def split: sum.splits prod.splits)
    from p have "store' = store @ [row]" "qr_payload row = snapshot_events events" "qr_route row = rid"
      "qr_stream row = sid" "qr_destination row = did" "own \<or> qd_open q \<and> qd_commit q"
      by (auto simp: persist_quarantine_def record_route_policy_quarantine_event_def quarantine_row_for_def Let_def
          split: if_splits option.splits prod.splits)
    with True m o c show thesis
      by (intro recorded [of res row]) (auto simp: res_def policy_outcome_def delivery_allowed_for_decision_def)
  qed
qed

lemma gate_exact:
  assumes "route_policy_stage q own preview sid rid did events findings level rr sr ovs gov drift store =
    (Inr (out, pres, c), store')"
  shows "(ps_allowed pres \<longleftrightarrow>
      (events \<noteq> [] \<longrightarrow> (\<forall>r \<in> set (pc_rules c). po_action r = POLICY_ACTION_QUARANTINE \<longrightarrow>
         \<not> condition_matches (JDict (po_condition r)) (finding_classes findings)
             (classification_levels_from_events events))) \<and>
      pc_behavior c \<notin> {Some Block_Delivery, Some Quarantine_Delivery, Some Review_Delivery} \<and>
      \<not> pc_drift_review c \<and> \<not> pc_drift_quarantine c) \<and>
    out = (if ps_allowed pres then events else [])"
proof -
  define res where "res = evaluate_route_policy c events findings"
  have "resolve_route_policy_config rid rr sr ovs gov drift = Inr c"
    "ps_allowed pres = delivery_allowed_for_decision (fst (merge_route_policy_decision res c))"
    "out = (if ps_allowed pres then events else [])"
    using assms by (cases rule: policy_stage_cases; simp add: res_def delivery_allowed_for_decision_def)+
  moreover have "matched_quarantine_evaluations res = [] \<longleftrightarrow>
      (events \<noteq> [] \<longrightarrow> (\<forall>r \<in> set (pc_rules c). po_action r = POLICY_ACTION_QUARANTINE \<longrightarrow>
         \<not> condition_matches (JDict (po_condition r)) (finding_classes findings)
             (classification_levels_from_events events)))"
    using resolved_enabled [OF calculation(1)]
    by (auto simp: matched_quarantine_evaluations_def res_def evaluated_items evaluate_rule_def filter_empty_conv)
  ultimately show ?thesis unfolding merged_allowed by blast
qed

text \<open>
  C23. The gate is exact.  When the policy stage of a route returns, the events go on unchanged exactly
  when no enabled quarantine rule of the route matches the batch, the delivery behaviour of the route
  does not hold them back and neither schema drift gate is closed; otherwise no event goes on.
\<close>

theorem policy_gate_exact:
  assumes "route_policy_stage q own preview sid rid did events findings level rr sr ovs gov drift store =
    (Inr (out, pres, c), store')"
  shows "(ps_allowed pres \<longleftrightarrow>
      (events \<noteq> [] \<longrightarrow> (\<forall>r \<in> set (pc_rules c). po_action r = POLICY_ACTION_QUARANTINE \<longrightarrow>
         \<not> condition_matches (JDict (po_condition r)) (finding_classes findings)
             (classification_levels_from_events events))) \<and>
      pc_behavior c \<notin> {Some Block_Delivery, Some Quarantine_Delivery, Some Review_Delivery} \<and>
      \<not> pc_drift_review c \<and> \<not> pc_drift_quarantine c) \<and>
    out = (if ps_allowed pres then events else [])"
  using gate_exact [OF assms] .

lemma persist_raises:
  assumes "persist_quarantine q own rid (record_route_policy_quarantine_event q sid rid did events res reason
      level behavior drift) store = (Inl e, store')"
    and "matched_quarantine_evaluations res \<noteq> [] \<or> drift \<or> behavior = Some Quarantine_Delivery"
  shows "e = QuarantinePersistenceError rid \<and> store' = store \<and>
    (qd_flush q = None \<or> \<not> qd_log q \<or> \<not> own \<and> (\<not> qd_open q \<or> \<not> qd_commit q) \<or> snapshot_events events = [])"
  using assms
  by (auto simp: persist_quarantine_def record_route_policy_quarantine_event_def quarantine_row_for_def Let_def
      split: if_splits option.splits prod.splits)

lemma policy_stage_raises:
  assumes "route_policy_stage q own preview sid rid did events findings level rr sr ovs gov drift store = (Inl e, store')"
  shows "store' = store \<and> ((\<exists>x. resolve_route_policy_config rid rr sr ovs gov drift = Inl x \<and> e = StageFailure x) \<or>
    e = QuarantinePersistenceError rid \<and>
    (qd_flush q = None \<or> \<not> qd_log q \<or> \<not> own \<and> (\<not> qd_open q \<or> \<not> qd_commit q) \<or> snapshot_events events = []))"
proof (cases "resolve_route_policy_config rid rr sr ovs gov drift")
  case (Inr c)
  define res where "res = evaluate_route_policy c events findings"
  obtain d reason where m: "merge_route_policy_decision res c = (d, reason)" by (metis prod.exhaust)
  define only where "only \<longleftrightarrow> matched_quarantine_evaluations res = [] \<and> pc_drift_quarantine c"
  from assms Inr m obtain res1 where d: "d = Quarantine" and r1: "\<not> only \<longrightarrow> res1 = res" and
    p: "persist_quarantine q own rid (record_route_policy_quarantine_event q sid rid did events res1 reason
            level (pc_behavior c) only) store = (Inl e, store')"
    by (auto simp: route_policy_stage_def res_def [symmetric] only_def [symmetric] Let_def
        split: sum.splits prod.splits if_splits)
  from d m merged_quarantine [of res c] r1
  have "matched_quarantine_evaluations res1 \<noteq> [] \<or> only \<or> pc_behavior c = Some Quarantine_Delivery"
    by (auto simp: only_def)
  from persist_raises [OF p this] show ?thesis by blast
qed (use assms in \<open>auto simp: route_policy_stage_def\<close>)

lemma policy_stage_returns:
  assumes "resolve_route_policy_config rid rr sr ovs gov drift = Inr c" "qd_flush q \<noteq> None" "qd_log q" "qd_open q" "qd_commit q"
    "snapshot_events events \<noteq> []"
  obtains out pres store' where "route_policy_stage q own preview sid rid did events findings level rr sr ovs gov drift store =
    (Inr (out, pres, c), store')"
proof (cases "route_policy_stage q own preview sid rid did events findings level rr sr ovs gov drift store")
  case (Pair r store')
  show thesis
  proof (cases r)
    case (Inl e)
    from policy_stage_raises [OF Pair [unfolded Inl]] assms show thesis by auto
  next
    case (Inr x)
    obtain out pres c' where x: "x = (out, pres, c')" by (cases x) auto
    from Pair Inr x have s: "route_policy_stage q own preview sid rid did events findings level rr sr ovs gov drift store =
      (Inr (out, pres, c'), store')" by simp
    then have "c' = c" by (cases rule: policy_stage_cases) (use assms(1) in auto)
    with s show thesis using that by blast
  qed
qed

text \<open>
  C24. Quarantine fails closed.  A quarantine decision on a non-empty batch outside a preview either
  leaves one new record for this route, with the object events among the first 500 and committed or
  part of the caller's transaction, and hands no event on; or the stage raises and the store is as
  before.  It raises for no other reason than a configuration that cannot be read, a failing session
  (the record, its log row, or the commit) or a batch without an object to keep, and without a quarantine decision nothing is recorded.
\<close>

theorem quarantine_fails_closed:
  "case route_policy_stage q own preview sid rid did events findings level rr sr ovs gov drift store of
     (Inl e, store') \<Rightarrow> store' = store \<and> ((\<exists>x. resolve_route_policy_config rid rr sr ovs gov drift = Inl x \<and> e = StageFailure x) \<or>
    e = QuarantinePersistenceError rid \<and>
       (qd_flush q = None \<or> \<not> qd_log q \<or> \<not> own \<and> (\<not> qd_open q \<or> \<not> qd_commit q) \<or> snapshot_events events = []))
   | (Inr (out, pres, c), store') \<Rightarrow>
       if ps_decision pres = Quarantine \<and> events \<noteq> [] \<and> \<not> preview
       then out = [] \<and> (own \<or> qd_open q \<and> qd_commit q) \<and>
         (\<exists>row. store' = store @ [row] \<and> ps_event_id pres = Some (qr_id row) \<and> qr_route row = rid \<and>
            qr_stream row = sid \<and> qr_destination row = did \<and> qr_payload row = filter is_dict (take 500 events))
       else store' = store \<and> \<not> ps_recorded pres"
proof (cases "route_policy_stage q own preview sid rid did events findings level rr sr ovs gov drift store")
  case (Pair r store')
  show ?thesis
  proof (cases r)
    case (Inl e)
    with Pair policy_stage_raises show ?thesis by auto
  next
    case (Inr x)
    obtain out pres c where x: "x = (out, pres, c)" by (cases x) auto
    from Pair Inr x have "route_policy_stage q own preview sid rid did events findings level rr sr ovs gov drift store =
      (Inr (out, pres, c), store')" by simp
    then show ?thesis
      by (cases rule: policy_stage_cases) (use Pair Inr x in \<open>auto simp: snapshot_events_def MAX_EVENTS_def\<close>)
  qed
qed

text \<open>
  The delivery behaviour of a route.  Overrides of a route combine to the most restrictive enabled
  one, in any order, and a further override never relaxes it; any override of the route replaces the
  stream default, even by a weaker behaviour, and only without one the strictest default counts.
\<close>

lemma delivery_behavior_resolved:
  assumes "override_behaviors rid ovs = Inr bs"
  shows "(bs \<noteq> [] \<longrightarrow> (\<exists>b. resolve_effective_delivery_behavior rid ovs gov = Inr (Some b) \<and> b \<in> set bs \<and>
            (\<forall>b' \<in> set bs. behavior_precedence (Some b') \<le> behavior_precedence (Some b)))) \<and>
    (bs = [] \<longrightarrow> resolve_effective_delivery_behavior rid ovs gov = Inr (extract_stream_default_delivery_behavior gov)) \<and>
    (\<forall>ovs' bs'. override_behaviors rid ovs' = Inr bs' \<and> set bs \<subseteq> set bs' \<longrightarrow>
       behavior_precedence (pick_most_restrictive bs) \<le> behavior_precedence (pick_most_restrictive bs'))"
proof -
  have pos: "0 < behavior_precedence (Some b)" for b
    by (cases b) (simp_all add: behavior_precedence_def)
  have ch: "pick_most_restrictive bs \<in> insert None (Some ` set bs)"
    using behavior_pick.chosen [of "map Some bs"] by (simp add: pick_most_restrictive_def)
  have bd: "behavior_precedence (Some b') \<le> behavior_precedence (pick_most_restrictive bs)" if "b' \<in> set bs" for b'
    using behavior_pick.bound [of "Some b'" "map Some bs"] that by (simp add: pick_most_restrictive_def)
  have "\<exists>b. pick_most_restrictive bs = Some b \<and> b \<in> set bs" if "bs \<noteq> []"
  proof -
    from that obtain b where "b \<in> set bs" by (cases bs) auto
    with bd [OF this] pos [of b] ch show ?thesis by (auto simp: behavior_precedence_def)
  qed
  moreover have "behavior_precedence (pick_most_restrictive bs) \<le> behavior_precedence (pick_most_restrictive bs')"
    if "set bs \<subseteq> set bs'" for bs'
    using that unfolding pick_most_restrictive_def by (intro behavior_pick.mono) auto
  moreover have "pick_most_restrictive [] = None" by (simp add: pick_most_restrictive_def)
  ultimately show ?thesis using bd assms
    by (auto simp: resolve_effective_delivery_behavior_def extract_route_override_delivery_behavior_def)
qed

section \<open>Consequences\<close>

text \<open>
  Quarantine keeps at most 500 events.  When a batch of more than 500 object events is quarantined,
  the record has the first 500 and no event is handed on, so the rest of the batch is in no record.
\<close>

lemma quarantine_truncates:
  assumes "route_policy_stage q own False sid rid did events findings level rr sr ovs gov drift store =
      (Inr (out, pres, c), store')"
    and "ps_decision pres = Quarantine" "\<forall>ev \<in> set events. is_dict ev" "500 < length events"
  shows "out = [] \<and> (\<exists>row. store' = store @ [row] \<and> qr_payload row = take 500 events \<and> length (qr_payload row) = 500)"
  using assms(1)
proof (cases rule: policy_stage_cases)
  case (recorded res row)
  have "filter is_dict (take 500 events) = take 500 events"
    using assms(3) by (simp add: filter_id_conv) (meson in_set_takeD)
  with recorded assms(4) show ?thesis by (auto simp: snapshot_events_def MAX_EVENTS_def)
qed (use assms in auto)

definition restricted_rule :: policy_rule where
  "restricted_rule = \<lparr>po_id = Some 1, po_name = u ''hold'',
     po_condition = [(u ''classification_level'', JStr (u ''RESTRICTED''))],
     po_action = POLICY_ACTION_QUARANTINE, po_enabled = True\<rparr>"

definition working_db :: qdb where
  "working_db = \<lparr>qd_open = True, qd_flush = Some 1, qd_log = True, qd_commit = True\<rparr>"

definition secret_finding :: json where
  "secret_finding = JDict [(u ''sensitivity_class'', JStr (u ''secret''))]"

definition classify_then_police :: "json list \<Rightarrow> (level \<times> decision \<times> json list) option" where
  "classify_then_police events =
     (let (stamped, res) = route_classification_stage True
            \<lparr>cc_rules = [], cc_override_levels = [], cc_source = FromNowhere\<rparr> [secret_finding] events
      in case (res, fst (route_policy_stage working_db False False 1 2 3 stamped [] (map_option rk_level res)
                      [restricted_rule] [] [] [] None [])) of
           (Some r, Inr (out, pres, c)) \<Rightarrow> Some (rk_level r, ps_decision pres, out)
         | _ \<Rightarrow> None)"

lemma secret_classified:
  "route_classification_stage True \<lparr>cc_rules = [], cc_override_levels = [], cc_source = FromNowhere\<rparr> [secret_finding] [JDict d] =
     ([JDict (stamp_classification_level Restricted d)],
      Some \<lparr>rk_level = Restricted, rk_matched = 0, rk_source = FromNowhere, rk_override = False\<rparr>)"
proof -
  have "max_level (map level_name [Restricted]) = Restricted" using max_level_names [of "[Restricted]"] by simp
  then have "resolve_classification_level (finding_classes [secret_finding]) [] = (Restricted, 0)"
    by (simp add: secret_finding_def resolve_classification_level_def matched_levels_def map_filter_simps dget_none_def
        py_str_def default_level_from_findings_def default_sensitivity_classification_def Let_def)
  then show ?thesis
    by (simp add: route_classification_stage_def classify_batch_def stamp_events_def Let_def)
qed

lemma restricted_policy:
  obtains c where "resolve_route_policy_config 2 [restricted_rule] [] [] [] None = Inr c" "pc_rules c = [restricted_rule]"
    "pc_behavior c = None" "\<not> pc_drift_review c" "\<not> pc_drift_quarantine c"
  by (simp add: resolve_route_policy_config_def restricted_rule_def resolve_effective_delivery_behavior_def
      extract_route_override_delivery_behavior_def extract_stream_default_delivery_behavior_def pick_most_restrictive_def
      derive_drift_gates_def map_filter_simps)

lemma police_levels:
  "\<exists>pres c store'. route_policy_stage working_db False False 1 2 3 [JDict d] [] level [restricted_rule] [] [] [] None [] =
     (Inr (if Restricted \<in> set (classification_levels_from_events [JDict d]) then [] else [JDict d], pres, c), store') \<and>
     ps_decision pres = (if Restricted \<in> set (classification_levels_from_events [JDict d]) then Quarantine else Allow)"
proof -
  obtain c where c: "resolve_route_policy_config 2 [restricted_rule] [] [] [] None = Inr c" "pc_rules c = [restricted_rule]"
    "pc_behavior c = None" "\<not> pc_drift_review c" "\<not> pc_drift_quarantine c" by (rule restricted_policy)
  define res where "res = evaluate_route_policy c [JDict d] []"
  have items: "pl_items res = [evaluate_rule [] (classification_levels_from_events [JDict d]) restricted_rule]"
    by (simp add: res_def evaluated_items c restricted_rule_def del: classification_levels_from_events.simps)
  have lv: "u ''RESTRICTED'' = level_name Restricted" by (simp add: level_name_def)
  have m: "matched_quarantine_evaluations res \<noteq> [] \<longleftrightarrow> Restricted \<in> set (classification_levels_from_events [JDict d])"
    "audit_matches res = []"
    by (simp_all add: matched_quarantine_evaluations_def audit_matches_def items evaluate_rule_def restricted_rule_def
        condition_matches_def dget_none_def py_str_def lv POLICY_ACTION_AUDIT_ONLY_def POLICY_ACTION_QUARANTINE_def
        del: classification_levels_from_events.simps)
  have d: "fst (merge_route_policy_decision res c) =
      (if Restricted \<in> set (classification_levels_from_events [JDict d]) then Quarantine else Allow)"
    using m c merged_quarantine [of res c]
    by (cases "matched_quarantine_evaluations res = []")
       (simp_all add: merge_route_policy_decision_def decision_candidates_def pick_strongest_def Let_def
         del: classification_levels_from_events.simps)
  have "qd_flush working_db \<noteq> None" "qd_log working_db" "qd_open working_db" "qd_commit working_db" "snapshot_events [JDict d] \<noteq> []"
    by (simp_all add: working_db_def snapshot_events_def MAX_EVENTS_def is_dict_def)
  from policy_stage_returns [OF c(1) this] obtain out pres store' where
    r: "route_policy_stage working_db False False 1 2 3 [JDict d] [] level [restricted_rule] [] [] [] None [] =
      (Inr (out, pres, c), store')" .
  then have "ps_decision pres = fst (merge_route_policy_decision res c) \<and>
      out = (if delivery_allowed_for_decision (ps_decision pres) then [JDict d] else [])"
    by (cases rule: policy_stage_cases) (auto simp: res_def delivery_allowed_for_decision_def)
  with r d show ?thesis by (auto simp: delivery_allowed_for_decision_def)
qed

lemma police_secret:
  "\<exists>out. classify_then_police [JDict d] = Some (Restricted,
     if Restricted \<in> set (classification_levels_from_events [JDict (stamp_classification_level Restricted d)])
     then Quarantine else Allow, out) \<and>
   (out = [] \<longleftrightarrow> Restricted \<in> set (classification_levels_from_events [JDict (stamp_classification_level Restricted d)]))"
  using police_levels [of "stamp_classification_level Restricted d" "Some Restricted"]
  by (auto simp: classify_then_police_def secret_classified simp del: classification_levels_from_events.simps)

text \<open>
  An event can choose the level the policy reads.  A batch with a secret is classified as RESTRICTED
  and the route quarantines RESTRICTED events: a plain event is held back, but an event that arrives with the
  field \<^verbatim>\<open>classification_level_gdc\<close> set to PUBLIC is delivered, because its stamp goes to the other
  field while the reader prefers this one.
\<close>

lemma classification_spoofed:
  "(\<exists>out. classify_then_police [JDict [(u ''classification_level_gdc'', JStr (u ''PUBLIC''))]] =
      Some (Restricted, Allow, out) \<and> out \<noteq> []) \<and>
   classify_then_police [JDict []] = Some (Restricted, Quarantine, [])"
proof -
  let ?spoof = "[(u ''classification_level_gdc'', JStr (u ''PUBLIC''))]"
  have l: "u ''PUBLIC'' = level_name Public" by (simp add: level_name_def)
  have "classification_levels_from_events [JDict (stamp_classification_level Restricted ?spoof)] = [Public]"
    by (simp add: stamp_classification_level_def read_classification_level_def dget_none_def LEVEL_FIELD_def
        LEVEL_GDC_FIELD_def py_str_def l Let_def)
  moreover have "classification_levels_from_events [JDict (stamp_classification_level Restricted [])] = [Restricted]"
    by (simp add: read_stamp dget_none_def)
  ultimately show ?thesis using police_secret [of ?spoof] police_secret [of "[]"] by auto
qed

section \<open>Witnesses\<close>

lemma demo_resolved_policy:
  obtains c where "resolve_route_policy_config 2 [] [] [] [[(u ''default_delivery_behavior'', JStr (u ''quarantine''))]] None = Inr c"
    "pc_behavior c = Some Quarantine_Delivery"
proof -
  have "normalize_delivery_behavior (JStr (u ''quarantine'')) = Some Quarantine_Delivery"
    by (simp add: normalize_delivery_behavior_def DELIVERY_BEHAVIOR_ALIASES_def py_str_def strip_def lower_def
        ch_lower_def is_space_def u_def)
  then show thesis using that
    by (simp add: resolve_route_policy_config_def resolve_effective_delivery_behavior_def
      extract_route_override_delivery_behavior_def extract_stream_default_delivery_behavior_def pick_most_restrictive_def
      derive_drift_gates_def map_filter_simps is_enabled_def dget_default_def truthy_def dget_none_def
      behavior_precedence_def)
qed

lemma demo_police:
  assumes "snapshot_events events \<noteq> []"
  obtains out pres c store' where "route_policy_stage working_db False False 1 2 3 events [] None [] [] []
      [[(u ''default_delivery_behavior'', JStr (u ''quarantine''))]] None [] = (Inr (out, pres, c), store')"
    "ps_decision pres = Quarantine"
proof -
  obtain c where c: "resolve_route_policy_config 2 [] [] [] [[(u ''default_delivery_behavior'', JStr (u ''quarantine''))]] None = Inr c"
    "pc_behavior c = Some Quarantine_Delivery" by (rule demo_resolved_policy)
  have "qd_flush working_db \<noteq> None" "qd_log working_db" "qd_open working_db" "qd_commit working_db" by (simp_all add: working_db_def)
  from policy_stage_returns [OF c(1) this assms] obtain out pres store' where
    r: "route_policy_stage working_db False False 1 2 3 events [] None [] [] []
      [[(u ''default_delivery_behavior'', JStr (u ''quarantine''))]] None [] = (Inr (out, pres, c), store')" .
  moreover from r have "ps_decision pres = Quarantine"
    by (cases rule: policy_stage_cases) (use c merged_quarantine in auto)
  ultimately show thesis by (rule that)
qed

theorem policy_gate_exact_witness:
  "\<exists>out pres c store'. route_policy_stage working_db False False 1 2 3 [JDict []] [] None [] []
      [] [[(u ''default_delivery_behavior'', JStr (u ''quarantine''))]] None [] = (Inr (out, pres, c), store') \<and>
      out = (if ps_allowed pres then [JDict []] else [])"
proof -
  have "snapshot_events [JDict []] \<noteq> []" by (simp add: snapshot_events_def MAX_EVENTS_def is_dict_def)
  then obtain out pres c store' where r: "route_policy_stage working_db False False 1 2 3 [JDict []] [] None [] []
      [] [[(u ''default_delivery_behavior'', JStr (u ''quarantine''))]] None [] = (Inr (out, pres, c), store')"
    by (rule demo_police)
  from policy_gate_exact [OF this] r show ?thesis by blast
qed

theorem quarantine_fails_closed_witness:
  "\<exists>out pres c row. route_policy_stage working_db False False 1 2 3 [JDict []] [] None [] []
      [] [[(u ''default_delivery_behavior'', JStr (u ''quarantine''))]] None [] = (Inr (out, pres, c), [row]) \<and>
      out = [] \<and> qr_route row = 2"
proof -
  let ?gov = "[[(u ''default_delivery_behavior'', JStr (u ''quarantine''))]]"
  have "snapshot_events [JDict []] \<noteq> []" by (simp add: snapshot_events_def MAX_EVENTS_def is_dict_def)
  then obtain out pres c store' where r: "route_policy_stage working_db False False 1 2 3 [JDict []] [] None [] []
      [] ?gov None [] = (Inr (out, pres, c), store')" "ps_decision pres = Quarantine"
    by (rule demo_police)
  from quarantine_fails_closed [where q = working_db and own = False and preview = False and sid = 1 and rid = 2 and did = 3
      and events = "[JDict []]" and findings = "[]" and level = None and rr = "[]" and sr = "[]" and ovs = "[]" and gov = ?gov
      and drift = None and store = "[]"] r
  show ?thesis by auto
qed

lemma delivery_behavior_resolved_witness:
  "\<exists>b. resolve_effective_delivery_behavior 2 [[(u ''route_id'', JInt 2), (u ''delivery_behavior'', JStr (u ''allow''))]]
     [[(u ''default_delivery_behavior'', JStr (u ''quarantine''))]] = Inr (Some b) \<and> b \<in> {Continue}"
proof -
  have "override_behaviors 2 [[(u ''route_id'', JInt 2), (u ''delivery_behavior'', JStr (u ''allow''))]] = Inr [Continue]"
  proof -
    have "normalize_delivery_behavior (JStr (u ''allow'')) = Some Continue"
      by (simp add: normalize_delivery_behavior_def DELIVERY_BEHAVIOR_ALIASES_def py_str_def strip_def lower_def
          ch_lower_def is_space_def u_def)
    then show ?thesis by (simp add: dget_default_def dget_none_def py_int_def is_enabled_def truthy_def)
  qed
  from delivery_behavior_resolved [OF this] show ?thesis by (metis list.distinct(1) list.simps(15) list.set(1))
qed

lemma quarantine_truncates_witness:
  "\<exists>out pres c row. route_policy_stage working_db False False 1 2 3 (replicate 501 (JDict [])) [] None [] []
      [] [[(u ''default_delivery_behavior'', JStr (u ''quarantine''))]] None [] = (Inr (out, pres, c), [row]) \<and>
      length (qr_payload row) = 500"
proof -
  have "snapshot_events (replicate 501 (JDict [])) \<noteq> []"
    by (simp add: snapshot_events_def MAX_EVENTS_def is_dict_def filter_empty_conv)
  then obtain out pres c store' where r: "route_policy_stage working_db False False 1 2 3 (replicate 501 (JDict [])) []
      None [] [] [] [[(u ''default_delivery_behavior'', JStr (u ''quarantine''))]] None [] = (Inr (out, pres, c), store')"
    "ps_decision pres = Quarantine" by (rule demo_police)
  from quarantine_truncates [OF r] r show ?thesis by (auto simp: is_dict_def)
qed

end
