(* ===== verification/Dedup.thy ===== *)
theory Dedup
  imports Prelude
begin

text \<open>
  Deduplication of the extracted events of a run: \<^verbatim>\<open>app/runners/stream_dedup.py\<close>.  The JSONPath
  library is the parameter \<open>jp\<close>; the registry rows of earlier runs are the set of seed keys
  (\<open>load_dedup_seed_keys\<close> is a database read).  Copies of events are the events themselves.  Log messages are not modelled, apart from the
  registry entry whose keys seed later runs.
\<close>

section \<open>Configuration and keys\<close>

record dedup_config =
  dc_enabled :: bool
  dc_key_field :: ustr
  dc_custom :: "ustr option"
  dc_handling :: ustr
  dc_scope :: ustr
  dc_window :: "int option"

definition default_dedup_config :: dedup_config where
  "default_dedup_config = \<lparr>dc_enabled = False, dc_key_field = u ''event_id'', dc_custom = None,
     dc_handling = u ''skip_duplicate'', dc_scope = u ''current_run'', dc_window = None\<rparr>"

definition text_or :: "json \<Rightarrow> ustr \<Rightarrow> ustr" where
  "text_or v d = (if truthy v then py_str v else d)"

definition parse_dedup_config :: "dict \<Rightarrow> dedup_config" where
  "parse_dedup_config stream_config = (case dget_none stream_config (u ''deduplication'') of
     JDict raw \<Rightarrow>
       (let handling = text_or (dget_none raw (u ''duplicate_handling'')) (u ''skip_duplicate'');
            handling = (if handling \<in> {u ''skip_duplicate'', u ''keep_latest'', u ''keep_first''}
                        then handling else u ''skip_duplicate'');
            scope = text_or (dget_none raw (u ''scope'')) (u ''current_run'');
            scope = (if scope \<in> {u ''current_run'', u ''checkpoint_window'', u ''last_n_hours''}
                     then scope else u ''current_run'');
            key_field = strip (text_or (dget_none raw (u ''key_field'')) (u ''event_id''));
            key_field = (if key_field = [] then u ''event_id'' else key_field);
            custom = (case dget_none raw (u ''custom_jsonpath'') of
              JStr s \<Rightarrow> if strip s = [] then None else Some (strip s) | _ \<Rightarrow> None);
            wh = (case dget_none raw (u ''window_hours'') of
              JInt i \<Rightarrow> if 0 < i then Some i else None
            | JBool b \<Rightarrow> if b then Some 1 else None | _ \<Rightarrow> None)
        in \<lparr>dc_enabled = truthy (dget_none raw (u ''enabled'')), dc_key_field = key_field,
            dc_custom = custom, dc_handling = handling, dc_scope = scope, dc_window = wh\<rparr>)
   | _ \<Rightarrow> default_dedup_config)"

definition normalize_key_value :: "json \<Rightarrow> ustr option" where
  "normalize_key_value v = (case v of
     JNull \<Rightarrow> None | JList _ \<Rightarrow> None | JDict _ \<Rightarrow> None
   | _ \<Rightarrow> if strip (py_str v) = [] then None else Some (strip (py_str v)))"

definition KEY_FIELD_ALIASES :: "ustr \<Rightarrow> ustr list" where
  "KEY_FIELD_ALIASES key_field =
     (if key_field = u ''event_id'' then [u ''event_id'']
      else if key_field = u ''stellar_uuid'' then [u ''stellar_uuid'', u ''stellarUuid'']
      else if key_field = u ''id'' then [u ''id'']
      else [key_field])"

text \<open>The key of an event and the name of the field it came from; a failing path gives no key.\<close>

definition key_at_path :: "(json \<Rightarrow> ustr \<Rightarrow> json result) \<Rightarrow> dict \<Rightarrow> ustr \<Rightarrow> ustr \<Rightarrow> (ustr \<times> ustr) option" where
  "key_at_path jp event path source = (case jp (JDict event) path of
     Inl _ \<Rightarrow> None
   | Inr raw \<Rightarrow> map_option (\<lambda>k. (k, source)) (normalize_key_value raw))"

definition extract_dedup_key ::
  "(json \<Rightarrow> ustr \<Rightarrow> json result) \<Rightarrow> dict \<Rightarrow> dedup_config \<Rightarrow> (ustr \<times> ustr) option" where
  "extract_dedup_key jp event config =
     (let key_field = strip (dc_key_field config)
      in if key_field = u ''custom_jsonpath'' then
           (case dc_custom config of
              None \<Rightarrow> None
            | Some path \<Rightarrow> if path = [] then None else key_at_path jp event path (u ''custom_jsonpath''))
         else (case List.map_filter (\<lambda>a. normalize_key_value (dget_none event a)) (KEY_FIELD_ALIASES key_field) of
           k # _ \<Rightarrow> Some (k, key_field)
         | [] \<Rightarrow>
             if 46 \<in> set key_field \<or> startswith key_field (u ''$'') then
               key_at_path jp event
                 (if startswith key_field (u ''$'') then key_field else u ''$.'' @ key_field) key_field
             else None))"

section \<open>The queue\<close>

record dedup_summary =
  ds_total :: nat
  ds_inserted :: nat
  ds_duplicates :: nat
  ds_by_event_id :: nat
  ds_by_stellar_uuid :: nat
  ds_by_id :: nat
  ds_by_custom :: nat
  ds_inserted_keys :: "ustr list"
  ds_seed_duplicates :: nat
  ds_run_duplicates :: nat
  ds_recorded :: nat
  ds_skipped :: nat
  ds_stage :: "ustr option"
  ds_recorded_keys :: "ustr list"

record dedup_entry =
  de_queue_id :: nat
  de_key :: ustr
  de_event :: dict
  de_source :: ustr

record dedup_queue =
  dq_index :: "(ustr \<times> nat) list"
  dq_entries :: "dedup_entry list"
  dq_next :: nat
  dq_summary :: dedup_summary

definition KEY_META :: ustr where "KEY_META = u ''__gdc_dedup_key''"
definition QUEUE_META :: ustr where "QUEUE_META = u ''__gdc_dedup_queue_id''"

definition empty_summary :: dedup_summary where
  "empty_summary = \<lparr>ds_total = 0, ds_inserted = 0, ds_duplicates = 0, ds_by_event_id = 0,
     ds_by_stellar_uuid = 0, ds_by_id = 0, ds_by_custom = 0, ds_inserted_keys = [],
     ds_seed_duplicates = 0, ds_run_duplicates = 0, ds_recorded = 0, ds_skipped = 0,
     ds_stage = None, ds_recorded_keys = []\<rparr>"

definition empty_queue :: dedup_queue where
  "empty_queue = \<lparr>dq_index = [], dq_entries = [], dq_next = 1, dq_summary = empty_summary\<rparr>"

definition inc_duplicate_counter :: "ustr \<Rightarrow> dedup_summary \<Rightarrow> dedup_summary" where
  "inc_duplicate_counter src s0 =
     (let s = s0\<lparr>ds_duplicates := Suc (ds_duplicates s0)\<rparr>
      in if src = u ''event_id'' then s\<lparr>ds_by_event_id := Suc (ds_by_event_id s)\<rparr>
         else if src = u ''stellar_uuid'' then s\<lparr>ds_by_stellar_uuid := Suc (ds_by_stellar_uuid s)\<rparr>
         else if src = u ''id'' then s\<lparr>ds_by_id := Suc (ds_by_id s)\<rparr>
         else if src = u ''custom_jsonpath'' then s\<lparr>ds_by_custom := Suc (ds_by_custom s)\<rparr>
         else s)"

definition attach_dedup_metadata :: "dict \<Rightarrow> ustr \<Rightarrow> nat \<Rightarrow> dict" where
  "attach_dedup_metadata event key qid = dset QUEUE_META (JInt (int qid)) (dset KEY_META (JStr key) event)"

definition insert_new :: "dict \<Rightarrow> (ustr \<times> ustr) option \<Rightarrow> dedup_queue \<Rightarrow> dedup_queue" where
  "insert_new event ks q =
     (let qid = dq_next q; s = dq_summary q
      in case ks of
           None \<Rightarrow>
             q\<lparr>dq_entries := dq_entries q @ [\<lparr>de_queue_id = qid, de_key = u ''__no_key_'' @ nat_str qid,
                  de_event = event, de_source = u ''none''\<rparr>],
               dq_next := Suc qid, dq_summary := s\<lparr>ds_inserted := Suc (ds_inserted s)\<rparr>\<rparr>
         | Some (k, src) \<Rightarrow>
             q\<lparr>dq_entries := dq_entries q @ [\<lparr>de_queue_id = qid, de_key = k,
                  de_event = attach_dedup_metadata event k qid, de_source = src\<rparr>],
               dq_index := dset k (length (dq_entries q)) (dq_index q),
               dq_next := Suc qid,
               dq_summary := s\<lparr>ds_inserted := Suc (ds_inserted s),
                               ds_inserted_keys := ds_inserted_keys s @ [k]\<rparr>\<rparr>)"

definition count_duplicate :: "ustr \<Rightarrow> bool \<Rightarrow> bool \<Rightarrow> dedup_summary \<Rightarrow> dedup_summary" where
  "count_duplicate src in_seed in_run s0 =
     (let s1 = inc_duplicate_counter src s0;
          s2 = (if in_seed then s1\<lparr>ds_seed_duplicates := Suc (ds_seed_duplicates s1)\<rparr> else s1)
      in if in_run then s2\<lparr>ds_run_duplicates := Suc (ds_run_duplicates s2)\<rparr> else s2)"

definition ingest_event ::
  "(json \<Rightarrow> ustr \<Rightarrow> json result) \<Rightarrow> dedup_config \<Rightarrow> ustr list \<Rightarrow> dict \<Rightarrow> dedup_queue \<Rightarrow> dedup_queue" where
  "ingest_event jp config seeds event q = (case extract_dedup_key jp event config of
     None \<Rightarrow> insert_new event None q
   | Some (k, src) \<Rightarrow>
       (let in_run = (dget (dq_index q) k \<noteq> None); in_seed = (k \<in> set seeds)
        in if \<not> in_run \<and> \<not> in_seed then insert_new event (Some (k, src)) q
           else
             let q1 = q\<lparr>dq_summary := count_duplicate src in_seed in_run (dq_summary q)\<rparr>
             in case dget (dq_index q) k of
                  Some idx \<Rightarrow>
                    if dc_handling config = u ''keep_latest'' then
                      (let old = dq_entries q ! idx
                       in q1\<lparr>dq_entries := (dq_entries q)[idx :=
                            \<lparr>de_queue_id = de_queue_id old, de_key = k,
                             de_event = attach_dedup_metadata event k (de_queue_id old),
                             de_source = src\<rparr>]\<rparr>)
                    else q1
                | None \<Rightarrow> q1))"

fun ingest_all ::
  "(json \<Rightarrow> ustr \<Rightarrow> json result) \<Rightarrow> dedup_config \<Rightarrow> ustr list \<Rightarrow> dict list \<Rightarrow> dedup_queue \<Rightarrow> dedup_queue" where
  "ingest_all jp config seeds [] q = q"
| "ingest_all jp config seeds (ev # evs) q = ingest_all jp config seeds evs (ingest_event jp config seeds ev q)"

definition ingest ::
  "(json \<Rightarrow> ustr \<Rightarrow> json result) \<Rightarrow> dedup_config \<Rightarrow> ustr list \<Rightarrow> dict list \<Rightarrow> dict list \<times> dedup_summary" where
  "ingest jp config seeds events =
     (let q0 = empty_queue\<lparr>dq_summary := empty_summary\<lparr>ds_total := length events\<rparr>\<rparr>;
          q = ingest_all jp config seeds events q0
      in (map de_event (dq_entries q), dq_summary q))"

fun dict_events :: "json list \<Rightarrow> dict list" where
  "dict_events [] = []"
| "dict_events (JDict d # evs) = d # dict_events evs"
| "dict_events (_ # evs) = dict_events evs"

text \<open>\<open>load_seeds\<close> is the registry read for the configured scope; it is empty for \<open>current_run\<close>.\<close>

definition apply_stream_dedup ::
  "(json \<Rightarrow> ustr \<Rightarrow> json result) \<Rightarrow> (dedup_config \<Rightarrow> ustr list) \<Rightarrow> dict \<Rightarrow> bool \<Rightarrow> json list
     \<Rightarrow> json list \<times> dedup_summary option" where
  "apply_stream_dedup jp load_seeds stream_config apply_dedup events =
     (let config = parse_dedup_config stream_config
      in if \<not> apply_dedup \<or> \<not> dc_enabled config \<or> events = [] then (events, None)
         else
           let seeds = (if dc_scope config = u ''current_run'' then [] else load_seeds config);
               (out, s) = ingest jp config seeds (dict_events events)
           in (map JDict out, Some s))"

section \<open>The registry\<close>

definition propagate_dedup_metadata :: "dict \<Rightarrow> dict \<Rightarrow> dict" where
  "propagate_dedup_metadata raw enriched =
     foldl (\<lambda>e key. case dget raw key of
        Some v \<Rightarrow> if dget e key = None then dset key v e else e | None \<Rightarrow> e) enriched [KEY_META, QUEUE_META]"

fun extract_delivered_dedup_entries :: "json list \<Rightarrow> (ustr \<times> int option) list" where
  "extract_delivered_dedup_entries [] = []"
| "extract_delivered_dedup_entries (ev # evs) =
     (case ev of
        JDict d \<Rightarrow> (case dget_none d KEY_META of
          JStr k \<Rightarrow> if strip k = [] then []
            else [(strip k, case dget_none d QUEUE_META of
                     JInt i \<Rightarrow> Some i | JBool b \<Rightarrow> Some (if b then 1 else 0) | _ \<Rightarrow> None)]
        | _ \<Rightarrow> [])
      | _ \<Rightarrow> []) @ extract_delivered_dedup_entries evs"

definition REGISTRY_RECORD_STAGE :: ustr where "REGISTRY_RECORD_STAGE = u ''delivery_success''"

text \<open>The keys that go to the registry when a route has delivered, and the updated summary.\<close>

definition record_dedup_registry_for_route_success ::
  "json list \<Rightarrow> dedup_summary \<Rightarrow> ustr list \<times> dedup_summary" where
  "record_dedup_registry_for_route_success route_events s =
     (let delivered = map fst (extract_delivered_dedup_entries route_events);
          keys = (if delivered = [] then ds_inserted_keys s else delivered)
      in if keys = [] then ([], s)
         else
           let recorded = remdups (ds_recorded_keys s @ keys)
           in (keys, s\<lparr>ds_recorded_keys := recorded, ds_recorded := length recorded,
                      ds_stage := Some REGISTRY_RECORD_STAGE,
                      ds_skipped := length (ds_inserted_keys s) - length recorded\<rparr>))"

text \<open>The end of the run: the summary of what was recorded.\<close>

definition finalize_dedup_registry_summary :: "bool \<Rightarrow> json list \<Rightarrow> dedup_summary \<Rightarrow> dedup_summary" where
  "finalize_dedup_registry_summary dry_run successful_events s =
     (let entries = map fst (extract_delivered_dedup_entries successful_events);
          pending = (if entries = [] then ds_inserted_keys s else entries)
      in if dry_run then s\<lparr>ds_recorded := 0, ds_skipped := length pending, ds_stage := None\<rparr>
         else if ds_recorded s = 0 then s\<lparr>ds_skipped := length pending, ds_stage := None\<rparr>
         else s\<lparr>ds_skipped := length (ds_inserted_keys s) - ds_recorded s\<rparr>)"

section \<open>A reference definition\<close>

text \<open>
  The events that survive: those without a key, and for every key that is not a seed its first
  occurrence, which carries the last event with that key when the latest is to be kept.
\<close>

fun survivors :: "bool \<Rightarrow> (dict \<Rightarrow> ustr option) \<Rightarrow> ustr set \<Rightarrow> dict list \<Rightarrow> (dict \<times> ustr option) list" where
  "survivors latest key seen [] = []"
| "survivors latest key seen (ev # evs) = (case key ev of
     None \<Rightarrow> (ev, None) # survivors latest key seen evs
   | Some k \<Rightarrow>
       if k \<in> seen then survivors latest key seen evs
       else (if latest then last (filter (\<lambda>e. key e = Some k) (ev # evs)) else ev, Some k)
            # survivors latest key (insert k seen) evs)"

definition queued :: "nat \<Rightarrow> dict \<times> ustr option \<Rightarrow> dict" where
  "queued i x = (case snd x of None \<Rightarrow> fst x | Some k \<Rightarrow> attach_dedup_metadata (fst x) k (Suc i))"

definition key_of_event :: "(json \<Rightarrow> ustr \<Rightarrow> json result) \<Rightarrow> dedup_config \<Rightarrow> dict \<Rightarrow> ustr option" where
  "key_of_event jp config ev = map_option fst (extract_dedup_key jp ev config)"

lemma survivors_key_iff:
  "Some k \<in> snd ` set (survivors l key seen evs) \<longleftrightarrow> k \<notin> seen \<and> Some k \<in> key ` set evs"
proof (induction evs arbitrary: seen)
  case (Cons ev evs)
  then show ?case by (cases "key ev") auto
qed simp

lemma survivors_skip:
  assumes "k \<in> seen"
  shows "map (\<lambda>x. if snd x = Some k then (e, snd x) else x) (survivors l key seen evs) =
    survivors l key seen evs"
  using survivors_key_iff [of k l key seen evs] assms by (intro map_idI) force

lemma survivors_snoc:
  "survivors l key seen (evs @ [e]) = (case key e of
     None \<Rightarrow> survivors l key seen evs @ [(e, None)]
   | Some k \<Rightarrow>
       if k \<in> seen then survivors l key seen evs
       else if Some k \<in> key ` set evs
         then (if l then map (\<lambda>x. if snd x = Some k then (e, snd x) else x) (survivors l key seen evs)
               else survivors l key seen evs)
       else survivors l key seen evs @ [(e, Some k)])"
proof (induction evs arbitrary: seen)
  case Nil
  then show ?case by (cases "key e") auto
next
  case (Cons ev evs)
  show ?case
  proof (cases "key ev")
    case None
    then show ?thesis using Cons.IH by (auto split: option.splits)
  next
    case (Some k')
    show ?thesis
    proof (cases "key e")
      case None
      with Some Cons.IH show ?thesis by auto
    next
      case (Some k)
      with \<open>key ev = Some k'\<close> Cons.IH survivors_skip [of k "insert k seen"] show ?thesis
        by (cases "k = k'") auto
    qed
  qed
qed

lemma survivors_distinct: "distinct (List.map_filter snd (survivors l key seen evs))"
proof (induction evs arbitrary: seen)
  case (Cons ev evs)
  show ?case
  proof (cases "key ev")
    case None
    with Cons show ?thesis by (simp add: map_filter_simps)
  next
    case (Some k)
    have "k \<notin> set (List.map_filter snd (survivors l key (insert k seen) evs))"
      using survivors_key_iff [of k l key "insert k seen" evs] by (force simp: map_filter_def image_iff)
    with Some Cons show ?thesis by (auto simp: map_filter_simps)
  qed
qed (simp add: map_filter_simps)

section \<open>The queue implements it\<close>

definition queue_rel :: "(dict \<times> ustr option) list \<Rightarrow> dedup_queue \<Rightarrow> bool" where
  "queue_rel sv q \<longleftrightarrow> dq_next q = Suc (length sv) \<and> length (dq_entries q) = length sv \<and>
     (\<forall>i < length sv. de_queue_id (dq_entries q ! i) = Suc i \<and> de_event (dq_entries q ! i) = queued i (sv ! i)) \<and>
     (\<forall>k i. dget (dq_index q) k = Some i \<longleftrightarrow> i < length sv \<and> snd (sv ! i) = Some k)"

lemma queue_rel_index:
  assumes "queue_rel sv q"
  shows "(dget (dq_index q) k = None) \<longleftrightarrow> Some k \<notin> snd ` set sv"
proof -
  have "(\<exists>i. dget (dq_index q) k = Some i) \<longleftrightarrow> (\<exists>i < length sv. snd (sv ! i) = Some k)"
    using assms unfolding queue_rel_def by blast
  also have "\<dots> \<longleftrightarrow> Some k \<in> set (map snd sv)"
    unfolding in_set_conv_nth by auto
  finally show ?thesis by (cases "dget (dq_index q) k") auto
qed

lemma insert_new_rel:
  assumes "queue_rel sv q" "case ks of None \<Rightarrow> True | Some (k, _) \<Rightarrow> Some k \<notin> snd ` set sv"
  shows "queue_rel (sv @ [(ev, map_option fst ks)]) (insert_new ev ks q)"
proof (cases ks)
  case None
  with assms show ?thesis
    by (auto simp: queue_rel_def insert_new_def queued_def nth_append less_Suc_eq Let_def)
next
  case (Some x)
  obtain k src where x: "x = (k, src)" by (cases x)
  have "snd (sv ! i) \<noteq> Some k" if "i < length sv" for i
    using that assms(2) Some x by (metis image_eqI nth_mem old.prod.case option.simps(5))
  with Some x assms(1) show ?thesis
    by (auto simp: queue_rel_def insert_new_def queued_def nth_append less_Suc_eq dict_simps Let_def)
qed

lemma ingest_event_rel:
  assumes r: "queue_rel (survivors l (key_of_event jp config) (set seeds) evs) q"
    and l: "l \<longleftrightarrow> dc_handling config = u ''keep_latest''"
  shows "queue_rel (survivors l (key_of_event jp config) (set seeds) (evs @ [ev]))
           (ingest_event jp config seeds ev q)"
proof (cases "extract_dedup_key jp ev config")
  case None
  with insert_new_rel [OF r, of None ev] show ?thesis
    by (simp add: survivors_snoc key_of_event_def ingest_event_def)
next
  case (Some x)
  obtain k src where x: "x = (k, src)" by (cases x)
  let ?sv = "survivors l (key_of_event jp config) (set seeds) evs"
  have key: "key_of_event jp config ev = Some k" using Some x by (simp add: key_of_event_def)
  note idx = queue_rel_index [OF r, of k] and mem = survivors_key_iff [of k l "key_of_event jp config" "set seeds" evs]
  show ?thesis
  proof (cases "dget (dq_index q) k")
    case None
    show ?thesis
    proof (cases "k \<in> set seeds")
      case True
      with None Some x key r show ?thesis
        by (simp add: survivors_snoc ingest_event_def queue_rel_def Let_def)
    next
      case False
      with None idx mem have "Some k \<notin> snd ` set ?sv" "Some k \<notin> key_of_event jp config ` set evs" by auto
      with insert_new_rel [OF r, of "Some (k, src)" ev] None False Some x key show ?thesis
        by (simp add: survivors_snoc ingest_event_def Let_def)
    qed
  next
    case (Some i)
    then have i: "i < length ?sv" "snd (?sv ! i) = Some k" using r by (auto simp: queue_rel_def)
    have m: "k \<notin> set seeds" "Some k \<in> key_of_event jp config ` set evs" using idx mem Some by auto
    have uniq: "j = i" if "j < length ?sv" "snd (?sv ! j) = Some k" for j
    proof -
      from r that have "dget (dq_index q) k = Some j" unfolding queue_rel_def by blast
      with Some show ?thesis by simp
    qed
    define sv' where "sv' = map (\<lambda>x. if snd x = Some k then (ev, snd x) else x) ?sv"
    have upd: "sv' ! j = (if j = i then (ev, Some k) else ?sv ! j)" if "j < length ?sv" for j
      using that i uniq [OF that] by (cases "snd (?sv ! j) = Some k") (auto simp: sv'_def)
    show ?thesis
    proof (cases l)
      case True
      then have s: "survivors l (key_of_event jp config) (set seeds) (evs @ [ev]) = sv'"
        using key m by (simp add: survivors_snoc sv'_def)
      have ix: "snd (sv' ! j) = snd (?sv ! j)" if "j < length ?sv" for j
        using that upd i by (cases "j = i") auto
      have len: "length sv' = length ?sv" by (simp add: sv'_def)
      let ?e = "\<lparr>de_queue_id = Suc i, de_key = k, de_event = attach_dedup_metadata ev k (Suc i), de_source = src\<rparr>"
      have qid: "de_queue_id (dq_entries q ! i) = Suc i" using r i by (simp add: queue_rel_def)
      have q: "dq_entries (ingest_event jp config seeds ev q) = (dq_entries q)[i := ?e]"
        "dq_index (ingest_event jp config seeds ev q) = dq_index q"
        "dq_next (ingest_event jp config seeds ev q) = dq_next q"
        using \<open>extract_dedup_key jp ev config = Some x\<close> x Some True l m qid
        by (simp_all add: ingest_event_def Let_def)
      have "de_queue_id ((dq_entries q)[i := ?e] ! j) = Suc j \<and> de_event ((dq_entries q)[i := ?e] ! j) = queued j (sv' ! j)"
        if "j < length ?sv" for j
        using that r i upd [OF that] by (cases "j = i") (simp_all add: queue_rel_def queued_def)
      moreover have "dget (dq_index q) k' = Some j \<longleftrightarrow> j < length sv' \<and> snd (sv' ! j) = Some k'" for k' j
        using r ix len unfolding queue_rel_def by metis
      ultimately show ?thesis unfolding s queue_rel_def q using r len by (simp add: queue_rel_def)
    next
      case False
      then have s: "survivors l (key_of_event jp config) (set seeds) (evs @ [ev]) = ?sv"
        using key m by (simp add: survivors_snoc)
      have "dq_entries (ingest_event jp config seeds ev q) = dq_entries q"
        "dq_index (ingest_event jp config seeds ev q) = dq_index q"
        "dq_next (ingest_event jp config seeds ev q) = dq_next q"
        using \<open>extract_dedup_key jp ev config = Some x\<close> x Some False l m
        by (simp_all add: ingest_event_def Let_def)
      with r show ?thesis unfolding s queue_rel_def by simp
    qed
  qed
qed


lemma ingest_all_snoc:
  "ingest_all jp config seeds (evs @ [ev]) q = ingest_event jp config seeds ev (ingest_all jp config seeds evs q)"
  by (induction evs arbitrary: q) auto

lemma ingest_all_rel:
  assumes "dq_entries q = []" "dq_index q = []" "dq_next q = 1"
  shows "queue_rel (survivors (dc_handling config = u ''keep_latest'') (key_of_event jp config) (set seeds) evs)
           (ingest_all jp config seeds evs q)"
proof (induction evs rule: rev_induct)
  case Nil
  then show ?case using assms by (simp add: queue_rel_def)
next
  case (snoc ev evs)
  then show ?case unfolding ingest_all_snoc by (rule ingest_event_rel) simp
qed

lemma summary_step:
  "ds_total (dq_summary (ingest_event jp config seeds ev q)) = ds_total (dq_summary q) \<and>
   ds_inserted (dq_summary (ingest_event jp config seeds ev q)) +
     ds_duplicates (dq_summary (ingest_event jp config seeds ev q)) =
   Suc (ds_inserted (dq_summary q) + ds_duplicates (dq_summary q))"
  by (auto simp: ingest_event_def insert_new_def count_duplicate_def inc_duplicate_counter_def Let_def
      split: option.splits prod.splits)

lemma summary_all:
  "ds_total (dq_summary (ingest_all jp config seeds evs q)) = ds_total (dq_summary q) \<and>
   ds_inserted (dq_summary (ingest_all jp config seeds evs q)) +
     ds_duplicates (dq_summary (ingest_all jp config seeds evs q)) =
   length evs + (ds_inserted (dq_summary q) + ds_duplicates (dq_summary q))"
proof (induction evs arbitrary: q)
  case (Cons ev evs)
  then show ?case using summary_step [of jp config seeds ev q] by simp
qed simp

lemma ingest_out:
  "fst (ingest jp config seeds events) =
     (let sv = survivors (dc_handling config = u ''keep_latest'') (key_of_event jp config) (set seeds) events
      in map (\<lambda>i. queued i (sv ! i)) [0..<length sv])"
proof -
  let ?q0 = "empty_queue\<lparr>dq_summary := empty_summary\<lparr>ds_total := length events\<rparr>\<rparr>"
  let ?sv = "survivors (dc_handling config = u ''keep_latest'') (key_of_event jp config) (set seeds) events"
  have r: "queue_rel ?sv (ingest_all jp config seeds events ?q0)"
    by (rule ingest_all_rel) (simp_all add: empty_queue_def)
  have "map de_event (dq_entries (ingest_all jp config seeds events ?q0)) = map (\<lambda>i. queued i (?sv ! i)) [0..<length ?sv]"
    by (rule nth_equalityI) (use r in \<open>auto simp: queue_rel_def\<close>)
  then show ?thesis by (simp add: ingest_def Let_def)
qed

lemma survivors_unkeyed:
  "filter (\<lambda>x. snd x = None) (survivors l key seen evs) = map (\<lambda>e. (e, None)) (filter (\<lambda>e. key e = None) evs)"
proof (induction evs arbitrary: seen)
  case (Cons ev evs)
  then show ?case by (cases "key ev") auto
qed simp

lemma survivors_origin:
  "(e, Some k) \<in> set (survivors l key seen evs) \<Longrightarrow> e \<in> set evs \<and> key e = Some k"
proof (induction evs arbitrary: seen)
  case (Cons ev evs)
  have "last (filter (\<lambda>e. key e = Some k') (ev # evs)) \<in> set (filter (\<lambda>e. key e = Some k') (ev # evs))"
    if "key ev = Some k'" for k' using that by (intro last_in_set) simp
  with Cons show ?case by (auto split: option.splits if_splits)
qed simp

section \<open>Properties\<close>

text \<open>
  C19. Deduplication computes the reference.  The events that leave the queue are exactly the
  survivors, in the order of their first occurrence, each tagged with its key and its position;
  and every event is counted once, as inserted or as a duplicate.
\<close>

theorem ingest_computes_survivors:
  "fst (ingest jp config seeds events) =
     (let sv = survivors (dc_handling config = u ''keep_latest'') (key_of_event jp config) (set seeds) events
      in map (\<lambda>i. queued i (sv ! i)) [0..<length sv]) \<and>
   ds_total (snd (ingest jp config seeds events)) = length events \<and>
   ds_inserted (snd (ingest jp config seeds events)) + ds_duplicates (snd (ingest jp config seeds events)) =
     length events"
  using summary_all [of jp config seeds events
      "empty_queue\<lparr>dq_summary := empty_summary\<lparr>ds_total := length events\<rparr>\<rparr>"] ingest_out [of jp config seeds events]
  by (simp add: ingest_def Let_def empty_summary_def empty_queue_def)

text \<open>
  C20. Deduplication neither loses nor repeats an event.  The queue hands on a list of events and
  keys in which no key occurs twice and no seed key occurs; a key occurs exactly when the batch has
  it and it is not a seed, and then on an event of the batch that has this key; and the events
  without a key are those of the batch, in order.
\<close>

theorem dedup_exact:
  "\<exists>sv. fst (ingest jp config seeds events) = map (\<lambda>i. queued i (sv ! i)) [0..<length sv] \<and>
    distinct (List.map_filter snd sv) \<and>
    (\<forall>k. Some k \<in> snd ` set sv \<longleftrightarrow> k \<notin> set seeds \<and> Some k \<in> key_of_event jp config ` set events) \<and>
    {x \<in> set sv. snd x \<noteq> None} \<subseteq> (\<lambda>e. (e, key_of_event jp config e)) ` set events \<and>
    map fst (filter (\<lambda>x. snd x = None) sv) = filter (\<lambda>e. key_of_event jp config e = None) events"
proof (intro exI conjI allI)
  let ?key = "key_of_event jp config"
  let ?sv = "survivors (dc_handling config = u ''keep_latest'') ?key (set seeds) events"
  show "fst (ingest jp config seeds events) = map (\<lambda>i. queued i (?sv ! i)) [0..<length ?sv]"
    using ingest_out [of jp config seeds events] by (simp add: Let_def)
  show "distinct (List.map_filter snd ?sv)" by (rule survivors_distinct)
  show "Some k \<in> snd ` set ?sv \<longleftrightarrow> k \<notin> set seeds \<and> Some k \<in> ?key ` set events" for k
    by (rule survivors_key_iff)
  show "{x \<in> set ?sv. snd x \<noteq> None} \<subseteq> (\<lambda>e. (e, ?key e)) ` set events"
    using survivors_origin by (fastforce simp: image_iff)
  show "map fst (filter (\<lambda>x. snd x = None) ?sv) = filter (\<lambda>e. ?key e = None) events"
    by (simp add: survivors_unkeyed comp_def)
qed

end
