(* ===== verification/Rate_Limit.thy ===== *)
theory Rate_Limit
  imports Prelude
begin

text \<open>
  The rate limiters of \<^verbatim>\<open>app/rate_limit\<close>: the fixed-window limiters of sources and destinations, and
  the token bucket that paces UDP datagrams.  Times, rates and tokens are exact rationals; the
  rounding of binary floating point is not modelled.  The clock value a call reads is an argument.
\<close>

section \<open>Python floats as numbers\<close>

datatype fval = FNum rat | FInf | FNegInf | FNan

fun digits_rat :: "rat \<Rightarrow> ustr \<Rightarrow> rat" where
  "digits_rat acc [] = acc"
| "digits_rat acc (c # cs) = digits_rat (acc * 10 + of_nat (c - 48)) cs"

text \<open>
  \<open>float\<close> of a text: a sign, digits with a fraction, a decimal exponent, or the names of the
  infinities and NaN (underscores between digits, which Python also takes, are refused here).
\<close>

definition signed_digits :: "ustr \<Rightarrow> int option" where
  "signed_digits s = (if 95 \<in> set s then None
     else case s of [] \<Rightarrow> None
       | c # cs \<Rightarrow> if c = 43 then read_digits 0 False cs
                   else if c = 45 then map_option uminus (read_digits 0 False cs)
                   else read_digits 0 False s)"

definition pow10 :: "int \<Rightarrow> rat" where
  "pow10 e = (if e < 0 then 1 / 10 ^ nat (- e) else 10 ^ nat e)"

definition float_of_text :: "ustr \<Rightarrow> fval option" where
  "float_of_text s =
     (let t = lower (strip s);
          neg = startswith t (u ''-'');
          body = (if neg \<or> startswith t (u ''+'') then tl t else t);
          mant = takeWhile (\<lambda>c. c \<noteq> 101) body;
          ex = dropWhile (\<lambda>c. c \<noteq> 101) body;
          whole = takeWhile is_digit mant;
          rest = dropWhile is_digit mant;
          frac = (if startswith rest (u ''.'') then tl rest else [])
      in if body \<in> {u ''inf'', u ''infinity''} then Some (if neg then FNegInf else FInf)
         else if body = u ''nan'' then Some FNan
         else if (rest = [] \<or> startswith rest (u ''.'')) \<and> list_all is_digit frac \<and> (whole \<noteq> [] \<or> frac \<noteq> [])
           then map_option (\<lambda>e. FNum ((if neg then - 1 else 1) *
                  (digits_rat 0 whole + digits_rat 0 frac / 10 ^ length frac) * pow10 e))
                (if ex = [] then Some 0 else signed_digits (tl ex))
         else None)"

definition py_float :: "json \<Rightarrow> fval result" where
  "py_float v = (case v of
     JInt i \<Rightarrow> Inr (FNum (of_int i))
   | JBool b \<Rightarrow> Inr (FNum (if b then 1 else 0))
   | JFloat (Fin r t) \<Rightarrow> Inr (FNum r)
   | JFloat PosInf \<Rightarrow> Inr FInf
   | JFloat NegInf \<Rightarrow> Inr FNegInf
   | JFloat NaN \<Rightarrow> Inr FNan
   | JStr s \<Rightarrow> (case float_of_text s of
       Some x \<Rightarrow> Inr x
     | None \<Rightarrow> Inl (ValueError (u ''could not convert string to float: '' @ repr_str s)))
   | _ \<Rightarrow> Inl (TypeError (u ''float() argument must be a string or a real number'')))"

text \<open>\<open>x <= 0\<close> and \<open>r >= x\<close>; every comparison with NaN is false.\<close>

definition fval_nonpos :: "fval \<Rightarrow> bool" where
  "fval_nonpos x = (case x of FNum r \<Rightarrow> r \<le> 0 | FNegInf \<Rightarrow> True | _ \<Rightarrow> False)"

definition fval_reached :: "rat \<Rightarrow> fval \<Rightarrow> bool" where
  "fval_reached r x = (case x of FNum p \<Rightarrow> p \<le> r | FNegInf \<Rightarrow> True | _ \<Rightarrow> False)"

section \<open>Fixed windows\<close>

type_synonym window = "rat \<times> int"
type_synonym windows = "(int \<times> window) list"

text \<open>The two settings, read in the order the code reads them; \<open>None\<close> when nothing is limited.\<close>

definition read_limit :: "dict \<Rightarrow> (int \<times> fval) option result" where
  "read_limit cfg =
     (if cfg = [] then Inr None
      else rbind (py_int (dget_default cfg (u ''max_events'') (JInt 0))) (\<lambda>max_events.
           rbind (py_float (dget_default cfg (u ''per_seconds'') (JInt 1))) (\<lambda>per_seconds.
             Inr (if max_events \<le> 0 \<or> fval_nonpos per_seconds then None
                  else Some (max_events, per_seconds)))))"

record destination_limiter =
  dl_windows :: windows
  dl_pacing :: "(int \<times> rat \<times> rat \<times> rat \<times> int) list"

record source_limiter =
  sl_windows :: windows

definition destination_allow ::
  "int \<Rightarrow> dict \<Rightarrow> rat \<Rightarrow> destination_limiter \<Rightarrow> bool result \<times> destination_limiter" where
  "destination_allow route_id cfg now st = (case read_limit cfg of
     Inl e \<Rightarrow> (Inl e, st)
   | Inr None \<Rightarrow> (Inr True, st)
   | Inr (Some (max_events, per_seconds)) \<Rightarrow>
       (case dget (dl_windows st) route_id of
          None \<Rightarrow> (Inr True, st\<lparr>dl_windows := dset route_id (now, 1) (dl_windows st)\<rparr>)
        | Some (window_start, sent) \<Rightarrow>
            if fval_reached (now - window_start) per_seconds
              then (Inr True, st\<lparr>dl_windows := dset route_id (now, 1) (dl_windows st)\<rparr>)
            else if sent \<ge> max_events then (Inr False, st)
            else (Inr True, st\<lparr>dl_windows := dset route_id (window_start, sent + 1) (dl_windows st)\<rparr>)))"

definition source_allow ::
  "int \<Rightarrow> dict \<Rightarrow> rat \<Rightarrow> source_limiter \<Rightarrow> bool result \<times> source_limiter" where
  "source_allow stream_id cfg now st = (case read_limit cfg of
     Inl e \<Rightarrow> (Inl e, st)
   | Inr None \<Rightarrow> (Inr True, st)
   | Inr (Some (max_events, per_seconds)) \<Rightarrow>
       (case dget (sl_windows st) stream_id of
          None \<Rightarrow> (Inr True, st\<lparr>sl_windows := dset stream_id (now, 1) (sl_windows st)\<rparr>)
        | Some (window_start, sent) \<Rightarrow>
            if fval_reached (now - window_start) per_seconds
              then (Inr True, st\<lparr>sl_windows := dset stream_id (now, 1) (sl_windows st)\<rparr>)
            else if sent \<ge> max_events then (Inr False, st)
            else (Inr True, st\<lparr>sl_windows := dset stream_id (window_start, sent + 1) (sl_windows st)\<rparr>)))"

section \<open>Datagram pacing\<close>

text \<open>
  \<open>reserve_event\<close>: one reservation in the token bucket of a route, made under the pacing lock.  The
  result is the delay until the datagram may be sent.  The rate and the clock are finite and the
  burst is whole, which the code checks first.
\<close>

definition reserve_event ::
  "int \<Rightarrow> rat \<Rightarrow> int \<Rightarrow> rat \<Rightarrow> destination_limiter \<Rightarrow> rat result \<times> destination_limiter" where
  "reserve_event route_id rate burst now st =
     (if rate \<le> 0 \<or> burst \<le> 0 then (Inl (ValueError (u ''invalid UDP event rate or burst'')), st)
      else
        let (clock0, tokens0) = (case dget (dl_pacing st) route_id of
              None \<Rightarrow> (now, of_int burst)
            | Some (c, t, r, b) \<Rightarrow>
                if (r, b) \<noteq> (rate, burst) then (now, of_int burst)
                else (max now c, min (of_int burst) (t + (max now c - c) * rate)));
            (clock, tokens) = (if tokens0 \<ge> 1 then (clock0, tokens0 - 1)
                               else (clock0 + (1 - tokens0) / rate, 0))
        in (Inr (max 0 (clock - now)),
            st\<lparr>dl_pacing := dset route_id (clock, tokens, rate, burst) (dl_pacing st)\<rparr>))"

definition udp_paced_destination_config :: "ustr \<Rightarrow> dict \<Rightarrow> dict \<Rightarrow> int \<Rightarrow> dict" where
  "udp_paced_destination_config destination_type config rate_limit route_key =
     (let result = ddel (u ''_route_udp_event_rate'') config
      in if destination_type = u ''SYSLOG_UDP'' \<and> dget_none rate_limit (u ''enabled'') \<noteq> JBool False \<and>
            (dget rate_limit (u ''per_second'') \<noteq> None \<or> dget rate_limit (u ''burst_size'') \<noteq> None)
         then dset (u ''_route_udp_event_rate'')
                (JDict [(u ''route_id'', JInt route_key),
                        (u ''per_second'', dget_none rate_limit (u ''per_second'')),
                        (u ''burst_size'', dget_none rate_limit (u ''burst_size''))]) result
         else result)"

section \<open>The contract of a fixed-window limiter\<close>

text \<open>
  The times at which a sequence of calls for one key was granted, and how many of them fall into
  the interval of length \<open>p\<close> that starts at \<open>a\<close>.
\<close>

fun grants ::
  "(int \<Rightarrow> dict \<Rightarrow> rat \<Rightarrow> 'st \<Rightarrow> bool result \<times> 'st) \<Rightarrow> int \<Rightarrow> dict \<Rightarrow> rat list \<Rightarrow> 'st \<Rightarrow> rat list" where
  "grants allow k cfg [] st = []"
| "grants allow k cfg (t # ts) st =
     (if fst (allow k cfg t st) = Inr True then [t] else []) @
     grants allow k cfg ts (snd (allow k cfg t st))"

definition count_in :: "rat \<Rightarrow> rat \<Rightarrow> rat list \<Rightarrow> nat" where
  "count_in a p ts = length (filter (\<lambda>t. a \<le> t \<and> t < a + p) ts)"

text \<open>
  What the two limiters promise: a call looks at and changes only the window of its key, it opens a
  window when there is none or the old one has run out, counts within a window, and refuses when
  the window is full.
\<close>

locale window_limiter =
  fixes allow :: "int \<Rightarrow> dict \<Rightarrow> rat \<Rightarrow> 'st \<Rightarrow> bool result \<times> 'st"
    and look :: "'st \<Rightarrow> int \<Rightarrow> window option"
  assumes frame: "k' \<noteq> k \<Longrightarrow> look (snd (allow k cfg now st)) k' = look st k'"
    and unlimited: "read_limit cfg = Inr None \<Longrightarrow> allow k cfg now st = (Inr True, st)"
    and invalid: "read_limit cfg = Inl e \<Longrightarrow> allow k cfg now st = (Inl e, st)"
    and opens: "read_limit cfg = Inr (Some (m, p)) \<Longrightarrow>
        (case look st k of None \<Rightarrow> True | Some (ws, _) \<Rightarrow> fval_reached (now - ws) p) \<Longrightarrow>
        fst (allow k cfg now st) = Inr True \<and> look (snd (allow k cfg now st)) k = Some (now, 1)"
    and counts: "read_limit cfg = Inr (Some (m, p)) \<Longrightarrow> look st k = Some (ws, n) \<Longrightarrow>
        \<not> fval_reached (now - ws) p \<Longrightarrow> n < m \<Longrightarrow>
        fst (allow k cfg now st) = Inr True \<and> look (snd (allow k cfg now st)) k = Some (ws, n + 1)"
    and refuses: "read_limit cfg = Inr (Some (m, p)) \<Longrightarrow> look st k = Some (ws, n) \<Longrightarrow>
        \<not> fval_reached (now - ws) p \<Longrightarrow> m \<le> n \<Longrightarrow> allow k cfg now st = (Inr False, st)"
begin

lemma count_in_simps [simp]:
  "count_in a p [] = 0"
  "count_in a p (t # ts) = (if a \<le> t \<and> t < a + p then Suc (count_in a p ts) else count_in a p ts)"
  by (simp_all add: count_in_def)

lemma grants_subset: "set (grants allow k cfg ts st) \<subseteq> set ts"
proof (induction ts arbitrary: st)
  case (Cons t ts)
  then show ?case by auto
qed simp

lemma count_in_late: "\<forall>t \<in> set ts. a + p \<le> t \<Longrightarrow> count_in a p (grants allow k cfg ts st) = 0"
  using grants_subset [of k cfg ts st] by (force simp: count_in_def filter_empty_conv)


text \<open>A call that falls into the open window, and one that does not.\<close>

lemma step_cases:
  assumes l: "read_limit cfg = Inr (Some (m, FNum p))" and s: "look st k = Some (ws, n)"
  obtains (fresh) "ws + p \<le> t" "fst (allow k cfg t st) = Inr True"
      "look (snd (allow k cfg t st)) k = Some (t, 1)"
  | (inside) "t < ws + p" "n < m" "fst (allow k cfg t st) = Inr True"
      "look (snd (allow k cfg t st)) k = Some (ws, n + 1)"
  | (full) "t < ws + p" "m \<le> n" "fst (allow k cfg t st) \<noteq> Inr True" "snd (allow k cfg t st) = st"
proof (cases "ws + p \<le> t")
  case True
  then have "fval_reached (t - ws) (FNum p)" by (simp add: fval_reached_def)
  with opens [OF l, where st = st and k = k and now = t] s True that(1) show ?thesis by simp
next
  case False
  then have r: "\<not> fval_reached (t - ws) (FNum p)" by (simp add: fval_reached_def)
  show ?thesis
  proof (cases "n < m")
    case True
    with counts [OF l s r] False that(2) show ?thesis by simp
  next
    case False
    with refuses [OF l s r] \<open>\<not> ws + p \<le> t\<close> that(3) show ?thesis by simp
  qed
qed

text \<open>Within the open window at most the rest of the budget is granted.\<close>

lemma open_window_bound:
  assumes l: "read_limit cfg = Inr (Some (m, FNum p))" and "0 < p"
  shows "sorted (ws # ts) \<Longrightarrow> look st k = Some (ws, n) \<Longrightarrow> n \<le> m \<Longrightarrow> a \<le> ws \<Longrightarrow>
    int (count_in a p (grants allow k cfg ts st)) \<le> m - n"
proof (induction ts arbitrary: st n)
  case (Cons t ts)
  have late: "count_in a p (grants allow k cfg ts st') = 0" if "ws + p \<le> t" for st'
    using Cons.prems that by (intro count_in_late) auto
  show ?case
  proof (cases rule: step_cases [OF l Cons.prems(2), of t, case_names fresh inside full])
    case fresh
    with Cons.prems late show ?thesis by simp
  next
    case inside
    with Cons.IH [of "snd (allow k cfg t st)" "n + 1"] Cons.prems show ?thesis by auto
  next
    case full
    with Cons.IH [of st n] Cons.prems show ?thesis by simp
  qed
qed simp

lemma later_bound:
  assumes l: "read_limit cfg = Inr (Some (m, FNum p))" and "0 < p"
  shows "sorted (ws # ts) \<Longrightarrow> look st k = Some (ws, n) \<Longrightarrow> n \<le> m \<Longrightarrow> 0 \<le> n \<Longrightarrow> \<forall>t \<in> set ts. a \<le> t \<Longrightarrow>
    int (count_in a p (grants allow k cfg ts st)) \<le> 2 * m - n"
proof (induction ts arbitrary: st n ws)
  case (Cons t ts)
  show ?case
  proof (cases rule: step_cases [OF l Cons.prems(2), of t, case_names fresh inside full])
    case fresh
    have "int (count_in a p (grants allow k cfg ts (snd (allow k cfg t st)))) \<le> m - 1" if "1 \<le> m"
      using Cons.prems fresh that
      by (intro open_window_bound [OF l \<open>0 < p\<close>, where ws = t]) auto
    moreover have "1 \<le> m" using l by (auto simp: read_limit_def rbind_Inr_iff split: if_splits)
    ultimately show ?thesis using fresh Cons.prems by auto
  next
    case inside
    with Cons.IH [of ws "snd (allow k cfg t st)" "n + 1"] Cons.prems show ?thesis by auto
  next
    case full
    with Cons.IH [of ws st n] Cons.prems show ?thesis by auto
  qed
qed simp

lemma window_bound:
  assumes l: "read_limit cfg = Inr (Some (m, FNum p))" and "0 < p"
  shows "sorted (ws # ts) \<Longrightarrow> look st k = Some (ws, n) \<Longrightarrow> n \<le> m \<Longrightarrow> 0 \<le> n \<Longrightarrow>
    int (count_in a p (grants allow k cfg ts st)) \<le> 2 * m"
proof (induction ts arbitrary: st n ws)
  case (Cons t ts)
  have m: "1 \<le> m" using l by (auto simp: read_limit_def rbind_Inr_iff split: if_splits)
  show ?case
  proof (cases "a \<le> t")
    case True
    with Cons.prems have "\<forall>x \<in> set (t # ts). a \<le> x" by auto
    from later_bound [OF l \<open>0 < p\<close> Cons.prems this] Cons.prems show ?thesis by linarith
  next
    case False
    show ?thesis
    proof (cases rule: step_cases [OF l Cons.prems(2), of t, case_names fresh inside full])
      case fresh
      with Cons.IH [of t "snd (allow k cfg t st)" 1] Cons.prems m False show ?thesis by auto
    next
      case inside
      with Cons.IH [of ws "snd (allow k cfg t st)" "n + 1"] Cons.prems False show ?thesis by auto
    next
      case full
      with Cons.IH [of ws st n] Cons.prems False show ?thesis by auto
    qed
  qed
qed (use l in \<open>auto simp: read_limit_def rbind_Inr_iff split: if_splits\<close>)

lemma grants_bound:
  assumes l: "read_limit cfg = Inr (Some (m, FNum p))" and "sorted ts" "look st k = None"
  shows "int (count_in a p (grants allow k cfg ts st)) \<le> 2 * m"
proof (cases ts)
  case (Cons t ts')
  have m: "1 \<le> m" and p: "0 < p"
    using l by (auto simp: read_limit_def rbind_Inr_iff fval_nonpos_def split: if_splits)
  from opens [OF l, where st = st and k = k and now = t] assms(3)
  have o: "fst (allow k cfg t st) = Inr True" "look (snd (allow k cfg t st)) k = Some (t, 1)" by simp_all
  show ?thesis
  proof (cases "a \<le> t")
    case True
    with assms(2) Cons have "\<forall>x \<in> set ts'. a \<le> x" by auto
    with later_bound [OF l p _ o(2), of ts' a] assms(2) Cons o m show ?thesis by auto
  next
    case False
    with window_bound [OF l p _ o(2), of ts' a] assms(2) Cons o m show ?thesis by auto
  qed
qed (use l in \<open>auto simp: read_limit_def rbind_Inr_iff split: if_splits\<close>)

end

interpretation dest: window_limiter destination_allow "\<lambda>st. dget (dl_windows st)"
  by unfold_locales
     (auto simp: destination_allow_def dict_simps split: sum.splits option.splits prod.splits if_splits)

interpretation src: window_limiter source_allow "\<lambda>st. dget (sl_windows st)"
  by unfold_locales
     (auto simp: source_allow_def dict_simps split: sum.splits option.splits prod.splits if_splits)

section \<open>Properties\<close>

text \<open>
  C17. A fixed window lets at most two budgets through.  For both limiters, whatever the times of the
  calls for a key, the calls granted within any interval as long as the window are at most twice
  the configured maximum (the code counts per fixed window, not per sliding window).
\<close>

theorem limiter_window_bound:
  assumes "read_limit cfg = Inr (Some (max_events, FNum per_seconds))" and "sorted ts"
    and "dget (dl_windows dl) k = None" and "dget (sl_windows sl) k = None"
  shows "int (count_in a per_seconds (grants destination_allow k cfg ts dl)) \<le> 2 * max_events \<and>
    int (count_in a per_seconds (grants source_allow k cfg ts sl)) \<le> 2 * max_events"
  using dest.grants_bound [OF assms(1-3)] src.grants_bound [OF assms(1,2,4)] by blast

theorem limiter_window_bound_witness:
  "int (count_in 5 10 (grants destination_allow 1
     [(u ''max_events'', JInt 2), (u ''per_seconds'', JInt 10)] [0, 9, 9, 10, 11, 12]
     \<lparr>dl_windows = [], dl_pacing = []\<rparr>)) \<le> 4"
  using limiter_window_bound [of "[(u ''max_events'', JInt 2), (u ''per_seconds'', JInt 10)]" 2 10
      "[0, 9, 9, 10, 11, 12]" "\<lparr>dl_windows = [], dl_pacing = []\<rparr>" 1 "\<lparr>sl_windows = []\<rparr>" 5]
  by (simp add: read_limit_def dget_default_def py_int_def py_float_def fval_nonpos_def)

text \<open>The reservations of one route with constant settings: the clock of each one.\<close>

fun reservations :: "int \<Rightarrow> rat \<Rightarrow> int \<Rightarrow> rat list \<Rightarrow> destination_limiter \<Rightarrow> rat list \<times> destination_limiter" where
  "reservations k rate burst [] st = ([], st)"
| "reservations k rate burst (now # ts) st =
     (case reserve_event k rate burst now st of
        (Inl _, st1) \<Rightarrow> reservations k rate burst ts st1
      | (Inr delay, st1) \<Rightarrow>
          (case reservations k rate burst ts st1 of (cs, st2) \<Rightarrow> ((now + delay) # cs, st2)))"

text \<open>One reservation spends at most the tokens that have accrued since the previous one.\<close>

lemma reserve_step:
  assumes "0 < rate" "0 < burst" "reserve_event k rate burst now st = (Inr delay, st')"
  shows "0 \<le> delay \<and> (\<exists>t'. dget (dl_pacing st') k = Some (now + delay, t', rate, burst) \<and>
    0 \<le> t' \<and> t' \<le> of_int burst - 1 \<and>
    (\<forall>c t. dget (dl_pacing st) k = Some (c, t, rate, burst) \<longrightarrow>
       c \<le> now + delay \<and> t' + 1 \<le> t + (now + delay - c) * rate))"
proof -
  define s where "s = (case dget (dl_pacing st) k of
              None \<Rightarrow> (now, of_int burst)
            | Some (c, t, r, b) \<Rightarrow>
                if (r, b) \<noteq> (rate, burst) then (now, of_int burst)
                else (max now c, min (of_int burst) (t + (max now c - c) * rate)))"
  obtain c0 t0 where s': "s = (c0, t0)" by (cases s)
  have n: "now \<le> c0" and tb: "t0 \<le> of_int burst"
    using s' by (auto simp: s_def split: option.splits prod.splits if_splits)
  have prev: "c \<le> c0 \<and> t0 \<le> t + (c0 - c) * rate" if "dget (dl_pacing st) k = Some (c, t, rate, burst)" for c t
    using s' that by (auto simp: s_def)
  have b: "1 \<le> (of_int burst :: rat)" using assms(2) by linarith
  show ?thesis
  proof (cases "1 \<le> t0")
    case True
    with assms s' n have "delay = c0 - now"
      "dget (dl_pacing st') k = Some (c0, t0 - 1, rate, burst)"
      by (auto simp: reserve_event_def s_def [symmetric] dict_simps Let_def max_def)
    with True n tb prev show ?thesis by fastforce
  next
    case False
    let ?c = "c0 + (1 - t0) / rate"
    have le: "c0 \<le> ?c" using False assms(1) by simp
    with False assms s' n have "delay = ?c - now" "dget (dl_pacing st') k = Some (?c, 0, rate, burst)"
      by (auto simp: reserve_event_def s_def [symmetric] dict_simps Let_def max_def)
    moreover have "1 \<le> t + (?c - c) * rate" if "dget (dl_pacing st) k = Some (c, t, rate, burst)" for c t
    proof -
      have "(?c - c) * rate = (c0 - c) * rate + (1 - t0)" using assms(1) by (simp add: field_simps)
      with prev [OF that] show ?thesis by linarith
    qed
    ultimately show ?thesis using le n b prev by fastforce
  qed
qed

lemma reservations_rate:
  assumes "0 < rate" "0 < burst"
  shows "dget (dl_pacing st) k = Some (c, t, rate, burst) \<Longrightarrow>
    reservations k rate burst ts st = (cs, st') \<Longrightarrow> cs \<noteq> [] \<Longrightarrow>
    of_nat (length cs) \<le> t + (last cs - c) * rate"
proof (induction ts arbitrary: st c t cs)
  case (Cons now ts)
  obtain delay st1 where r: "reserve_event k rate burst now st = (Inr delay, st1)"
    using assms by (cases "reserve_event k rate burst now st") (auto simp: reserve_event_def Let_def split: prod.splits)
  from reserve_step [OF assms r] Cons.prems(1) obtain t' where
    s: "dget (dl_pacing st1) k = Some (now + delay, t', rate, burst)" "0 \<le> t'"
    and acc: "t' + 1 \<le> t + (now + delay - c) * rate" by blast
  obtain cs1 where cs1: "reservations k rate burst ts st1 = (cs1, st')" "cs = (now + delay) # cs1"
    using Cons.prems(2) r by (auto split: prod.splits)
  show ?case
  proof (cases "cs1 = []")
    case True
    with cs1 acc s show ?thesis by simp
  next
    case False
    from Cons.IH [OF s(1) cs1(1) False] acc cs1 False show ?thesis by (simp add: algebra_simps)
  qed
qed simp

text \<open>
  C18. Datagram pacing respects the rate and the burst.  Of any run of reservations of a route with
  the same settings, the number is at most the burst plus the rate times the time between the
  first and the last reserved sending time, however the calls are spread in time.
\<close>

theorem pacing_bound:
  assumes "0 < rate" "0 < burst" "reservations k rate burst ts st = (cs, st')" "cs \<noteq> []"
  shows "of_nat (length cs) \<le> of_int burst + (last cs - hd cs) * rate"
proof (cases ts)
  case (Cons now ts1)
  obtain delay st1 where r: "reserve_event k rate burst now st = (Inr delay, st1)"
    using assms by (cases "reserve_event k rate burst now st") (auto simp: reserve_event_def Let_def split: prod.splits)
  from reserve_step [OF assms(1,2) r] obtain t' where
    s: "dget (dl_pacing st1) k = Some (now + delay, t', rate, burst)" and b: "t' \<le> of_int burst - 1" by blast
  obtain cs1 where cs1: "reservations k rate burst ts1 st1 = (cs1, st')" "cs = (now + delay) # cs1"
    using assms(3) Cons r by (auto split: prod.splits)
  have "1 \<le> (of_int burst :: rat)" using assms(2) by linarith
  with reservations_rate [OF assms(1,2) s cs1(1)] b cs1 show ?thesis by (cases "cs1 = []") auto
qed (use assms in simp)

theorem pacing_bound_witness:
  "fst (reservations 1 2 3 [0, 0, 0, 0, 0] \<lparr>dl_windows = [], dl_pacing = []\<rparr>) = [0, 0, 0, 1/2, 1] \<and>
   (5 :: rat) \<le> of_int 3 + (1 - 0) * 2"
proof -
  let ?st = "\<lparr>dl_windows = [], dl_pacing = []\<rparr>"
  have c: "fst (reservations 1 2 3 [0, 0, 0, 0, 0] ?st) = [0, 0, 0, 1/2, 1]"
    by (simp add: reserve_event_def Let_def)
  obtain st' where "reservations 1 2 3 [0, 0, 0, 0, 0] ?st = ([0, 0, 0, 1/2, 1], st')"
    using c by (metis prod.collapse)
  from pacing_bound [OF _ _ this] c show ?thesis by simp
qed

end
