(* ===== verification/Delivery.thy ===== *)
theory Delivery
  imports Dedup Rate_Limit
begin

text \<open>
  Sending the events of one route: the delivery primitives of \<^verbatim>\<open>app/runners/stream_runner.py\<close>
  (\<open>_send_route_events\<close>, \<open>_attempt_failover_send\<close>, \<open>_apply_failure_policy\<close>, \<open>_deliver_dynamic_routes\<close>)
  with \<^verbatim>\<open>app/failover_routing\<close>.  The destination adapters, the clock, the replay recorder and the
  secret store are parameters over an abstract world; \<open>rn_calls\<close> is the history of adapter calls.
  Log entries keep their stage and route; latencies, payload samples and the notification of a
  waiting AI request are not modelled.
\<close>

section \<open>Data\<close>

datatype exc_kind = EAiPolicy | EDestinationSend | EOsError | EHttpxTimeout | EHttpxStatus | EOther

record send_exc =
  se_kind :: exc_kind
  se_http_status :: "int option"
  se_cause_status :: "int option"
  se_response_status :: "int option"
  se_message :: ustr

record prefix_ctx =
  px_stream_name :: ustr
  px_stream_id :: int
  px_dest_name :: ustr
  px_dest_type :: ustr
  px_route_id :: int

record send_call =
  sc_type :: ustr
  sc_events :: "json list"
  sc_config :: dict
  sc_formatter :: "dict option"
  sc_prefix :: prefix_ctx

record destination =
  dn_id :: "int option"
  dn_name :: ustr
  dn_type :: ustr
  dn_enabled :: bool
  dn_config :: dict
  dn_rate :: dict

record route =
  rt_id :: int
  rt_enabled :: bool
  rt_dest :: destination
  rt_policy :: ustr
  rt_rate :: dict
  rt_formatter :: dict
  rt_retry :: int
  rt_backoff :: rat

record stream =
  sm_id :: int
  sm_name :: ustr
  sm_routes :: "route list"
  sm_rate :: dict

record failover_rule =
  fr_id :: int
  fr_stream :: int
  fr_enabled :: bool
  fr_primary :: int
  fr_secondary :: int

record binding =
  fb_route :: int
  fb_stream :: int
  fb_primary :: int
  fb_secondary :: int
  fb_type :: ustr
  fb_config :: dict
  fb_name :: ustr
  fb_enabled :: bool
  fb_rate :: dict

record replay_event =
  rv_destination :: int
  rv_kind :: ustr
  rv_events :: "json list"
  rv_error :: "send_exc option"
  rv_route :: "int option"
  rv_dynamic :: "int option"
  rv_failover :: "int option"

record run_opts =
  ro_persist :: bool
  ro_dry_run :: bool
  ro_replay_start :: "ustr option"
  ro_replay_end :: "ustr option"
  ro_apply_dedup :: bool

datatype log_entry = Log ustr "int option" | RegistryLog "int option" "ustr list"

text \<open>
  The world outside: an adapter send, the clock a limiter reads, a sleep, the failover rows, the
  configuration of a secondary destination with its secrets, and the replay store.
\<close>

record 'w outside =
  ow_send :: "send_call \<Rightarrow> 'w \<Rightarrow> send_exc option \<times> 'w"
  ow_clock :: "'w \<Rightarrow> rat"
  ow_sleep :: "rat \<Rightarrow> 'w \<Rightarrow> 'w"
  ow_failover_rows :: "'w \<Rightarrow> failover_rule list result"
  ow_destination :: "int \<Rightarrow> 'w \<Rightarrow> destination option"
  ow_resolve_config :: "ustr \<Rightarrow> dict \<Rightarrow> 'w \<Rightarrow> dict result"
  ow_record_replay :: "int \<Rightarrow> replay_event \<Rightarrow> 'w \<Rightarrow> 'w"

record 'w runner =
  rn_world :: 'w
  rn_limiter :: destination_limiter
  rn_dedup :: "dedup_summary option"
  rn_status :: "(int \<times> ustr) list"
  rn_disabled :: "int list"
  rn_log :: "log_entry list"
  rn_calls :: "(send_call \<times> send_exc option) list"

record send_outcome =
  so_success :: bool
  so_stage :: ustr
  so_error :: "ustr option"
  so_rate_limited :: bool
  so_dest_disabled :: bool
  so_absorbed :: bool
  so_primary_failed :: bool
  so_fo_attempted :: bool
  so_fo_succeeded :: bool
  so_fo_secondary :: bool

record failover_result =
  fo_attempted :: bool
  fo_succeeded :: bool
  fo_secondary :: bool
  fo_error :: "send_exc option"

section \<open>Failover eligibility and bindings\<close>

definition http_status_from_error :: "send_exc \<Rightarrow> int option" where
  "http_status_from_error e = (case se_http_status e of
     Some s \<Rightarrow> Some s
   | None \<Rightarrow> (case se_cause_status e of
       Some s \<Rightarrow> Some s
     | None \<Rightarrow> if se_kind e = EHttpxStatus then se_response_status e else None))"

definition is_failover_eligible_error :: "send_exc \<Rightarrow> bool" where
  "is_failover_eligible_error e =
     (if se_kind e = EAiPolicy then False
      else case http_status_from_error e of
        Some status \<Rightarrow> if status = 429 then False else 500 \<le> status \<and> status < 600
      | None \<Rightarrow> se_kind e \<in> {EDestinationSend, EOsError, EHttpxTimeout})"

fun bindings_loop :: "(int \<Rightarrow> destination option) \<Rightarrow> failover_rule list \<Rightarrow> (int \<times> binding) list \<Rightarrow> (int \<times> binding) list" where
  "bindings_loop dest [] out = out"
| "bindings_loop dest (r # rs) out =
     (if dget out (fr_primary r) \<noteq> None then bindings_loop dest rs out
      else case dest (fr_secondary r) of
        None \<Rightarrow> bindings_loop dest rs out
      | Some d \<Rightarrow> bindings_loop dest rs (dset (fr_primary r)
          \<lparr>fb_route = fr_id r, fb_stream = fr_stream r, fb_primary = fr_primary r,
           fb_secondary = fr_secondary r, fb_type = upper (dn_type d), fb_config = dn_config d,
           fb_name = dn_name d, fb_enabled = dn_enabled d, fb_rate = dn_rate d\<rparr> out))"

definition load_failover_bindings_by_primary ::
  "'w outside \<Rightarrow> int \<Rightarrow> 'w \<Rightarrow> (int \<times> binding) list result" where
  "load_failover_bindings_by_primary ow stream_id w =
     rbind (ow_failover_rows ow w) (\<lambda>rows.
       Inr (bindings_loop (\<lambda>i. ow_destination ow i w)
         (sort_key fr_id (filter (\<lambda>r. fr_stream r = stream_id \<and> fr_enabled r) rows)) []))"

text \<open>A failing read is logged and leaves no bindings.\<close>

definition bindings_or_none :: "'w outside \<Rightarrow> int \<Rightarrow> 'w \<Rightarrow> (int \<times> binding) list" where
  "bindings_or_none ow stream_id w = (case load_failover_bindings_by_primary ow stream_id w of
     Inl _ \<Rightarrow> [] | Inr b \<Rightarrow> b)"

section \<open>Primitives\<close>

definition add_log :: "log_entry \<Rightarrow> 'w runner \<Rightarrow> 'w runner" where
  "add_log e rn = rn\<lparr>rn_log := rn_log rn @ [e]\<rparr>"

definition send_to_destination :: "'w outside \<Rightarrow> send_call \<Rightarrow> 'w runner \<Rightarrow> send_exc option \<times> 'w runner" where
  "send_to_destination ow c rn = (case ow_send ow c (rn_world rn) of
     (r, w) \<Rightarrow> (r, rn\<lparr>rn_world := w, rn_calls := rn_calls rn @ [(c, r)]\<rparr>))"

text \<open>\<open>allow\<close> of the destination limiter; a broken configuration raises.\<close>

definition limiter_allows :: "'w outside \<Rightarrow> int \<Rightarrow> dict \<Rightarrow> 'w runner \<Rightarrow> bool result \<times> 'w runner" where
  "limiter_allows ow key cfg rn =
     (case destination_allow key cfg (ow_clock ow (rn_world rn)) (rn_limiter rn) of
        (r, l) \<Rightarrow> (r, rn\<lparr>rn_limiter := l\<rparr>))"

definition set_stream_status :: "int \<Rightarrow> ustr \<Rightarrow> 'w runner \<Rightarrow> 'w runner" where
  "set_stream_status stream_id status rn = rn\<lparr>rn_status := dset stream_id status (rn_status rn)\<rparr>"

definition disable_route_later :: "int \<Rightarrow> 'w runner \<Rightarrow> 'w runner" where
  "disable_route_later route_id rn = rn\<lparr>rn_disabled := List.insert route_id (rn_disabled rn)\<rparr>"

definition effective_rate_limit :: "route \<Rightarrow> destination \<Rightarrow> dict" where
  "effective_rate_limit rt d = (if rt_rate rt \<noteq> [] then rt_rate rt else dn_rate d)"

definition formatter_override :: "route \<Rightarrow> dict option" where
  "formatter_override rt = (if rt_formatter rt \<noteq> [] then Some (rt_formatter rt) else None)"

definition prefix_delivery_context :: "stream \<Rightarrow> route \<Rightarrow> prefix_ctx" where
  "prefix_delivery_context st rt = \<lparr>px_stream_name = sm_name st, px_stream_id = sm_id st,
     px_dest_name = dn_name (rt_dest rt), px_dest_type = dn_type (rt_dest rt), px_route_id = rt_id rt\<rparr>"

text \<open>The route an adapter call was made for: the id in its prefix context, 0 for a dynamic route.\<close>

definition call_route :: "send_call \<Rightarrow> int" where
  "call_route c = px_route_id (sc_prefix c)"

text \<open>
  The keys \<open>_send_to_destination\<close> adds to the configuration of every call.  The logging function and the holder of a
  waiting AI request, which it passes the same way, are no data and are left out.
\<close>

definition runtime_config :: "stream \<Rightarrow> dict \<Rightarrow> dict" where
  "runtime_config st cfg = dset (u ''_stream_id'') (JInt (sm_id st)) (dset (u ''_policy_db_short_sessions'') (JBool True) cfg)"

definition primary_call :: "stream \<Rightarrow> route \<Rightarrow> json list \<Rightarrow> send_call" where
  "primary_call st rt events =
     (let ty = upper (dn_type (rt_dest rt))
      in \<lparr>sc_type = ty, sc_events = events,
          sc_config = runtime_config st (udp_paced_destination_config ty (dn_config (rt_dest rt))
                        (effective_rate_limit rt (rt_dest rt)) (rt_id rt)),
          sc_formatter = formatter_override rt, sc_prefix = prefix_delivery_context st rt\<rparr>)"

definition record_dedup :: "int option \<Rightarrow> json list \<Rightarrow> 'w runner \<Rightarrow> 'w runner" where
  "record_dedup route_id events rn = (case rn_dedup rn of
     None \<Rightarrow> rn
   | Some s \<Rightarrow> (case record_dedup_registry_for_route_success events s of
       (keys, s1) \<Rightarrow> if keys = [] then rn
         else add_log (RegistryLog route_id keys) (rn\<lparr>rn_dedup := Some s1\<rparr>)))"

definition maybe_record_replay_event ::
  "'w outside \<Rightarrow> run_opts \<Rightarrow> stream \<Rightarrow> replay_event \<Rightarrow> 'w runner \<Rightarrow> 'w runner" where
  "maybe_record_replay_event ow opts st ev rn =
     (if ro_dry_run opts then rn
      else if ro_replay_start opts \<noteq> None \<or> ro_replay_end opts \<noteq> None then rn
      else if rv_events ev = [] \<or> rv_destination ev \<le> 0 then rn
      else case rv_error ev of
        Some e \<Rightarrow> if se_kind e = EAiPolicy then rn
                  else rn\<lparr>rn_world := ow_record_replay ow (sm_id st) ev (rn_world rn)\<rparr>
      | None \<Rightarrow> rn\<lparr>rn_world := ow_record_replay ow (sm_id st) ev (rn_world rn)\<rparr>)"

section \<open>Failover\<close>

definition no_failover :: failover_result where
  "no_failover = \<lparr>fo_attempted = False, fo_succeeded = False, fo_secondary = False, fo_error = None\<rparr>"

definition failover_skipped :: failover_result where
  "failover_skipped = no_failover\<lparr>fo_attempted := True\<rparr>"

definition FAILOVER_KEY :: "int \<Rightarrow> int" where
  "FAILOVER_KEY i = - (i + 1000000)"

definition secondary_call ::
  "'w outside \<Rightarrow> stream \<Rightarrow> int \<Rightarrow> binding \<Rightarrow> json list \<Rightarrow> dict option \<Rightarrow> 'w \<Rightarrow> send_call" where
  "secondary_call ow st route_id b events fmt w =
     \<lparr>sc_type = fb_type b, sc_events = events,
      sc_config = runtime_config st (udp_paced_destination_config (fb_type b)
        (case ow_resolve_config ow (fb_type b) (fb_config b) w of Inr c \<Rightarrow> c | Inl _ \<Rightarrow> fb_config b)
        (fb_rate b) (FAILOVER_KEY (fb_route b))),
      sc_formatter = fmt,
      sc_prefix = \<lparr>px_stream_name = sm_name st, px_stream_id = sm_id st, px_dest_name = fb_name b,
        px_dest_type = fb_type b, px_route_id = route_id\<rparr>\<rparr>"

definition attempt_failover_send ::
  "'w outside \<Rightarrow> stream \<Rightarrow> int \<Rightarrow> int \<Rightarrow> json list \<Rightarrow> dict option \<Rightarrow> (int \<times> binding) list \<Rightarrow> send_exc
     \<Rightarrow> 'w runner \<Rightarrow> failover_result result \<times> 'w runner" where
  "attempt_failover_send ow st route_id primary_id events fmt bindings err rn =
     (if \<not> is_failover_eligible_error err then (Inr no_failover, rn)
      else case dget bindings primary_id of
        None \<Rightarrow> (Inr no_failover, rn)
      | Some b \<Rightarrow>
          if \<not> fb_enabled b then
            (Inr failover_skipped, add_log (Log (u ''failover_route_attempt'') (Some route_id)) rn)
          else (case limiter_allows ow (FAILOVER_KEY (fb_route b)) (fb_rate b) rn of
            (Inl e, rn1) \<Rightarrow> (Inl e, rn1)
          | (Inr False, rn1) \<Rightarrow>
              (Inr failover_skipped, add_log (Log (u ''failover_route_attempt'') (Some route_id)) rn1)
          | (Inr True, rn1) \<Rightarrow>
              (let rn2 = add_log (Log (u ''failover_route_attempt'') (Some route_id)) rn1
               in case send_to_destination ow (secondary_call ow st route_id b events fmt (rn_world rn2)) rn2 of
                    (None, rn3) \<Rightarrow>
                      (Inr (failover_skipped\<lparr>fo_succeeded := True, fo_secondary := True\<rparr>),
                       add_log (Log (u ''failover_route_send_success'') (Some route_id)) rn3)
                  | (Some e2, rn3) \<Rightarrow>
                      (Inr (failover_skipped\<lparr>fo_secondary := True, fo_error := Some e2\<rparr>),
                       add_log (Log (u ''failover_route_send_failed'') (Some route_id)) rn3))))"

section \<open>Failure policies\<close>

text \<open>The retry loop with exponential backoff: \<open>n\<close> attempts are left, \<open>idx\<close> were made.\<close>

fun retry_loop ::
  "'w outside \<Rightarrow> send_call \<Rightarrow> rat \<Rightarrow> int \<Rightarrow> nat \<Rightarrow> nat \<Rightarrow> send_exc option \<Rightarrow> 'w runner
     \<Rightarrow> (bool \<times> send_exc option) \<times> 'w runner" where
  "retry_loop ow c backoff route_id 0 idx prev rn = ((False, prev), rn)"
| "retry_loop ow c backoff route_id (Suc n) idx prev rn =
     (case send_to_destination ow c rn of
        (None, rn1) \<Rightarrow>
          ((True, None), record_dedup (Some route_id) (sc_events c)
             (add_log (Log (u ''route_retry_success'') (Some route_id)) rn1))
      | (Some e, rn1) \<Rightarrow>
          retry_loop ow c backoff route_id n (Suc idx) (Some e)
            (rn1\<lparr>rn_world := ow_sleep ow (max (backoff * 2 ^ idx) 0) (rn_world rn1)\<rparr>))"

definition apply_failure_policy ::
  "'w outside \<Rightarrow> run_opts \<Rightarrow> stream \<Rightarrow> route \<Rightarrow> json list \<Rightarrow> 'w runner \<Rightarrow> bool \<times> 'w runner" where
  "apply_failure_policy ow opts st rt events rn =
     (let policy = upper (rt_policy rt)
      in if policy = u ''LOG_AND_CONTINUE'' then (True, rn)
         else if policy = u ''PAUSE_STREAM_ON_FAILURE'' then
           (False, set_stream_status (sm_id st) (u ''PAUSED'') rn)
         else if policy = u ''DISABLE_ROUTE_ON_FAILURE'' then (False, disable_route_later (rt_id rt) rn)
         else if policy = u ''RETRY_AND_BACKOFF'' then
           (if events = [] then (False, rn)
            else (case retry_loop ow (primary_call st rt events) (rt_backoff rt) (rt_id rt)
                         (nat (rt_retry rt)) 0 None rn of
              ((True, _), rn1) \<Rightarrow> (True, rn1)
            | ((False, prev), rn1) \<Rightarrow>
                (let rn2 = add_log (Log (u ''route_retry_failed'') (Some (rt_id rt))) rn1
                 in case dn_id (rt_dest rt) of
                      None \<Rightarrow> (False, rn2)
                    | Some did \<Rightarrow> (False, maybe_record_replay_event ow opts st
                        \<lparr>rv_destination = did, rv_kind = u ''base_route'', rv_events = events, rv_error = prev,
                         rv_route = (if rt_id rt = 0 then None else Some (rt_id rt)),
                         rv_dynamic = None, rv_failover = None\<rparr> rn2))))
         else (False, add_log (Log (u ''route_unknown_failure_policy'') (Some (rt_id rt))) rn))"

section \<open>Sending one route\<close>

definition base_outcome :: "bool \<Rightarrow> ustr \<Rightarrow> ustr option \<Rightarrow> send_outcome" where
  "base_outcome ok stage err = \<lparr>so_success = ok, so_stage = stage, so_error = err, so_rate_limited = False,
     so_dest_disabled = False, so_absorbed = False, so_primary_failed = False, so_fo_attempted = False,
     so_fo_succeeded = False, so_fo_secondary = False\<rparr>"

text \<open>The replay record after a failure: for the secondary when it was tried, else for the primary.\<close>

definition record_failure ::
  "'w outside \<Rightarrow> run_opts \<Rightarrow> stream \<Rightarrow> route \<Rightarrow> json list \<Rightarrow> send_exc \<Rightarrow> (int \<times> binding) list option
     \<Rightarrow> failover_result \<Rightarrow> 'w runner \<Rightarrow> 'w runner" where
  "record_failure ow opts st rt events err bindings fo rn = (case bindings of
     None \<Rightarrow> rn
   | Some bs \<Rightarrow>
       (let route = (if rt_id rt = 0 then None else Some (rt_id rt));
            fo_binding = (case dn_id (rt_dest rt) of Some did \<Rightarrow> dget bs did | None \<Rightarrow> None)
        in if fo_secondary fo \<and> \<not> fo_succeeded fo \<and> fo_binding \<noteq> None then
             maybe_record_replay_event ow opts st
               \<lparr>rv_destination = fb_secondary (the fo_binding), rv_kind = u ''failover_secondary'',
                rv_events = events, rv_error = fo_error fo, rv_route = route, rv_dynamic = None,
                rv_failover = Some (fb_route (the fo_binding))\<rparr> rn
           else if \<not> fo_succeeded fo \<and> \<not> fo_secondary fo \<and> dn_id (rt_dest rt) \<noteq> None then
             maybe_record_replay_event ow opts st
               \<lparr>rv_destination = the (dn_id (rt_dest rt)), rv_kind = u ''base_route'', rv_events = events,
                rv_error = Some err, rv_route = route, rv_dynamic = None, rv_failover = None\<rparr> rn
           else rn))"

text \<open>
  What happens after the primary adapter raised: failover, then the failure policy, then the replay
  record.  \<open>given\<close> are the bindings the caller already loaded.
\<close>

definition failover_step ::
  "'w outside \<Rightarrow> stream \<Rightarrow> route \<Rightarrow> json list \<Rightarrow> (int \<times> binding) list option \<Rightarrow> send_exc
     \<Rightarrow> 'w runner \<Rightarrow> (failover_result \<times> (int \<times> binding) list option) result \<times> 'w runner" where
  "failover_step ow st rt events given err rn = (case dn_id (rt_dest rt) of
     None \<Rightarrow> (Inr (no_failover, given), rn)
   | Some did \<Rightarrow>
       (let bs = (case given of Some b \<Rightarrow> b | None \<Rightarrow> bindings_or_none ow (sm_id st) (rn_world rn))
        in case attempt_failover_send ow st (rt_id rt) did events (formatter_override rt) bs err rn of
             (Inl e, rn1) \<Rightarrow> (Inl e, rn1)
           | (Inr fo, rn1) \<Rightarrow> (Inr (fo, Some bs), rn1)))"

definition after_failure ::
  "'w outside \<Rightarrow> run_opts \<Rightarrow> stream \<Rightarrow> route \<Rightarrow> json list \<Rightarrow> (int \<times> binding) list option \<Rightarrow> bool
     \<Rightarrow> send_exc \<Rightarrow> 'w runner \<Rightarrow> send_outcome result \<times> 'w runner" where
  "after_failure ow opts st rt events given record_replay err rn =
     (let rn0 = add_log (Log (u ''route_send_failed'') (Some (rt_id rt))) rn
      in case failover_step ow st rt events given err rn0 of
           (Inl e, rn1) \<Rightarrow> (Inl e, rn1)
         | (Inr (fo, bindings), rn1) \<Rightarrow>
             (let (recovered, rn2) =
                    (if fo_attempted fo \<and> fo_succeeded fo then (True, rn1)
                     else apply_failure_policy ow opts st rt events rn1);
                  recovered = (if fo_attempted fo \<and> \<not> fo_succeeded fo then False else recovered);
                  rn3 = (if record_replay then record_failure ow opts st rt events err bindings fo rn2 else rn2);
                  failed = (base_outcome False (u ''route_send_failed'') (Some (se_message err)))
                    \<lparr>so_primary_failed := True, so_fo_attempted := fo_attempted fo, so_fo_secondary := fo_secondary fo\<rparr>
              in (Inr (if recovered \<and> fo_attempted fo \<and> fo_succeeded fo then
                         (base_outcome True (u ''failover_route_send_success'') None)
                           \<lparr>so_primary_failed := True, so_fo_attempted := True, so_fo_succeeded := True,
                            so_fo_secondary := fo_secondary fo\<rparr>
                       else if recovered \<and> upper (rt_policy rt) = u ''LOG_AND_CONTINUE'' then
                         failed\<lparr>so_absorbed := True\<rparr>
                       else if recovered then
                         (base_outcome True (u ''route_send_success'') None)
                           \<lparr>so_primary_failed := True, so_fo_attempted := fo_attempted fo,
                            so_fo_secondary := fo_secondary fo\<rparr>
                       else failed), rn3)))"

definition send_route_events ::
  "'w outside \<Rightarrow> run_opts \<Rightarrow> stream \<Rightarrow> route \<Rightarrow> json list \<Rightarrow> (int \<times> binding) list option \<Rightarrow> bool
     \<Rightarrow> 'w runner \<Rightarrow> send_outcome result \<times> 'w runner" where
  "send_route_events ow opts st rt events given record_replay rn =
     (if \<not> dn_enabled (rt_dest rt) then
        (Inr ((base_outcome False (u ''route_skip'') (Some (u ''destination disabled'')))\<lparr>so_dest_disabled := True\<rparr>), rn)
      else (case limiter_allows ow (rt_id rt) (effective_rate_limit rt (rt_dest rt)) rn of
        (Inl e, rn1) \<Rightarrow> (Inl e, rn1)
      | (Inr False, rn1) \<Rightarrow>
          (Inr ((base_outcome False (u ''destination_rate_limited'') (Some (u ''destination rate limited'')))
                  \<lparr>so_rate_limited := True\<rparr>),
           add_log (Log (u ''destination_rate_limited'') (Some (rt_id rt)))
             (set_stream_status (sm_id st) (u ''RATE_LIMITED_DESTINATION'') rn1))
      | (Inr True, rn1) \<Rightarrow>
          (case send_to_destination ow (primary_call st rt events) rn1 of
             (None, rn2) \<Rightarrow>
               (Inr (base_outcome True (u ''route_send_success'') None),
                record_dedup (Some (rt_id rt)) events
                  (add_log (Log (u ''route_send_success'') (Some (rt_id rt))) rn2))
           | (Some err, rn2) \<Rightarrow> after_failure ow opts st rt events given record_replay err rn2)))"

definition deliver_single_route ::
  "'w outside \<Rightarrow> run_opts \<Rightarrow> stream \<Rightarrow> int \<Rightarrow> json list \<Rightarrow> 'w runner \<Rightarrow> send_outcome result \<times> 'w runner" where
  "deliver_single_route ow opts st route_id events rn =
     (case find (\<lambda>r. rt_id r = route_id) (sm_routes st) of
        None \<Rightarrow> (Inr (base_outcome False (u ''route_send_failed'') (Some (u ''route not found''))), rn)
      | Some rt \<Rightarrow> send_route_events ow opts st rt events None True rn)"

section \<open>Dynamic routes\<close>

record dynamic_match =
  dm_route :: int
  dm_dest :: int
  dm_enabled :: bool
  dm_rate :: dict
  dm_type :: ustr
  dm_config :: dict
  dm_name :: ustr

definition dynamic_call :: "stream \<Rightarrow> dynamic_match \<Rightarrow> json list \<Rightarrow> send_call" where
  "dynamic_call st m events =
     \<lparr>sc_type = upper (dm_type m), sc_events = events,
      sc_config = runtime_config st (udp_paced_destination_config (upper (dm_type m)) (dm_config m) (dm_rate m) (- dm_route m)),
      sc_formatter = None,
      sc_prefix = \<lparr>px_stream_name = sm_name st, px_stream_id = sm_id st, px_dest_name = dm_name m,
        px_dest_type = upper (dm_type m), px_route_id = 0\<rparr>\<rparr>"

fun dynamic_loop ::
  "'w outside \<Rightarrow> run_opts \<Rightarrow> stream \<Rightarrow> json list \<Rightarrow> int list \<Rightarrow> dynamic_match list \<Rightarrow> 'w runner
     \<Rightarrow> nat result \<times> 'w runner" where
  "dynamic_loop ow opts st events skip [] rn = (Inr 0, rn)"
| "dynamic_loop ow opts st events skip (m # ms) rn =
     (if dm_dest m \<in> set skip then
        dynamic_loop ow opts st events skip ms (add_log (Log (u ''dynamic_route_send_skip'') None) rn)
      else if \<not> dm_enabled m then
        dynamic_loop ow opts st events skip ms (add_log (Log (u ''dynamic_route_send_skip'') None) rn)
      else (case limiter_allows ow (- dm_route m) (dm_rate m) rn of
        (Inl e, rn1) \<Rightarrow> (Inl e, rn1)
      | (Inr False, rn1) \<Rightarrow>
          dynamic_loop ow opts st events skip ms (add_log (Log (u ''dynamic_route_send_rate_limited'') None) rn1)
      | (Inr True, rn1) \<Rightarrow>
          (case send_to_destination ow (dynamic_call st m events) rn1 of
             (None, rn2) \<Rightarrow>
               (case dynamic_loop ow opts st events skip ms
                       (add_log (Log (u ''dynamic_route_send_success'') None) rn2) of
                  (Inl e, rn3) \<Rightarrow> (Inl e, rn3)
                | (Inr n, rn3) \<Rightarrow> (Inr (Suc n), rn3))
           | (Some err, rn2) \<Rightarrow>
               dynamic_loop ow opts st events skip ms
                 (maybe_record_replay_event ow opts st
                    \<lparr>rv_destination = dm_dest m, rv_kind = u ''dynamic_route'', rv_events = events,
                     rv_error = Some err, rv_route = None, rv_dynamic = Some (dm_route m), rv_failover = None\<rparr>
                    (add_log (Log (u ''dynamic_route_send_failed'') None) rn2)))))"

definition deliver_dynamic_routes ::
  "'w outside \<Rightarrow> run_opts \<Rightarrow> stream \<Rightarrow> json list \<Rightarrow> dynamic_match list \<Rightarrow> int list \<Rightarrow> 'w runner
     \<Rightarrow> nat result \<times> 'w runner" where
  "deliver_dynamic_routes ow opts st events matches skip rn =
     (if events = [] \<or> matches = [] then (Inr 0, rn) else dynamic_loop ow opts st events skip matches rn)"

section \<open>The history of adapter calls\<close>

lemma keeps_calls [simp]:
  "rn_calls (add_log e rn) = rn_calls rn"
  "rn_calls (set_stream_status i s rn) = rn_calls rn"
  "rn_calls (disable_route_later i rn) = rn_calls rn"
  "rn_calls (maybe_record_replay_event ow opts st ev rn) = rn_calls rn"
  "rn_calls (record_dedup j evs rn) = rn_calls rn"
  "rn_calls (record_failure ow opts st rt evs err bs fo rn) = rn_calls rn"
  by (auto simp: add_log_def set_stream_status_def disable_route_later_def maybe_record_replay_event_def
      record_dedup_def record_failure_def Let_def split: option.splits prod.splits)

lemma limiter_keeps_calls [simp]: "limiter_allows ow k cfg rn = (r, rn1) \<Longrightarrow> rn_calls rn1 = rn_calls rn"
  by (auto simp: limiter_allows_def split: prod.splits)

text \<open>
  The calls an operation made: they all carry the events and the id of the route, there are at most \<open>n\<close> of them, and one of
  them was accepted exactly when \<open>ok\<close> says so.
\<close>

definition made_calls ::
  "'w runner \<Rightarrow> 'w runner \<Rightarrow> int \<Rightarrow> json list \<Rightarrow> nat \<Rightarrow> (send_call \<times> send_exc option) list \<Rightarrow> bool" where
  "made_calls rn rn' rid events n cs \<longleftrightarrow> rn_calls rn' = rn_calls rn @ cs \<and> length cs \<le> n \<and>
     (\<forall>(c, r) \<in> set cs. sc_events c = events \<and> call_route c = rid)"

definition accepted :: "(send_call \<times> send_exc option) list \<Rightarrow> bool" where
  "accepted cs \<longleftrightarrow> list_ex (\<lambda>x. snd x = None) cs"

lemma accepted_simps [simp]:
  "\<not> accepted []"
  "accepted (x # cs) \<longleftrightarrow> snd x = None \<or> accepted cs"
  "accepted (cs @ cs') \<longleftrightarrow> accepted cs \<or> accepted cs'"
  by (auto simp: accepted_def)

lemma made_calls_none: "rn_calls rn' = rn_calls rn \<Longrightarrow> made_calls rn rn' rid events n []"
  by (simp add: made_calls_def)

lemma made_calls_trans:
  "made_calls a b rid events n cs \<Longrightarrow> made_calls b c rid events m cs' \<Longrightarrow> made_calls a c rid events (n + m) (cs @ cs')"
  by (auto simp: made_calls_def)

lemma send_made:
  "send_to_destination ow c rn = (r, rn') \<Longrightarrow> made_calls rn rn' (call_route c) (sc_events c) 1 [(c, r)]"
  by (auto simp: send_to_destination_def made_calls_def split: prod.splits)

lemma call_events [simp]:
  "sc_events (primary_call st rt evs) = evs"
  "sc_events (secondary_call ow st i b evs fmt w) = evs"
  "sc_events (dynamic_call st m evs) = evs"
  "call_route (primary_call st rt evs) = rt_id rt"
  "call_route (secondary_call ow st i b evs fmt w) = i"
  by (simp_all add: primary_call_def secondary_call_def dynamic_call_def call_route_def prefix_delivery_context_def Let_def)

lemma retry_made:
  "retry_loop ow c b i n idx prev rn = ((ok, err), rn') \<Longrightarrow>
   \<exists>cs. made_calls rn rn' (call_route c) (sc_events c) n cs \<and> (ok \<longleftrightarrow> accepted cs)"
proof (induction ow c b i n idx prev rn rule: retry_loop.induct)
  case (1 ow c b i idx prev rn)
  then show ?case by (auto intro!: exI [of _ "[]"] made_calls_none)
next
  case (2 ow c b i n idx prev rn)
  obtain r rn1 where s: "send_to_destination ow c rn = (r, rn1)" by (metis prod.exhaust)
  note m = send_made [OF s]
  show ?case
  proof (cases r)
    case None
    with 2(2) s m show ?thesis
      by (auto intro!: exI [of _ "[(c, None)]"] simp: made_calls_def)
  next
    case (Some e)
    let ?rn = "rn1\<lparr>rn_world := ow_sleep ow (max (b * 2 ^ idx) 0) (rn_world rn1)\<rparr>"
    from 2(1) [OF s [symmetric] Some] 2(2) s Some obtain cs where
      cs: "made_calls ?rn rn' (call_route c) (sc_events c) n cs" "ok \<longleftrightarrow> accepted cs" by auto
    have "made_calls rn ?rn (call_route c) (sc_events c) 1 [(c, r)]" using m by (simp add: made_calls_def)
    from made_calls_trans [OF this cs(1)] cs(2) Some show ?thesis by auto
  qed
qed

lemma policy_made:
  assumes "apply_failure_policy ow opts st rt evs rn = (ok, rn')"
  shows "\<exists>cs. made_calls rn rn' (rt_id rt) evs (nat (rt_retry rt)) cs \<and>
    (accepted cs \<longrightarrow> ok) \<and> (ok \<longrightarrow> accepted cs \<or> upper (rt_policy rt) = u ''LOG_AND_CONTINUE'') \<and>
    (upper (rt_policy rt) = u ''LOG_AND_CONTINUE'' \<longrightarrow> cs = [])"
proof (cases "upper (rt_policy rt) = u ''RETRY_AND_BACKOFF'' \<and> evs \<noteq> []")
  case True
  obtain b prev rn1 where r: "retry_loop ow (primary_call st rt evs) (rt_backoff rt) (rt_id rt)
      (nat (rt_retry rt)) 0 None rn = ((b, prev), rn1)" by (metis prod.exhaust)
  from retry_made [OF r] obtain cs where "made_calls rn rn1 (rt_id rt) evs (nat (rt_retry rt)) cs" "b \<longleftrightarrow> accepted cs"
    by auto
  with True r assms show ?thesis
    by (intro exI [of _ cs]) (auto simp: apply_failure_policy_def made_calls_def Let_def split: bool.splits option.splits)
next
  case False
  with assms show ?thesis
    by (intro exI [of _ "[]"]) (auto simp: apply_failure_policy_def made_calls_def Let_def split: if_splits)
qed

lemma attempt_made:
  assumes "attempt_failover_send ow st i p evs fmt bs err rn = (Inr fo, rn')"
  shows "\<exists>cs. made_calls rn rn' i evs 1 cs \<and> (fo_succeeded fo \<longleftrightarrow> accepted cs) \<and>
    (fo_succeeded fo \<longrightarrow> fo_attempted fo) \<and> (cs \<noteq> [] \<longrightarrow> fo_attempted fo)"
proof (cases "\<exists>b rn1. is_failover_eligible_error err \<and> dget bs p = Some b \<and> fb_enabled b \<and>
    limiter_allows ow (FAILOVER_KEY (fb_route b)) (fb_rate b) rn = (Inr True, rn1)")
  case True
  then obtain b rn1 where b: "is_failover_eligible_error err" "dget bs p = Some b" "fb_enabled b"
    "limiter_allows ow (FAILOVER_KEY (fb_route b)) (fb_rate b) rn = (Inr True, rn1)" by blast
  let ?rn2 = "add_log (Log (u ''failover_route_attempt'') (Some i)) rn1"
  let ?c = "secondary_call ow st i b evs fmt (rn_world ?rn2)"
  obtain r rn3 where s: "send_to_destination ow ?c ?rn2 = (r, rn3)" by (metis prod.exhaust)
  from send_made [OF s] b have "made_calls rn rn3 i evs 1 [(?c, r)]" by (simp add: made_calls_def)
  with b s assms show ?thesis
    by (intro exI [of _ "[(?c, r)]"])
       (cases r; auto simp: attempt_failover_send_def failover_skipped_def no_failover_def made_calls_def)
next
  case False
  with assms show ?thesis
    by (intro exI [of _ "[]"])
       (auto simp: attempt_failover_send_def no_failover_def failover_skipped_def made_calls_def
         split: if_splits option.splits prod.splits sum.splits bool.splits)
qed

lemma failover_made:
  assumes "failover_step ow st rt evs given err rn = (Inr (fo, bs), rn')"
  shows "\<exists>cs. made_calls rn rn' (rt_id rt) evs 1 cs \<and> (fo_succeeded fo \<longleftrightarrow> accepted cs) \<and>
    (fo_succeeded fo \<longrightarrow> fo_attempted fo) \<and> (cs \<noteq> [] \<longrightarrow> fo_attempted fo)"
proof (cases "dn_id (rt_dest rt)")
  case None
  with assms show ?thesis
    by (intro exI [of _ "[]"]) (auto simp: failover_step_def no_failover_def made_calls_def)
next
  case (Some did)
  let ?bs = "case given of Some b \<Rightarrow> b | None \<Rightarrow> bindings_or_none ow (sm_id st) (rn_world rn)"
  from Some assms have
    "attempt_failover_send ow st (rt_id rt) did evs (formatter_override rt) ?bs err rn = (Inr fo, rn')"
    by (auto simp: failover_step_def Let_def split: prod.splits sum.splits)
  from attempt_made [OF this] show ?thesis .
qed


lemma after_failure_made:
  assumes "after_failure ow opts st rt evs given rec err rn = (Inr out, rn')"
  shows "\<exists>cs. made_calls rn rn' (rt_id rt) evs (Suc (nat (rt_retry rt))) cs \<and>
    (so_success out \<longrightarrow> accepted cs) \<and> (so_absorbed out \<longrightarrow> \<not> accepted cs \<and> \<not> so_success out) \<and>
    (\<not> so_fo_attempted out \<longrightarrow> accepted cs \<longrightarrow> so_success out) \<and>
    \<not> so_rate_limited out \<and> \<not> so_dest_disabled out"
proof -
  let ?rn0 = "add_log (Log (u ''route_send_failed'') (Some (rt_id rt))) rn"
  from assms obtain fo bs rn1 where f: "failover_step ow st rt evs given err ?rn0 = (Inr (fo, bs), rn1)"
    by (auto simp: after_failure_def Let_def split: prod.splits sum.splits)
  from failover_made [OF f] obtain cs1 where
    c1: "made_calls ?rn0 rn1 (rt_id rt) evs 1 cs1" "fo_succeeded fo \<longleftrightarrow> accepted cs1" "fo_succeeded fo \<longrightarrow> fo_attempted fo"
    by blast
  have c0: "made_calls rn rn1 (rt_id rt) evs 1 cs1" using c1(1) by (simp add: made_calls_def)
  obtain ok rn2 where p: "apply_failure_policy ow opts st rt evs rn1 = (ok, rn2)" by (metis prod.exhaust)
  from policy_made [OF p] obtain cs2 where
    c2: "made_calls rn1 rn2 (rt_id rt) evs (nat (rt_retry rt)) cs2" "accepted cs2 \<longrightarrow> ok"
      "ok \<longrightarrow> accepted cs2 \<or> upper (rt_policy rt) = u ''LOG_AND_CONTINUE''"
      "upper (rt_policy rt) = u ''LOG_AND_CONTINUE'' \<longrightarrow> cs2 = []" by blast
  show ?thesis
  proof (cases "fo_succeeded fo")
    case True
    with assms f c0 c1 show ?thesis
      by (intro exI [of _ cs1])
         (auto simp: after_failure_def base_outcome_def made_calls_def Let_def)
  next
    case False
    let ?rec = "ok \<and> \<not> fo_attempted fo" and ?log = "upper (rt_policy rt) = u ''LOG_AND_CONTINUE''"
    have calls: "rn_calls rn' = rn_calls rn2"
      using False assms f p by (auto simp: after_failure_def Let_def split: if_splits)
    have "so_success out = (?rec \<and> \<not> ?log)" "so_absorbed out = (?rec \<and> ?log)"
      "so_fo_attempted out = fo_attempted fo" "\<not> so_rate_limited out" "\<not> so_dest_disabled out"
      using False assms f p
      by (cases "fo_attempted fo"; cases ok; cases ?log; force simp: after_failure_def base_outcome_def Let_def)+
    moreover have "made_calls rn rn' (rt_id rt) evs (Suc (nat (rt_retry rt))) (cs1 @ cs2)"
      using made_calls_trans [OF c0 c2(1)] calls by (simp add: made_calls_def)
    ultimately show ?thesis using False c1 c2 by (intro exI [of _ "cs1 @ cs2"]) auto
  qed
qed

lemma send_route_made:
  assumes "send_route_events ow opts st rt evs given rec rn = (Inr out, rn')"
  shows "\<exists>cs. made_calls rn rn' (rt_id rt) evs (2 + nat (rt_retry rt)) cs \<and>
    (so_success out \<longrightarrow> accepted cs) \<and> (so_absorbed out \<longrightarrow> \<not> accepted cs \<and> \<not> so_success out) \<and>
    (\<not> so_fo_attempted out \<longrightarrow> accepted cs \<longrightarrow> so_success out) \<and>
    (so_rate_limited out \<or> so_dest_disabled out \<longrightarrow> cs = [])"
proof (cases "dn_enabled (rt_dest rt) \<and>
    (\<exists>rn1. limiter_allows ow (rt_id rt) (effective_rate_limit rt (rt_dest rt)) rn = (Inr True, rn1))")
  case True
  then obtain rn1 where l: "dn_enabled (rt_dest rt)"
    "limiter_allows ow (rt_id rt) (effective_rate_limit rt (rt_dest rt)) rn = (Inr True, rn1)" by blast
  obtain r rn2 where s: "send_to_destination ow (primary_call st rt evs) rn1 = (r, rn2)" by (metis prod.exhaust)
  have m: "made_calls rn rn2 (rt_id rt) evs 1 [(primary_call st rt evs, r)]"
    using send_made [OF s] l by (simp add: made_calls_def)
  show ?thesis
  proof (cases r)
    case None
    with assms l s m show ?thesis
      by (intro exI [of _ "[(primary_call st rt evs, None)]"])
         (auto simp: send_route_events_def base_outcome_def made_calls_def)
  next
    case (Some err)
    with assms l s have "after_failure ow opts st rt evs given rec err rn2 = (Inr out, rn')"
      by (simp add: send_route_events_def)
    from after_failure_made [OF this] obtain cs where
      cs: "made_calls rn2 rn' (rt_id rt) evs (Suc (nat (rt_retry rt))) cs" and
      rest: "so_success out \<longrightarrow> accepted cs" "so_absorbed out \<longrightarrow> \<not> accepted cs \<and> \<not> so_success out"
        "\<not> so_fo_attempted out \<longrightarrow> accepted cs \<longrightarrow> so_success out" "\<not> so_rate_limited out" "\<not> so_dest_disabled out"
      by blast
    from made_calls_trans [OF m cs] rest Some show ?thesis
      by (intro exI [of _ "(primary_call st rt evs, r) # cs"]) auto
  qed
next
  case False
  with assms show ?thesis
    by (intro exI [of _ "[]"])
       (auto simp: send_route_events_def base_outcome_def made_calls_def
         split: if_splits prod.splits sum.splits bool.splits)
qed

lemma send_route_carries:
  assumes "send_route_events ow opts st rt evs given rec rn = (r, rn')"
  shows "\<exists>cs. rn_calls rn' = rn_calls rn @ cs \<and> (\<forall>(c, x) \<in> set cs. sc_events c = evs \<and> call_route c = rt_id rt)"
proof (cases r)
  case (Inr out)
  with assms send_route_made show ?thesis unfolding made_calls_def by blast
next
  case (Inl e)
  have f: "rn_calls rn2 = rn_calls rn1" if "attempt_failover_send ow st i p evs fmt bs err rn1 = (Inl e', rn2)"
    for i p fmt bs err rn1 e' rn2
    using that by (auto simp: attempt_failover_send_def Let_def split: if_splits option.splits prod.splits sum.splits bool.splits)
  have a: "rn_calls rn' = rn_calls rn2" if "after_failure ow opts st rt evs given rec err rn2 = (Inl e, rn')" for err rn2
    using that f by (fastforce simp: after_failure_def failover_step_def Let_def split: if_splits option.splits prod.splits sum.splits)
  obtain l rn1 where l: "limiter_allows ow (rt_id rt) (effective_rate_limit rt (rt_dest rt)) rn = (l, rn1)"
    by (metis prod.exhaust)
  obtain x rn2 where x: "send_to_destination ow (primary_call st rt evs) rn1 = (x, rn2)" by (metis prod.exhaust)
  have c: "rn_calls rn1 = rn_calls rn" "rn_calls rn2 = rn_calls rn1 @ [(primary_call st rt evs, x)]"
    using l x by (auto simp: send_to_destination_def split: prod.splits)
  show ?thesis
  proof (cases "rn_calls rn' = rn_calls rn")
    case False
    with assms Inl l x c have "rn_calls rn' = rn_calls rn2"
      using a by (auto simp: send_route_events_def split: if_splits sum.splits bool.splits option.splits)
    with c show ?thesis by auto
  qed auto
qed

lemma single_route_carries:
  assumes "deliver_single_route ow opts st route_id evs rn = (r, rn')"
  shows "\<exists>cs. rn_calls rn' = rn_calls rn @ cs \<and> (\<forall>(c, x) \<in> set cs. sc_events c = evs \<and> call_route c = route_id)"
proof (cases "find (\<lambda>r. rt_id r = route_id) (sm_routes st)")
  case None
  with assms show ?thesis by (simp add: deliver_single_route_def)
next
  case (Some rt)
  then have "rt_id rt = route_id" by (auto simp: find_Some_iff)
  moreover from Some assms have "send_route_events ow opts st rt evs None True rn = (r, rn')"
    by (simp add: deliver_single_route_def)
  ultimately show ?thesis using send_route_carries by blast
qed

lemma single_route_truthful:
  assumes "deliver_single_route ow opts st route_id evs rn = (Inr out, rn')" "rn_calls rn' = rn_calls rn @ cs"
  shows "(so_success out \<longrightarrow> accepted cs) \<and> (so_absorbed out \<longrightarrow> \<not> accepted cs \<and> \<not> so_success out) \<and>
    (so_rate_limited out \<or> so_dest_disabled out \<longrightarrow> cs = [])"
proof (cases "find (\<lambda>r. rt_id r = route_id) (sm_routes st)")
  case None
  with assms show ?thesis by (auto simp: deliver_single_route_def base_outcome_def)
next
  case (Some rt)
  with assms(1) have "send_route_events ow opts st rt evs None True rn = (Inr out, rn')"
    by (simp add: deliver_single_route_def)
  from send_route_made [OF this] assms(2) show ?thesis by (auto simp: made_calls_def)
qed

section \<open>Properties of a route's delivery\<close>

text \<open>
  C16. A delivery is reported as it happened.  When sending a route returns, every adapter call it
  made carried the route's events unchanged and its id, and there were at most two calls plus the configured
  retries.  Success is reported only if an adapter accepted the events; an absorbed failure is never
  a success and no adapter accepted the events; a refusal by the limiter or a disabled destination
  made no call at all; and without a failover attempt an accepted delivery is reported as success.
\<close>

theorem send_outcome_truthful:
  assumes "send_route_events ow opts st rt events given record_replay rn = (Inr out, rn')"
  shows "\<exists>calls. rn_calls rn' = rn_calls rn @ calls \<and> length calls \<le> 2 + nat (rt_retry rt) \<and>
    (\<forall>(c, r) \<in> set calls. sc_events c = events \<and> call_route c = rt_id rt) \<and>
    (so_success out \<longrightarrow> accepted calls) \<and>
    (so_absorbed out \<longrightarrow> \<not> accepted calls \<and> \<not> so_success out) \<and>
    (so_rate_limited out \<or> so_dest_disabled out \<longrightarrow> calls = []) \<and>
    (\<not> so_fo_attempted out \<and> accepted calls \<longrightarrow> so_success out)"
  using send_route_made [OF assms] unfolding made_calls_def by blast

section \<open>Witnesses\<close>

text \<open>A world that answers adapter calls from a script.\<close>

definition script_outside :: "(send_exc option list) outside" where
  "script_outside = \<lparr>ow_send = (\<lambda>c w. (hd w, tl w)), ow_clock = (\<lambda>w. 0), ow_sleep = (\<lambda>t w. w),
     ow_failover_rows = (\<lambda>w. Inr [\<lparr>fr_id = 1, fr_stream = 1, fr_enabled = True, fr_primary = 10, fr_secondary = 20\<rparr>]),
     ow_destination = (\<lambda>i w. Some \<lparr>dn_id = Some i, dn_name = u ''standby'', dn_type = u ''WEBHOOK_POST'',
        dn_enabled = True, dn_config = [], dn_rate = []\<rparr>),
     ow_resolve_config = (\<lambda>t c w. Inr c), ow_record_replay = (\<lambda>i r w. w)\<rparr>"

definition script_runner :: "send_exc option list \<Rightarrow> (send_exc option list) runner" where
  "script_runner w = \<lparr>rn_world = w, rn_limiter = \<lparr>dl_windows = [], dl_pacing = []\<rparr>, rn_dedup = None,
     rn_status = [], rn_disabled = [], rn_log = [], rn_calls = []\<rparr>"

definition script_route :: "ustr \<Rightarrow> route" where
  "script_route policy = \<lparr>rt_id = 5, rt_enabled = True,
     rt_dest = \<lparr>dn_id = Some 10, dn_name = u ''primary'', dn_type = u ''WEBHOOK_POST'', dn_enabled = True,
                dn_config = [], dn_rate = []\<rparr>,
     rt_policy = policy, rt_rate = [], rt_formatter = [], rt_retry = 2, rt_backoff = 1\<rparr>"

definition script_stream :: "ustr \<Rightarrow> stream" where
  "script_stream policy = \<lparr>sm_id = 1, sm_name = u ''s'', sm_routes = [script_route policy], sm_rate = []\<rparr>"

definition script_opts :: run_opts where
  "script_opts = \<lparr>ro_persist = True, ro_dry_run = False, ro_replay_start = None, ro_replay_end = None,
     ro_apply_dedup = True\<rparr>"

definition conn_error :: send_exc where
  "conn_error = \<lparr>se_kind = EOsError, se_http_status = None, se_cause_status = None, se_response_status = None,
     se_message = u ''refused''\<rparr>"

lemmas script_defs = script_outside_def script_runner_def script_route_def script_stream_def
  script_opts_def conn_error_def

lemma script_discarded:
  "case deliver_single_route script_outside script_opts (script_stream (u ''RETRY_AND_BACKOFF'')) 5
       [JDict []] (script_runner [Some conn_error, Some conn_error, None]) of
     (Inr out, rn') \<Rightarrow> accepted (rn_calls rn') \<and> Log (u ''route_retry_success'') (Some 5) \<in> set (rn_log rn') \<and>
       \<not> so_success out \<and> \<not> so_absorbed out
   | _ \<Rightarrow> False"
  by code_simp

text \<open>
  A successful retry after a failed failover is reported as a failure.  The primary destination
  refuses, the standby refuses as well, and a retry of the primary is then accepted: the route is
  nevertheless reported as failed (so the batch is fetched and delivered again), because a failed
  failover attempt overrides the result of the failure policy.
\<close>

lemma retry_after_failover_discarded:
  "\<exists>out rn'. deliver_single_route script_outside script_opts (script_stream (u ''RETRY_AND_BACKOFF'')) 5
       [JDict []] (script_runner [Some conn_error, Some conn_error, None]) = (Inr out, rn') \<and>
     accepted (rn_calls rn') \<and> Log (u ''route_retry_success'') (Some 5) \<in> set (rn_log rn') \<and>
     \<not> so_success out \<and> \<not> so_absorbed out"
  using script_discarded by (auto split: prod.splits sum.splits)

theorem send_outcome_truthful_witness:
  "\<exists>out rn'. send_route_events script_outside script_opts (script_stream (u ''RETRY_AND_BACKOFF''))
       (script_route (u ''RETRY_AND_BACKOFF'')) [JDict []] (Some []) True
       (script_runner [Some conn_error, None]) = (Inr out, rn') \<and> so_success out \<and> length (rn_calls rn') \<le> 4"
proof -
  let ?run = "send_route_events script_outside script_opts (script_stream (u ''RETRY_AND_BACKOFF''))
       (script_route (u ''RETRY_AND_BACKOFF'')) [JDict []] (Some []) True
       (script_runner [Some conn_error, None])"
  have "case ?run of (Inr out, rn') \<Rightarrow> so_success out | _ \<Rightarrow> False" by code_simp
  then obtain out rn' where r: "?run = (Inr out, rn')" "so_success out"
    by (auto split: prod.splits sum.splits)
  from send_outcome_truthful [OF r(1)] r show ?thesis
    by (auto simp: script_runner_def script_route_def)
qed

end
