(* ===== verification/Route_Pipeline.thy ===== *)
theory Route_Pipeline
  imports Route_Policy Delivery
begin

text \<open>
  The pipeline of one batch over all routes of a stream: \<^verbatim>\<open>app/runners/route_stage.py\<close>,
  \<^verbatim>\<open>route_transform_config.py\<close>, \<^verbatim>\<open>route_context.py\<close> and \<^verbatim>\<open>app/route_delivery\<close>.  Each enabled route runs
  transform, protection, classification, policy and delivery in this order on the shared batch; the
  first exception ends the loop.  The mapping and enrichment engines are arguments, as are the
  sessions the policy stage writes through; the timeline, durations and preview callbacks are not
  modelled.
\<close>

section \<open>Transform configuration\<close>

record transform_config =
  tc_mappings :: dict
  tc_enrichment :: dict
  tc_override :: ustr
  tc_mapping_source :: rule_source
  tc_enrichment_source :: rule_source

definition fallback_used :: "transform_config \<Rightarrow> bool" where
  "fallback_used c \<longleftrightarrow> tc_mapping_source c = FromStream \<or> tc_enrichment_source c = FromStream"

text \<open>\<open>json.dumps\<close> with sorted keys, compact separators and ASCII escapes.\<close>

definition hex4 :: "nat \<Rightarrow> ustr" where
  "hex4 n = [92, 117, hex_digit (n div 4096 mod 16), hex_digit (n div 256 mod 16),
     hex_digit (n div 16 mod 16), hex_digit (n mod 16)]"

definition dumps_char :: "nat \<Rightarrow> ustr" where
  "dumps_char c =
     (if c = 34 \<or> c = 92 then [92, c]
      else if c = 10 then [92, 110]
      else if c = 13 then [92, 114]
      else if c = 9 then [92, 116]
      else if c = 12 then [92, 102]
      else if c = 8 then [92, 98]
      else if 32 \<le> c \<and> c \<le> 126 then [c]
      else if c < 65536 then hex4 c
      else hex4 (55296 + (c - 65536) div 1024) @ hex4 (56320 + (c - 65536) mod 1024))"

definition dumps_str :: "ustr \<Rightarrow> ustr" where
  "dumps_str s = [34] @ concat (map dumps_char s) @ [34]"

fun json_dumps :: "json \<Rightarrow> ustr" where
  "json_dumps JNull = u ''null''"
| "json_dumps (JBool b) = (if b then u ''true'' else u ''false'')"
| "json_dumps (JInt i) = int_str i"
| "json_dumps (JFloat f) = (case f of Fin _ t \<Rightarrow> t | PosInf \<Rightarrow> u ''Infinity'' | NegInf \<Rightarrow> u ''-Infinity'' | NaN \<Rightarrow> u ''NaN'')"
| "json_dumps (JStr s) = dumps_str s"
| "json_dumps (JList xs) = u ''['' @ join_with (u '','') (map json_dumps xs) @ u '']''"
| "json_dumps (JDict d) =
     u ''{'' @ join_with (u '','') (map (\<lambda>(k, t). dumps_str k @ u '':'' @ t)
       (sort_key fst (map (\<lambda>(k, v). (k, json_dumps v)) d))) @ u ''}''"

definition transform_config_cache_key :: "transform_config \<Rightarrow> ustr" where
  "transform_config_cache_key c = json_dumps (JDict
     [(u ''field_mappings'', JDict (tc_mappings c)), (u ''enrichment'', JDict (tc_enrichment c)),
      (u ''override_policy'', JStr (tc_override c))])"

text \<open>
  A mapping or enrichment row is the dictionary of its columns.  \<open>dict(raw or {})\<close> of a column that is
  no object raises.
\<close>

definition dict_or_empty :: "json \<Rightarrow> dict result" where
  "dict_or_empty raw = (if \<not> truthy raw then Inr []
     else case raw of JDict d \<Rightarrow> Inr d | _ \<Rightarrow> Inl (TypeError (u ''cannot convert to dict'')))"

definition mapping_field_mappings :: "dict option \<Rightarrow> dict result" where
  "mapping_field_mappings row = (case row of None \<Rightarrow> Inr []
     | Some r \<Rightarrow> dict_or_empty (dget_default r (u ''field_mappings_json'') (dget_default r (u ''field_mappings'') (JDict []))))"

definition enrichment_json :: "dict option \<Rightarrow> dict result" where
  "enrichment_json row = (case row of None \<Rightarrow> Inr []
     | Some r \<Rightarrow> dict_or_empty (dget_default r (u ''enrichment_json'') (dget_default r (u ''enrichment'') (JDict []))))"

definition override_policy_of :: "dict option \<Rightarrow> ustr \<Rightarrow> ustr" where
  "override_policy_of row dflt = (case row of None \<Rightarrow> dflt
     | Some r \<Rightarrow> (let p = dget_none r (u ''override_policy'') in if truthy p then py_str p else dflt))"

definition resolve_route_transform_config ::
  "dict option \<Rightarrow> dict option \<Rightarrow> dict option \<Rightarrow> dict option \<Rightarrow> dict \<Rightarrow> dict \<Rightarrow> ustr \<Rightarrow> transform_config result" where
  "resolve_route_transform_config route_mapping route_enrichment stream_mapping stream_enrichment
     stream_field_mappings stream_enrichment_json stream_override_policy =
     (let msrc = (if route_mapping \<noteq> None then FromRoute else FromStream);
          esrc = (if route_enrichment \<noteq> None then FromRoute else FromStream);
          mrow = (if route_mapping \<noteq> None then route_mapping else stream_mapping);
          erow = (if route_enrichment \<noteq> None then route_enrichment else stream_enrichment)
      in rbind (mapping_field_mappings mrow) (\<lambda>fm.
         rbind (enrichment_json erow) (\<lambda>en.
           Inr \<lparr>tc_mappings = (if msrc = FromStream \<and> fm = [] \<and> stream_field_mappings \<noteq> []
                               then stream_field_mappings else fm),
                tc_enrichment = (if esrc = FromStream \<and> en = [] \<and> stream_enrichment_json \<noteq> []
                                 then stream_enrichment_json else en),
                tc_override = override_policy_of erow stream_override_policy,
                tc_mapping_source = msrc, tc_enrichment_source = esrc\<rparr>)))"

section \<open>Contexts\<close>

record route_ctx =
  rx_route :: int
  rx_stream :: int
  rx_dest :: int
  rx_enabled :: bool
  rx_transform :: "transform_config option"
  rx_class :: class_config
  rx_protection_rules :: "(prot_rule \<times> int option) list"
  rx_policy_rules :: "policy_rule list"

record batch_ctx =
  bx_events :: "json list"
  bx_findings :: "json list"
  bx_drift :: "drift_result option"
  bx_protection_rules :: "(prot_rule \<times> int option) list"
  bx_policy_rules :: "policy_rule list"
  bx_overrides :: "dict list"
  bx_governance :: "dict list"
  bx_transforms :: "(ustr \<times> json list) list"
  bx_transform_count :: nat
  bx_protect :: shared_batch

text \<open>
  The engines and the settings.  A mapping result is the event's error or the mapped event;
  \<open>pv_own\<close> says whether the runner was given a session.
\<close>

record pipeline_env =
  pv_prot :: prot_env
  pv_classify :: bool
  pv_map :: "dict \<Rightarrow> json list \<Rightarrow> stage_exc + (ustr + json) list"
  pv_enrich :: "dict \<Rightarrow> ustr \<Rightarrow> json list \<Rightarrow> stage_exc + json list"
  pv_own :: bool
  pv_quarantine :: "int \<Rightarrow> qdb"

record 'w pipe_state =
  pp_batch :: batch_ctx
  pp_vault :: vault
  pp_quarantine :: "quarantine_row list"
  pp_runner :: "'w runner"

section \<open>Transform\<close>

definition TRANSPORT_KEYS :: "ustr list" where
  "TRANSPORT_KEYS = map u
     [''s3_bucket'', ''s3_key'', ''s3_last_modified'', ''s3_etag'', ''s3_size'',
      ''gdc_db_watermark'', ''gdc_db_order_value'',
      ''remote_path'', ''remote_mtime'', ''remote_size'', ''gdc_remote_path'', ''gdc_remote_mtime'',
      ''gdc_remote_size'', ''gdc_remote_offset'', ''gdc_remote_hash'', ''gdc_remote_protocol'', ''gdc_remote_host'']"

definition copy_missing :: "dict \<Rightarrow> dict \<Rightarrow> ustr \<Rightarrow> dict" where
  "copy_missing raw e key = (case dget raw key of
     Some v \<Rightarrow> if dget e key = None then dset key v e else e | None \<Rightarrow> e)"

definition with_transport_metadata :: "json \<Rightarrow> json \<Rightarrow> json" where
  "with_transport_metadata raw_ev enriched = (case raw_ev of
     JDict raw \<Rightarrow> (case enriched of
       JDict e \<Rightarrow> JDict (propagate_dedup_metadata raw (foldl (copy_missing raw) e TRANSPORT_KEYS))
     | _ \<Rightarrow> enriched)
   | _ \<Rightarrow> enriched)"

definition copy_transport_metadata :: "json list \<Rightarrow> json list \<Rightarrow> json list" where
  "copy_transport_metadata raw transformed =
     (if length raw \<noteq> length transformed then transformed else map2 with_transport_metadata raw transformed)"

fun mapped_or_raise :: "(ustr + json) list \<Rightarrow> stage_exc + json list" where
  "mapped_or_raise [] = Inr []"
| "mapped_or_raise (Inl msg # rs) = Inl (MappingError msg)"
| "mapped_or_raise (Inr e # rs) = (case mapped_or_raise rs of Inl x \<Rightarrow> Inl x | Inr es \<Rightarrow> Inr (e # es))"

definition apply_route_transform :: "pipeline_env \<Rightarrow> json list \<Rightarrow> transform_config \<Rightarrow> stage_exc + json list" where
  "apply_route_transform env raw c = (case pv_map env (tc_mappings c) raw of
     Inl x \<Rightarrow> Inl x
   | Inr rs \<Rightarrow> (case mapped_or_raise rs of
       Inl x \<Rightarrow> Inl x
     | Inr mapped \<Rightarrow> (case pv_enrich env (tc_enrichment c) (tc_override c) mapped of
         Inl x \<Rightarrow> Inl x
       | Inr enriched \<Rightarrow> Inr (copy_transport_metadata raw enriched))))"

definition transform_stage ::
  "pipeline_env \<Rightarrow> transform_config option \<Rightarrow> batch_ctx \<Rightarrow> (stage_exc + json list) \<times> batch_ctx" where
  "transform_stage env tc b = (case tc of
     None \<Rightarrow> (Inr (bx_events b), b)
   | Some c \<Rightarrow>
       (let key = transform_config_cache_key c
        in case dget (bx_transforms b) key of
             Some cached \<Rightarrow> (Inr cached, b)
           | None \<Rightarrow> (case apply_route_transform env (bx_events b) c of
               Inl x \<Rightarrow> (Inl x, b)
             | Inr evs \<Rightarrow> (Inr evs, b\<lparr>bx_transforms := dset key evs (bx_transforms b),
                                     bx_transform_count := Suc (bx_transform_count b)\<rparr>))))"

section \<open>Delivery stage\<close>

datatype disposition = Delivered | Delivered_Review_Required | Blocked | Quarantined
datatype health = Healthy | Warning | Failed
datatype skip_reason = Route_Disabled | Policy_Blocked | Policy_Review | Policy_Quarantine
  | No_Events | No_Send_Fn | Rate_Limited | Destination_Disabled

record delivery_result =
  dv_route :: int
  dv_allowed :: bool
  dv_disposition :: disposition
  dv_success :: "bool option"
  dv_error :: "ustr option"
  dv_action :: decision
  dv_reason :: ustr
  dv_skip :: "skip_reason option"
  dv_count :: nat
  dv_stage :: "ustr option"
  dv_quarantine :: "int option"
  dv_health :: health
  dv_absorbed :: bool
  dv_fo_attempted :: bool
  dv_fo_succeeded :: bool

definition skip_reason_for_decision :: "decision \<Rightarrow> skip_reason option" where
  "skip_reason_for_decision d = (case d of Block \<Rightarrow> Some Policy_Blocked | Require_Review \<Rightarrow> Some Policy_Review
     | Quarantine \<Rightarrow> Some Policy_Quarantine | _ \<Rightarrow> None)"

definition resolve_delivery_disposition :: "policy_result \<Rightarrow> bool \<Rightarrow> disposition" where
  "resolve_delivery_disposition p send_attempted =
     (if ps_decision p = Quarantine then Quarantined
      else if ps_decision p \<in> {Block, Require_Review} then Blocked
      else if send_attempted \<or> ps_allowed p then Delivered else Blocked)"

definition classify_route_delivery_health :: "disposition \<Rightarrow> bool option \<Rightarrow> send_outcome option \<Rightarrow> health" where
  "classify_route_delivery_health d success outcome = (case d of
     Quarantined \<Rightarrow> Failed | Blocked \<Rightarrow> Warning | Delivered_Review_Required \<Rightarrow> Warning
   | Delivered \<Rightarrow> if success = Some False then Failed
       else if (case outcome of Some out \<Rightarrow> so_rate_limited out | None \<Rightarrow> False) then Warning
       else Healthy)"

text \<open>The result before a send; \<open>sent_result\<close> completes it from what the send returned.\<close>

definition unsent_result :: "route_ctx \<Rightarrow> policy_result \<Rightarrow> nat \<Rightarrow> disposition \<Rightarrow> bool option \<Rightarrow> skip_reason option \<Rightarrow> delivery_result" where
  "unsent_result rx p n d ok skip = \<lparr>dv_route = rx_route rx, dv_allowed = ps_allowed p, dv_disposition = d,
     dv_success = ok, dv_error = None, dv_action = ps_decision p, dv_reason = ps_reason p, dv_skip = skip,
     dv_count = n, dv_stage = None, dv_quarantine = ps_event_id p,
     dv_health = classify_route_delivery_health d ok None,
     dv_absorbed = False, dv_fo_attempted = False, dv_fo_succeeded = False\<rparr>"

definition sent_result :: "route_ctx \<Rightarrow> policy_result \<Rightarrow> nat \<Rightarrow> send_outcome \<Rightarrow> delivery_result" where
  "sent_result rx p n out =
     (let base = unsent_result rx p n Delivered None None
      in if so_rate_limited out then
           base\<lparr>dv_skip := Some Rate_Limited, dv_error := Some (u ''destination rate limited''),
                dv_stage := Some (u ''destination_rate_limited''),
                dv_health := classify_route_delivery_health Delivered None (Some out)\<rparr>
         else if so_dest_disabled out then
           base\<lparr>dv_skip := Some Destination_Disabled, dv_error := Some (u ''destination disabled''),
                dv_stage := Some (u ''route_skip''),
                dv_health := classify_route_delivery_health Delivered None (Some out)\<rparr>
         else
           base\<lparr>dv_success := Some (so_success out), dv_error := so_error out, dv_stage := Some (so_stage out),
                dv_health := classify_route_delivery_health Delivered (Some (so_success out)) (Some out),
                dv_absorbed := so_absorbed out, dv_fo_attempted := so_fo_attempted out,
                dv_fo_succeeded := so_fo_succeeded out\<rparr>)"

text \<open>\<open>send\<close> is the sender the runner passes, none when the route may not send.\<close>

definition route_delivery_stage ::
  "route_ctx \<Rightarrow> policy_result \<Rightarrow> json list \<Rightarrow> ('w runner \<Rightarrow> send_outcome result \<times> 'w runner) option
     \<Rightarrow> 'w runner \<Rightarrow> delivery_result result \<times> 'w runner" where
  "route_delivery_stage rx p events send rn =
     (if \<not> rx_enabled rx then
        (Inr (unsent_result rx p (length events) Blocked None (Some Route_Disabled)),
         add_log (Log (u ''route_skip'') (Some (rx_route rx))) rn)
      else if \<not> ps_allowed p then
        (Inr (unsent_result rx p (length events) (resolve_delivery_disposition p False) None
           (skip_reason_for_decision (ps_decision p))), rn)
      else if events = [] then (Inr (unsent_result rx p 0 Delivered (Some True) (Some No_Events)), rn)
      else case send of
        None \<Rightarrow> (Inr (unsent_result rx p (length events) Delivered (Some True) (Some No_Send_Fn)), rn)
      | Some f \<Rightarrow> (case f rn of
          (Inl e, rn1) \<Rightarrow> (Inl e, rn1)
        | (Inr out, rn1) \<Rightarrow>
            (Inr (sent_result rx p (length events) out),
             if \<not> so_rate_limited out \<and> so_dest_disabled out
             then add_log (Log (u ''route_skip'') (Some (rx_route rx))) rn1 else rn1)))"

section \<open>One route\<close>

record stage_result =
  sr_route :: int
  sr_events :: "json list"
  sr_checkpoint :: "json list"
  sr_modified :: bool
  sr_auto_protect :: nat
  sr_class :: "route_class_result option"
  sr_policy :: policy_result
  sr_allowed :: bool
  sr_delivery :: delivery_result

text \<open>\<open>send\<close> is the sender of the runner for given events; preview runs have none.\<close>

definition process_route_pipeline ::
  "pipeline_env \<Rightarrow> bool \<Rightarrow> (route_ctx \<Rightarrow> json list \<Rightarrow> 'w runner \<Rightarrow> send_outcome result \<times> 'w runner) option
     \<Rightarrow> route_ctx \<Rightarrow> 'w pipe_state \<Rightarrow> (stage_exc + stage_result) \<times> 'w pipe_state" where
  "process_route_pipeline env preview send rx s =
     (if preview \<and> send \<noteq> None then
        (Inl (StageFailure (ValueError (u ''No-write preview cannot have sender or persistence callbacks''))), s)
      else case transform_stage env (rx_transform rx) (pp_batch s) of
        (Inl x, b1) \<Rightarrow> (Inl x, s\<lparr>pp_batch := b1\<rparr>)
      | (Inr transformed, b1) \<Rightarrow>
          (case route_protection_stage (pv_prot env) (pv_own env) preview (rx_route rx) (rx_stream rx)
                  (map_option transform_config_cache_key (rx_transform rx)) transformed
                  (rx_protection_rules rx) (bx_protection_rules b1) (bx_overrides b1) (bx_protect b1) (pp_vault s) of
             (Inl x, sb1, v1) \<Rightarrow> (Inl x, s\<lparr>pp_batch := b1\<lparr>bx_protect := sb1\<rparr>, pp_vault := v1\<rparr>)
           | (Inr (prot, pcfg), sb1, v1) \<Rightarrow>
               (let b2 = b1\<lparr>bx_protect := sb1\<rparr>;
                    (classified, cls) = route_classification_stage (pv_classify env) (rx_class rx)
                                          (bx_findings b2) (pb_events prot)
                in case route_policy_stage (pv_quarantine env (rx_route rx)) (pv_own env) preview
                          (rx_stream rx) (rx_route rx) (rx_dest rx) classified (bx_findings b2)
                          (map_option rk_level cls) (rx_policy_rules rx) (bx_policy_rules b2)
                          (bx_overrides b2) (bx_governance b2) (bx_drift b2) (pp_quarantine s) of
                     (Inl x, q1) \<Rightarrow> (Inl x, s\<lparr>pp_batch := b2, pp_vault := v1, pp_quarantine := q1\<rparr>)
                   | (Inr (evs, pres, _), q1) \<Rightarrow>
                       (let s1 = s\<lparr>pp_batch := b2, pp_vault := v1, pp_quarantine := q1\<rparr>
                        in case route_delivery_stage rx pres evs
                                  (if ps_allowed pres then map_option (\<lambda>f. f rx evs) send else None) (pp_runner s) of
                             (Inl e, rn1) \<Rightarrow> (Inl (StageFailure e), s1\<lparr>pp_runner := rn1\<rparr>)
                           | (Inr d, rn1) \<Rightarrow>
                               (Inr \<lparr>sr_route = rx_route rx,
                                     sr_events = (if dv_success d = Some True then evs else []),
                                     sr_checkpoint = transformed,
                                     sr_modified = (rx_transform rx \<noteq> None \<or> 0 < pb_rules_applied prot \<or>
                                                    0 < pb_masked prot \<or> cls \<noteq> None),
                                     sr_auto_protect = length (sb_ephemeral sb1), sr_class = cls, sr_policy = pres,
                                     sr_allowed = ps_allowed pres, sr_delivery = d\<rparr>,
                                s1\<lparr>pp_runner := rn1\<rparr>)))))"

section \<open>All routes\<close>

record metrics =
  mx_routes :: nat
  mx_fallbacks :: nat
  mx_transforms :: nat
  mx_protections :: nat
  mx_auto_protect :: nat
  mx_classified :: nat
  mx_class_overrides :: nat
  mx_policies :: nat
  mx_allow :: nat
  mx_audit :: nat
  mx_block :: nat
  mx_review :: nat
  mx_quarantine :: nat
  mx_attempts :: nat
  mx_success :: nat
  mx_failure :: nat
  mx_withheld_block :: nat
  mx_withheld_review :: nat
  mx_withheld_quarantine :: nat

record pipeline_result =
  po_results :: "stage_result list"
  po_metrics :: metrics
  po_checkpoint_events :: "json list"
  po_delivery_events :: "json list"

definition count_policy :: "decision \<Rightarrow> metrics \<Rightarrow> metrics" where
  "count_policy d m = (case d of
     Allow \<Rightarrow> m\<lparr>mx_allow := Suc (mx_allow m)\<rparr> | Audit \<Rightarrow> m\<lparr>mx_audit := Suc (mx_audit m)\<rparr>
   | Block \<Rightarrow> m\<lparr>mx_block := Suc (mx_block m)\<rparr> | Require_Review \<Rightarrow> m\<lparr>mx_review := Suc (mx_review m)\<rparr>
   | Quarantine \<Rightarrow> m\<lparr>mx_quarantine := Suc (mx_quarantine m)\<rparr>)"

definition apply_delivery_metrics :: "delivery_result \<Rightarrow> metrics \<Rightarrow> metrics" where
  "apply_delivery_metrics d m =
     (let m = m\<lparr>mx_attempts := Suc (mx_attempts m)\<rparr>
      in if dv_disposition d = Delivered \<and> dv_success d = Some True then m\<lparr>mx_success := Suc (mx_success m)\<rparr>
         else if dv_disposition d = Delivered \<and> dv_success d = Some False then m\<lparr>mx_failure := Suc (mx_failure m)\<rparr>
         else if dv_disposition d = Quarantined then m\<lparr>mx_withheld_quarantine := Suc (mx_withheld_quarantine m)\<rparr>
         else if dv_disposition d = Blocked \<and> dv_action d = Require_Review then
           m\<lparr>mx_withheld_review := Suc (mx_withheld_review m)\<rparr>
         else if dv_disposition d = Blocked then m\<lparr>mx_withheld_block := Suc (mx_withheld_block m)\<rparr>
         else m)"

definition count_classification :: "route_class_result option \<Rightarrow> metrics \<Rightarrow> metrics" where
  "count_classification c m = (case c of None \<Rightarrow> m
     | Some k \<Rightarrow> m\<lparr>mx_classified := Suc (mx_classified m),
                   mx_class_overrides := mx_class_overrides m + (if rk_override k then 1 else 0)\<rparr>)"

definition count_route :: "stage_result \<Rightarrow> metrics \<Rightarrow> metrics" where
  "count_route r m =
     (let m1 = m\<lparr>mx_transforms := Suc (mx_transforms m), mx_protections := Suc (mx_protections m),
                 mx_auto_protect := mx_auto_protect m + sr_auto_protect r\<rparr>;
          m2 = count_classification (sr_class r) m1;
          m3 = count_policy (ps_decision (sr_policy r)) (m2\<lparr>mx_policies := Suc (mx_policies m2)\<rparr>)
      in apply_delivery_metrics (sr_delivery r) m3)"

definition really_delivered :: "stage_result \<Rightarrow> bool" where
  "really_delivered r \<longleftrightarrow> dv_disposition (sr_delivery r) = Delivered \<and> dv_success (sr_delivery r) = Some True \<and>
     sr_events r \<noteq> []"

definition account_route :: "stage_result \<Rightarrow> pipeline_result \<Rightarrow> pipeline_result" where
  "account_route r t =
     (let t1 = t\<lparr>po_results := po_results t @ [r], po_metrics := count_route r (po_metrics t)\<rparr>
      in if really_delivered r then
           t1\<lparr>po_checkpoint_events := (if sr_checkpoint r \<noteq> [] then sr_checkpoint r else sr_events r),
              po_delivery_events := sr_events r\<rparr>
         else t1)"

fun process_routes_loop ::
  "pipeline_env \<Rightarrow> (route_ctx \<Rightarrow> json list \<Rightarrow> 'w runner \<Rightarrow> send_outcome result \<times> 'w runner) option
     \<Rightarrow> route_ctx list \<Rightarrow> pipeline_result \<Rightarrow> 'w pipe_state \<Rightarrow> (stage_exc + pipeline_result) \<times> 'w pipe_state" where
  "process_routes_loop env send [] t s = (Inr t, s)"
| "process_routes_loop env send (rx # rxs) t s =
     (if \<not> rx_enabled rx then
        process_routes_loop env send rxs t
          (s\<lparr>pp_runner := add_log (Log (u ''route_skip'') (Some (rx_route rx))) (pp_runner s)\<rparr>)
      else case process_route_pipeline env False send rx s of
        (Inl x, s1) \<Rightarrow> (Inl x, s1)
      | (Inr r, s1) \<Rightarrow> process_routes_loop env send rxs (account_route r t) s1)"

definition no_metrics :: "nat \<Rightarrow> nat \<Rightarrow> metrics" where
  "no_metrics n f = \<lparr>mx_routes = n, mx_fallbacks = f, mx_transforms = 0, mx_protections = 0, mx_auto_protect = 0,
     mx_classified = 0, mx_class_overrides = 0, mx_policies = 0, mx_allow = 0, mx_audit = 0, mx_block = 0,
     mx_review = 0, mx_quarantine = 0, mx_attempts = 0, mx_success = 0, mx_failure = 0, mx_withheld_block = 0,
     mx_withheld_review = 0, mx_withheld_quarantine = 0\<rparr>"

definition process_routes ::
  "pipeline_env \<Rightarrow> (route_ctx \<Rightarrow> json list \<Rightarrow> 'w runner \<Rightarrow> send_outcome result \<times> 'w runner) option
     \<Rightarrow> metrics \<Rightarrow> route_ctx list \<Rightarrow> 'w pipe_state \<Rightarrow> (stage_exc + pipeline_result) \<times> 'w pipe_state" where
  "process_routes env send base rxs s =
     process_routes_loop env send rxs
       \<lparr>po_results = [], po_metrics = no_metrics (mx_routes base) (mx_fallbacks base),
        po_checkpoint_events = [], po_delivery_events = []\<rparr> s"

section \<open>Stamping and protection\<close>

text \<open>A rule that does not aim at the fields the classification stage writes.\<close>

definition spares_stamp :: "prot_rule \<Rightarrow> bool" where
  "spares_stamp r \<longleftrightarrow> (case parse_protection_path (pr_path r) of
     Inr (SStr k # _) \<Rightarrow> k \<noteq> LEVEL_FIELD \<and> k \<noteq> LEVEL_GDC_FIELD | _ \<Rightarrow> True)"

lemma collect_other_key: "j \<noteq> k \<Longrightarrow> collect_at (SStr k # rest) (JDict (dset j v d)) = collect_at (SStr k # rest) (JDict d)"
  by (simp add: dict_simps)

lemma rule_done_stamp:
  assumes "rule_done env R r (JDict d)" "spares_stamp r"
  shows "rule_done env R r (JDict (stamp_classification_level l d))"
  unfolding rule_done_def
proof (intro allI impI)
  fix segs assume p: "parse_protection_path (pr_path r) = Inr segs"
  have "collect_at segs (JDict (stamp_classification_level l d)) = collect_at segs (JDict d)"
  proof (cases segs)
    case (Cons s rest)
    then show ?thesis
    proof (cases s)
      case (SStr k)
      with Cons p assms(2) have "LEVEL_FIELD \<noteq> k" "LEVEL_GDC_FIELD \<noteq> k" by (auto simp: spares_stamp_def)
      with Cons SStr show ?thesis
        by (simp add: stamp_classification_level_def collect_other_key del: collect_at.simps)
    qed simp
  qed simp
  with assms(1) p show "\<forall>w \<in> set (collect_at segs (JDict (stamp_classification_level l d))).
      shielded env {q \<in> R. overlaps q r} r w"
    by (simp add: rule_done_def)
qed

lemma stamp_events_done:
  assumes "\<forall>e \<in> set evs. is_dict e \<longrightarrow> rule_done env R r e" "spares_stamp r"
  shows "\<forall>e \<in> set (stamp_events l evs). is_dict e \<longrightarrow> rule_done env R r e"
  using assms rule_done_stamp [OF _ assms(2)]
  by (fastforce simp: stamp_events_def is_dict_def split: json.splits)

lemma classified_done:
  assumes "\<forall>e \<in> set evs. is_dict e \<longrightarrow> rule_done env R r e" "spares_stamp r"
    and "route_classification_stage enabled config findings evs = (out, cls)"
  shows "\<forall>e \<in> set out. is_dict e \<longrightarrow> rule_done env R r e"
proof -
  have "\<forall>e \<in> set (snd (classify_batch evs rules fs)). is_dict e \<longrightarrow> rule_done env R r e" for rules fs
    using stamp_events_done [OF assms(1,2)] by (auto simp: classify_batch_def split: prod.splits)
  with stamp_events_done [OF _ assms(2)] assms(1,3) show ?thesis
    by (auto simp: route_classification_stage_def Let_def split: if_splits prod.splits) (metis snd_conv)+
qed

section \<open>The batch\<close>

definition json_events_ok :: "json list \<Rightarrow> bool" where
  "json_events_ok evs \<longleftrightarrow> (\<forall>e \<in> set evs. json_ok e)"

text \<open>The engines turn documents into documents: what they return has distinct keys, as every Python dictionary.\<close>

definition engines_ok :: "pipeline_env \<Rightarrow> bool" where
  "engines_ok env \<longleftrightarrow>
     (\<forall>d evs rs. json_events_ok evs \<longrightarrow> pv_map env d evs = Inr rs \<longrightarrow> (\<forall>e. Inr e \<in> set rs \<longrightarrow> json_ok e)) \<and>
     (\<forall>d p evs out. json_events_ok evs \<longrightarrow> pv_enrich env d p evs = Inr out \<longrightarrow> json_events_ok out)"

definition batch_ok :: "prot_env \<Rightarrow> batch_ctx \<Rightarrow> bool" where
  "batch_ok env b \<longleftrightarrow> json_events_ok (bx_events b) \<and> cache_ok env (bx_protect b) \<and>
     (\<forall>k evs. dget (bx_transforms b) k = Some evs \<longrightarrow> json_events_ok evs)"

text \<open>The part of the batch that no route changes.\<close>

definition same_batch :: "batch_ctx \<Rightarrow> batch_ctx \<Rightarrow> bool" where
  "same_batch b b' \<longleftrightarrow> bx_events b' = bx_events b \<and> bx_findings b' = bx_findings b \<and> bx_drift b' = bx_drift b \<and>
     bx_protection_rules b' = bx_protection_rules b \<and> bx_policy_rules b' = bx_policy_rules b \<and>
     bx_overrides b' = bx_overrides b \<and> bx_governance b' = bx_governance b \<and>
     sb_ephemeral (bx_protect b') = sb_ephemeral (bx_protect b)"

lemma same_batch_refl [simp]: "same_batch b b"
  by (simp add: same_batch_def)

lemma same_batch_trans: "same_batch a b \<Longrightarrow> same_batch b c \<Longrightarrow> same_batch a c"
  by (simp add: same_batch_def)

lemma json_ok_copy_missing: "json_ok (JDict raw) \<Longrightarrow> json_ok (JDict e) \<Longrightarrow> json_ok (JDict (copy_missing raw e k))"
  using json_ok_dset [of e] json_ok_dget [of raw k]
  by (cases "dget raw k") (simp_all add: copy_missing_def del: json_ok.simps)

lemma json_ok_foldl_copy:
  "json_ok (JDict raw) \<Longrightarrow> json_ok (JDict e) \<Longrightarrow> json_ok (JDict (foldl (copy_missing raw) e ks))"
  by (induction ks arbitrary: e) (simp_all add: json_ok_copy_missing del: json_ok.simps)

lemma propagate_copy: "propagate_dedup_metadata raw e = foldl (copy_missing raw) e [KEY_META, QUEUE_META]"
  by (simp add: propagate_dedup_metadata_def copy_missing_def [abs_def])

lemma json_ok_transport: "json_ok raw \<Longrightarrow> json_ok e \<Longrightarrow> json_ok (with_transport_metadata raw e)"
  by (cases raw; cases e)
     (simp_all add: with_transport_metadata_def propagate_copy json_ok_foldl_copy json_ok_copy_missing del: json_ok.simps foldl.simps)

lemma transport_ok: "json_events_ok raw \<Longrightarrow> json_events_ok evs \<Longrightarrow> json_events_ok (copy_transport_metadata raw evs)"
  by (auto simp: copy_transport_metadata_def json_events_ok_def intro!: json_ok_transport dest: set_zip_leftD set_zip_rightD)

lemma mapped_members: "mapped_or_raise rs = Inr es \<Longrightarrow> e \<in> set es \<Longrightarrow> Inr e \<in> set rs"
  by (induction rs arbitrary: es rule: mapped_or_raise.induct) (auto split: sum.splits)

lemma apply_transform_ok:
  assumes "engines_ok env" "json_events_ok raw" "apply_route_transform env raw c = Inr evs"
  shows "json_events_ok evs"
proof -
  from assms(3) obtain rs mapped enriched where s: "pv_map env (tc_mappings c) raw = Inr rs"
    "mapped_or_raise rs = Inr mapped" "pv_enrich env (tc_enrichment c) (tc_override c) mapped = Inr enriched"
    "evs = copy_transport_metadata raw enriched"
    by (auto simp: apply_route_transform_def split: sum.splits)
  have "json_events_ok mapped" using assms(1,2) s(1) mapped_members [OF s(2)]
    by (auto simp: engines_ok_def json_events_ok_def)
  with assms(1) s(3) have "json_events_ok enriched" by (auto simp: engines_ok_def)
  with assms(2) s(4) show ?thesis by (simp add: transport_ok)
qed

lemma transform_stage_ok:
  assumes "engines_ok env" "batch_ok (pv_prot env) b" "transform_stage env tc b = (r, b')"
  shows "batch_ok (pv_prot env) b'" "same_batch b b'" "bx_protect b' = bx_protect b" "r = Inr evs \<Longrightarrow> json_events_ok evs"
  using assms apply_transform_ok [OF assms(1), of "bx_events b"]
  by (auto simp: transform_stage_def batch_ok_def same_batch_def Let_def dict_simps
      split: option.splits sum.splits if_splits)

section \<open>What a route sends\<close>

text \<open>
  The events are done for each rule in effect for the route, with the exception of C6 and of rules that aim at the fields
  the classification stage writes; the route's policy lets them through.
\<close>

definition covered :: "prot_env \<Rightarrow> route_ctx \<Rightarrow> batch_ctx \<Rightarrow> json list \<Rightarrow> bool" where
  "covered env rx b evs \<longleftrightarrow> (\<exists>cfg.
     resolve_route_protection_config (rx_route rx) (rx_stream rx) (rx_protection_rules rx)
       (bx_protection_rules b) (bx_overrides b) (sb_ephemeral (bx_protect b)) = Inr cfg \<and>
     (let R = set (effective_rules (map re_rule (rc_rules cfg))
                    (merge_ephemeral_for_route (sb_ephemeral (bx_protect b)) cfg))
      in \<forall>e \<in> set evs. is_dict e \<longrightarrow>
           (\<forall>r \<in> R. steady R r \<and> spares_stamp r \<longrightarrow> rule_done env R r e)))"

definition gate_open :: "route_ctx \<Rightarrow> batch_ctx \<Rightarrow> json list \<Rightarrow> bool" where
  "gate_open rx b evs \<longleftrightarrow> (\<exists>c.
     resolve_route_policy_config (rx_route rx) (rx_policy_rules rx) (bx_policy_rules b) (bx_overrides b)
       (bx_governance b) (bx_drift b) = Inr c \<and>
     (evs \<noteq> [] \<longrightarrow> (\<forall>r \<in> set (pc_rules c). po_action r = POLICY_ACTION_QUARANTINE \<longrightarrow>
        \<not> condition_matches (JDict (po_condition r)) (finding_classes (bx_findings b))
            (classification_levels_from_events evs))) \<and>
     pc_behavior c \<notin> {Some Block_Delivery, Some Quarantine_Delivery, Some Review_Delivery} \<and>
     \<not> pc_drift_review c \<and> \<not> pc_drift_quarantine c)"

lemma same_batch_covered: "same_batch b b' \<Longrightarrow> covered env rx b' = covered env rx b"
  by (simp add: covered_def same_batch_def fun_eq_iff)

lemma same_batch_gate: "same_batch b b' \<Longrightarrow> gate_open rx b' = gate_open rx b"
  by (simp add: gate_open_def same_batch_def fun_eq_iff)

lemma stage_ephemeral:
  assumes "route_protection_stage env own preview rid sid tr evs rr sr ovs sb store = (out, sb', store')"
  shows "sb_ephemeral sb' = sb_ephemeral sb"
  using assms by (auto simp: route_protection_stage_def Let_def split: sum.splits option.splits if_splits prod.splits)

lemma stage_resolved:
  assumes "route_protection_stage env own preview rid sid tr evs rr sr ovs sb store = (Inr (res, cfg), sb', store')"
  shows "resolve_route_protection_config rid sid rr sr ovs (sb_ephemeral sb) = Inr cfg"
  using assms by (auto simp: route_protection_stage_def Let_def split: sum.splits option.splits if_splits prod.splits)

text \<open>The two ways a route can end: before its delivery stage, or with the outcome of that stage.\<close>

lemma route_cases:
  assumes "process_route_pipeline env preview send rx s = (r, s')"
  obtains (early) x b1 v1 q1 where "r = Inl x" "s' = s\<lparr>pp_batch := b1, pp_vault := v1, pp_quarantine := q1\<rparr>"
  | (delivery) transformed b1 prot cfg sb1 v1 classified cls evs pres c q1 d rn1 where
      "transform_stage env (rx_transform rx) (pp_batch s) = (Inr transformed, b1)"
      "route_protection_stage (pv_prot env) (pv_own env) preview (rx_route rx) (rx_stream rx)
          (map_option transform_config_cache_key (rx_transform rx)) transformed
          (rx_protection_rules rx) (bx_protection_rules b1) (bx_overrides b1) (bx_protect b1) (pp_vault s) =
         (Inr (prot, cfg), sb1, v1)"
      "route_classification_stage (pv_classify env) (rx_class rx) (bx_findings b1) (pb_events prot) = (classified, cls)"
      "route_policy_stage (pv_quarantine env (rx_route rx)) (pv_own env) preview
          (rx_stream rx) (rx_route rx) (rx_dest rx) classified (bx_findings b1)
          (map_option rk_level cls) (rx_policy_rules rx) (bx_policy_rules b1)
          (bx_overrides b1) (bx_governance b1) (bx_drift b1) (pp_quarantine s) = (Inr (evs, pres, c), q1)"
      "route_delivery_stage rx pres evs (if ps_allowed pres then map_option (\<lambda>f. f rx evs) send else None)
          (pp_runner s) = (d, rn1)"
      "s' = s\<lparr>pp_batch := b1\<lparr>bx_protect := sb1\<rparr>, pp_vault := v1, pp_quarantine := q1, pp_runner := rn1\<rparr>"
      "case d of Inl e \<Rightarrow> r = Inl (StageFailure e)
       | Inr dd \<Rightarrow> (\<exists>sr. r = Inr sr \<and> sr_route sr = rx_route rx \<and> sr_policy sr = pres \<and> sr_allowed sr = ps_allowed pres \<and>
           sr_delivery sr = dd \<and> sr_checkpoint sr = transformed \<and>
           sr_events sr = (if dv_success dd = Some True then evs else []))"
proof (cases "preview \<and> send \<noteq> None")
  case True
  with assms show thesis
    by (intro early [where ?b1.0 = "pp_batch s" and ?v1.0 = "pp_vault s" and ?q1.0 = "pp_quarantine s"]) (auto simp: process_route_pipeline_def)
next
  case np: False
  obtain t b1 where t: "transform_stage env (rx_transform rx) (pp_batch s) = (t, b1)" by (metis prod.exhaust)
  show thesis
  proof (cases t)
    case (Inl x)
    with assms np t show thesis
      by (intro early [where x = x and ?b1.0 = b1 and ?v1.0 = "pp_vault s" and ?q1.0 = "pp_quarantine s"]) (auto simp: process_route_pipeline_def)
  next
    case (Inr transformed)
    obtain p sb1 v1 where p: "route_protection_stage (pv_prot env) (pv_own env) preview (rx_route rx) (rx_stream rx)
          (map_option transform_config_cache_key (rx_transform rx)) transformed
          (rx_protection_rules rx) (bx_protection_rules b1) (bx_overrides b1) (bx_protect b1) (pp_vault s) = (p, sb1, v1)"
      by (metis prod.exhaust)
    note st = np t [unfolded Inr] p
    show thesis
    proof (cases p)
      case (Inl x)
      with assms st show thesis
        by (intro early [where x = x and ?b1.0 = "b1\<lparr>bx_protect := sb1\<rparr>" and ?v1.0 = v1 and ?q1.0 = "pp_quarantine s"]) (auto simp: process_route_pipeline_def)
    next
      case pr: (Inr pc)
      obtain prot cfg where pc: "pc = (prot, cfg)" by fastforce
      obtain classified cls where c: "route_classification_stage (pv_classify env) (rx_class rx) (bx_findings b1)
        (pb_events prot) = (classified, cls)" by (metis prod.exhaust)
      obtain g q1 where g: "route_policy_stage (pv_quarantine env (rx_route rx)) (pv_own env) preview
          (rx_stream rx) (rx_route rx) (rx_dest rx) classified (bx_findings b1)
          (map_option rk_level cls) (rx_policy_rules rx) (bx_policy_rules b1)
          (bx_overrides b1) (bx_governance b1) (bx_drift b1) (pp_quarantine s) = (g, q1)" by (metis prod.exhaust)
      note st = st [unfolded pr pc] c g
      show thesis
      proof (cases g)
        case (Inl x)
        with assms st show thesis
          by (intro early [where x = x and ?b1.0 = "b1\<lparr>bx_protect := sb1\<rparr>" and ?v1.0 = v1 and ?q1.0 = q1]) (auto simp: process_route_pipeline_def Let_def)
      next
        case gr: (Inr gc)
        obtain evs pres cc where gc: "gc = (evs, pres, cc)" by (metis prod.exhaust)
        obtain d rn1 where d: "route_delivery_stage rx pres evs
          (if ps_allowed pres then map_option (\<lambda>f. f rx evs) send else None) (pp_runner s) = (d, rn1)"
          by (metis prod.exhaust)
        note st = st [unfolded gr gc] d
        from assms st show thesis
          by (intro delivery [OF st(2-6)]) (auto simp: process_route_pipeline_def Let_def split: sum.splits)
      qed
    qed
  qed
qed

lemma pipeline_batch:
  assumes "pe_enabled (pv_prot env)" "engines_ok env" "batch_ok (pv_prot env) (pp_batch s)"
    "vault_ok (pv_prot env) (Some (pp_vault s))"
    and "process_route_pipeline env preview send rx s = (r, s')"
  shows "batch_ok (pv_prot env) (pp_batch s') \<and> same_batch (pp_batch s) (pp_batch s') \<and>
    (\<forall>sr. r = Inr sr \<longrightarrow> vault_ok (pv_prot env) (Some (pp_vault s')))"
proof (cases "preview \<and> send \<noteq> None")
  case True
  with assms(3,4,5) show ?thesis by (auto simp: process_route_pipeline_def)
next
  case np: False
  obtain t b1 where t: "transform_stage env (rx_transform rx) (pp_batch s) = (t, b1)" by (metis prod.exhaust)
  note b1 = transform_stage_ok [OF assms(2,3) t]
  show ?thesis
  proof (cases t)
    case (Inl x)
    with np t b1 assms(5) show ?thesis by (auto simp: process_route_pipeline_def)
  next
    case (Inr transformed)
    obtain p sb1 v1 where p: "route_protection_stage (pv_prot env) (pv_own env) preview (rx_route rx) (rx_stream rx)
          (map_option transform_config_cache_key (rx_transform rx)) transformed
          (rx_protection_rules rx) (bx_protection_rules b1) (bx_overrides b1) (bx_protect b1) (pp_vault s) = (p, sb1, v1)"
      by (metis prod.exhaust)
    have "json_events_ok transformed" "cache_ok (pv_prot env) (bx_protect b1)" using b1 Inr by (auto simp: batch_ok_def)
    with route_stage_done [OF assms(1) _ _ assms(4) p] b1(1) have "batch_ok (pv_prot env) (b1\<lparr>bx_protect := sb1\<rparr>)"
      "\<forall>x. p = Inr x \<longrightarrow> vault_ok (pv_prot env) (Some v1)"
      by (auto simp: batch_ok_def json_events_ok_def split: sum.splits)
    moreover have "same_batch (pp_batch s) (b1\<lparr>bx_protect := sb1\<rparr>)"
      using b1(2) stage_ephemeral [OF p] by (auto simp: same_batch_def)
    moreover have "pp_batch s' = b1\<lparr>bx_protect := sb1\<rparr>"
      using np t Inr p assms(5)
      by (auto simp: process_route_pipeline_def Let_def split: sum.splits prod.splits if_splits)
    moreover have "\<exists>x. p = Inr x \<and> pp_vault s' = v1" if "r = Inr sr" for sr
      using np t Inr p assms(5) that
      by (auto simp: process_route_pipeline_def Let_def split: sum.splits prod.splits if_splits)
    ultimately show ?thesis by auto
  qed
qed

text \<open>What the outcome of a route says about the adapter calls made for it.\<close>

definition honest :: "stage_result \<Rightarrow> (send_call \<times> send_exc option) list \<Rightarrow> bool" where
  "honest sr cs \<longleftrightarrow> (let d = sr_delivery sr in
     (\<forall>(c, x) \<in> set cs. call_route c = sr_route sr) \<and>
     (dv_allowed d = ps_allowed (sr_policy sr)) \<and> (dv_success d \<noteq> None \<and> dv_skip d \<noteq> None \<longrightarrow> dv_skip d = Some No_Events \<and> sr_events sr = []) \<and>
     (\<not> dv_allowed d \<or> dv_skip d \<noteq> None \<longrightarrow> cs = []) \<and>
     (dv_allowed d \<and> dv_skip d = None \<longrightarrow> dv_success d \<noteq> None) \<and>
     (dv_success d = Some True \<and> dv_skip d = None \<longrightarrow>
        dv_disposition d = Delivered \<and> dv_allowed d \<and> accepted cs \<and> sr_events sr \<noteq> [] \<and> (\<forall>(c, x) \<in> set cs. sc_events c = sr_events sr)) \<and>
     (dv_absorbed d \<longrightarrow> dv_allowed d \<and> dv_skip d = None \<and> dv_success d = Some False \<and> \<not> accepted cs))"

text \<open>A call that its route, one of the enabled ones, was entitled to make.\<close>

definition entitled :: "prot_env \<Rightarrow> route_ctx list \<Rightarrow> batch_ctx \<Rightarrow> (send_call \<times> send_exc option) \<Rightarrow> bool" where
  "entitled env rxs b k \<longleftrightarrow> (\<exists>rx \<in> set rxs. rx_enabled rx \<and> rx_route rx = call_route (fst k) \<and>
     covered env rx b (sc_events (fst k)) \<and> gate_open rx b (sc_events (fst k)))"

lemma entitled_Cons: "entitled env rxs b k \<Longrightarrow> entitled env (rx # rxs) b k"
  by (auto simp: entitled_def)

lemma entitled_batch: "same_batch b b' \<Longrightarrow> entitled env rxs b' k = entitled env rxs b k"
  by (simp add: entitled_def same_batch_covered same_batch_gate)

locale route_sender =
  fixes send :: "route_ctx \<Rightarrow> json list \<Rightarrow> 'w runner \<Rightarrow> send_outcome result \<times> 'w runner"
  assumes carries: "send rx evs rn = (r, rn') \<Longrightarrow>
      \<exists>cs. rn_calls rn' = rn_calls rn @ cs \<and> (\<forall>(c, x) \<in> set cs. sc_events c = evs \<and> call_route c = rx_route rx)"
    and truthful: "send rx evs rn = (Inr out, rn') \<Longrightarrow> rn_calls rn' = rn_calls rn @ cs \<Longrightarrow>
      (so_success out \<longrightarrow> accepted cs) \<and> (so_absorbed out \<longrightarrow> \<not> accepted cs \<and> \<not> so_success out) \<and>
      (so_rate_limited out \<or> so_dest_disabled out \<longrightarrow> cs = [])"
begin

lemma stage_calls:
  assumes "route_delivery_stage rx p evs (if ps_allowed p then Some (send rx evs) else None) rn = (d, rn')"
  shows "\<exists>cs. rn_calls rn' = rn_calls rn @ cs \<and> (\<forall>(c, x) \<in> set cs. sc_events c = evs \<and> call_route c = rx_route rx) \<and>
    (cs \<noteq> [] \<longrightarrow> ps_allowed p)"
proof (cases "rx_enabled rx \<and> ps_allowed p \<and> evs \<noteq> []")
  case True
  obtain o1 rn1 where s: "send rx evs rn = (o1, rn1)" by (metis prod.exhaust)
  with carries [OF s] True assms show ?thesis
    by (auto simp: route_delivery_stage_def split: sum.splits if_splits)
next
  case False
  with assms have "rn_calls rn' = rn_calls rn" by (auto simp: route_delivery_stage_def split: if_splits)
  then show ?thesis by simp
qed

lemma stage_honest:
  assumes "route_delivery_stage rx p evs (if ps_allowed p then Some (send rx evs) else None) rn = (Inr d, rn')"
    and "rn_calls rn' = rn_calls rn @ cs"
    and "sr_route sr = rx_route rx" "sr_delivery sr = d" "sr_policy sr = p" "sr_events sr = (if dv_success d = Some True then evs else [])"
    and "\<not> ps_allowed p \<longrightarrow> ps_decision p \<in> {Block, Require_Review, Quarantine}"
  shows "honest sr cs"
proof (cases "rx_enabled rx \<and> ps_allowed p \<and> evs \<noteq> []")
  case True
  obtain o1 rn1 where s: "send rx evs rn = (o1, rn1)" by (metis prod.exhaust)
  with True assms(1) obtain out where o: "o1 = Inr out" and d: "d = sent_result rx p (length evs) out"
    and c: "rn_calls rn' = rn_calls rn1"
    by (auto simp: route_delivery_stage_def split: sum.splits if_splits)
  from carries [OF s] c assms(2) have e: "\<forall>(c, x) \<in> set cs. sc_events c = evs \<and> call_route c = rx_route rx" by auto
  have "rn_calls rn1 = rn_calls rn @ cs" using c assms(2) by simp
  from truthful [OF s [unfolded o] this] have
    "(so_success out \<longrightarrow> accepted cs) \<and> (so_absorbed out \<longrightarrow> \<not> accepted cs \<and> \<not> so_success out) \<and>
      (so_rate_limited out \<or> so_dest_disabled out \<longrightarrow> cs = [])" .
  with True d e assms(3-6) show ?thesis
    by (cases "so_rate_limited out"; cases "so_dest_disabled out")
       (auto simp: honest_def sent_result_def unsent_result_def really_delivered_def Let_def)
next
  case False
  with assms(1) have "(\<exists>n disp ok skip. d = unsent_result rx p n disp ok (Some skip) \<and> (ok \<noteq> None \<longrightarrow> evs = [] \<and> skip = No_Events)) \<and> rn_calls rn' = rn_calls rn"
    using assms(7) by (auto simp: route_delivery_stage_def skip_reason_for_decision_def split: if_splits) blast+
  then obtain n disp ok skip where d: "d = unsent_result rx p n disp ok (Some skip)" "ok \<noteq> None \<longrightarrow> evs = [] \<and> skip = No_Events" and "rn_calls rn' = rn_calls rn"
    by blast
  with assms(2) have "cs = []" by simp
  with d show ?thesis using assms(3-6) by (auto simp: honest_def unsent_result_def really_delivered_def)
qed

lemma route_sends:
  assumes ok: "pe_enabled (pv_prot env)" "engines_ok env" "batch_ok (pv_prot env) (pp_batch s)"
      "vault_ok (pv_prot env) (Some (pp_vault s))"
    and run: "process_route_pipeline env preview (Some send) rx s = (r, s')"
  shows "\<exists>cs. rn_calls (pp_runner s') = rn_calls (pp_runner s) @ cs \<and>
    (\<forall>(c, x) \<in> set cs. call_route c = rx_route rx \<and> covered (pv_prot env) rx (pp_batch s) (sc_events c) \<and>
       gate_open rx (pp_batch s) (sc_events c)) \<and>
    (\<forall>sr. r = Inr sr \<longrightarrow> honest sr cs)"
  using run
proof (cases rule: route_cases)
  case (early x b1 v1 q1)
  then show ?thesis by auto
next
  case (delivery transformed b1 prot cfg sb1 v1 classified cls evs pres c q1 d rn1)
  note b1 = transform_stage_ok [OF ok(2,3) delivery(1)]
  have "json_events_ok transformed" "cache_ok (pv_prot env) (bx_protect b1)" using b1 by (auto simp: batch_ok_def)
  with route_stage_done [OF ok(1) _ _ ok(4) delivery(2)]
  have fin: "batch_done (pv_prot env) (map re_rule (rc_rules cfg)) (merge_ephemeral_for_route (sb_ephemeral (bx_protect b1)) cfg) (pb_events prot)"
    by (auto simp: json_events_ok_def)
  have cov: "covered (pv_prot env) rx b1 classified"
    unfolding covered_def Let_def using stage_resolved [OF delivery(2)] fin classified_done [OF _ _ delivery(3)]
    by (intro exI [of _ cfg]) (auto simp: batch_done_def)
  note gate = gate_exact [OF delivery(4)]
  have dec: "\<not> ps_allowed pres \<longrightarrow> ps_decision pres \<in> {Block, Require_Review, Quarantine}"
    and res: "resolve_route_policy_config (rx_route rx) (rx_policy_rules rx) (bx_policy_rules b1)
      (bx_overrides b1) (bx_governance b1) (bx_drift b1) = Inr c"
    by (rule policy_stage_cases [OF delivery(4)]; cases "ps_decision pres"; simp add: delivery_allowed_for_decision_def)+
  from delivery(5) have d: "route_delivery_stage rx pres evs (if ps_allowed pres then Some (send rx evs) else None) (pp_runner s) = (d, rn1)"
    by (simp split: if_splits)
  from stage_calls [OF this] obtain cs where cs: "rn_calls rn1 = rn_calls (pp_runner s) @ cs"
    "\<forall>(c, x) \<in> set cs. sc_events c = evs \<and> call_route c = rx_route rx" "cs \<noteq> [] \<longrightarrow> ps_allowed pres" by blast
  have "call_route k = rx_route rx \<and> covered (pv_prot env) rx b1 (sc_events k) \<and> gate_open rx b1 (sc_events k)" if "(k, x) \<in> set cs" for k x
  proof -
    from that cs have "ps_allowed pres" "sc_events k = evs" "call_route k = rx_route rx" by auto
    with gate res cov show ?thesis by (auto simp: gate_open_def)
  qed
  moreover have "honest sr cs" if "r = Inr sr" for sr
  proof -
    from that delivery(7) obtain dd where dd: "d = Inr dd" "sr_policy sr = pres" "sr_delivery sr = dd" "sr_route sr = rx_route rx"
      "sr_events sr = (if dv_success dd = Some True then evs else [])" by (cases d) auto
    from stage_honest [OF d [unfolded dd(1)] cs(1) dd(4,3,2,5) dec] show ?thesis .
  qed
  ultimately show ?thesis
    using cs(1) delivery(6) same_batch_covered [OF b1(2)] same_batch_gate [OF b1(2)] by (intro exI [of _ cs]) auto
qed

lemma loop_sends:
  assumes "pe_enabled (pv_prot env)" "engines_ok env" "batch_ok (pv_prot env) (pp_batch s)"
      "vault_ok (pv_prot env) (Some (pp_vault s))"
    and "process_routes_loop env (Some send) rxs t s = (r, s')"
  shows "\<exists>css. rn_calls (pp_runner s') = rn_calls (pp_runner s) @ concat css \<and>
    (\<forall>k \<in> set (concat css). entitled (pv_prot env) rxs (pp_batch s) k) \<and>
    (\<forall>t'. r = Inr t' \<longrightarrow> (\<exists>srs. t' = fold account_route srs t \<and> list_all2 honest srs css))"
  using assms(3,4,5)
proof (induction rxs arbitrary: t s)
  case Nil
  then show ?case by (intro exI [of _ "[]"]) (auto intro!: exI [of _ "[]"])
next
  case (Cons rx rxs)
  show ?case
  proof (cases "rx_enabled rx")
    case False
    let ?s = "s\<lparr>pp_runner := add_log (Log (u ''route_skip'') (Some (rx_route rx))) (pp_runner s)\<rparr>"
    from False Cons.prems have "batch_ok (pv_prot env) (pp_batch ?s)" "vault_ok (pv_prot env) (Some (pp_vault ?s))" "process_routes_loop env (Some send) rxs t ?s = (r, s')" by simp_all
    from Cons.IH [OF this] show ?thesis using entitled_Cons [where rxs = rxs and b = "pp_batch s"] by (elim ex_forward) simp
  next
    case True
    obtain r1 s1 where p: "process_route_pipeline env False (Some send) rx s = (r1, s1)" by (metis prod.exhaust)
    from route_sends [OF assms(1,2) Cons.prems(1,2) p] obtain cs where
      cs: "rn_calls (pp_runner s1) = rn_calls (pp_runner s) @ cs"
        "\<forall>(c, x) \<in> set cs. call_route c = rx_route rx \<and> covered (pv_prot env) rx (pp_batch s) (sc_events c) \<and>
           gate_open rx (pp_batch s) (sc_events c)"
        "\<forall>sr. r1 = Inr sr \<longrightarrow> honest sr cs" by blast
    from pipeline_batch [OF assms(1,2) Cons.prems(1,2) p]
    have b: "batch_ok (pv_prot env) (pp_batch s1)" "same_batch (pp_batch s) (pp_batch s1)"
      "\<forall>sr. r1 = Inr sr \<longrightarrow> vault_ok (pv_prot env) (Some (pp_vault s1))" by auto
    have here: "\<forall>k \<in> set cs. entitled (pv_prot env) (rx # rxs) (pp_batch s) k" using cs(2) True by (auto simp: entitled_def)
    show ?thesis
    proof (cases r1)
      case (Inl x)
      with Cons.prems True p have "r = Inl x" "s' = s1" by simp_all
      with here cs(1) show ?thesis by (intro exI [of _ "[cs]"]) simp
    next
      case (Inr sr)
      with Cons.prems True p have "process_routes_loop env (Some send) rxs (account_route sr t) s1 = (r, s')" by simp
      from Cons.IH [OF b(1) _ this] b(3) Inr obtain css where
        i: "rn_calls (pp_runner s') = rn_calls (pp_runner s1) @ concat css"
          "\<forall>k \<in> set (concat css). entitled (pv_prot env) rxs (pp_batch s1) k"
          "\<forall>t'. r = Inr t' \<longrightarrow> (\<exists>srs. t' = fold account_route srs (account_route sr t) \<and> list_all2 honest srs css)"
        by blast
      have "\<exists>srs. t' = fold account_route srs t \<and> list_all2 honest srs (cs # css)" if r: "r = Inr t'" for t'
      proof -
        from i(3) r obtain srs where "t' = fold account_route srs (account_route sr t)" "list_all2 honest srs css" by blast
        with cs(3) Inr show ?thesis by (intro exI [of _ "sr # srs"]) simp
      qed
      moreover have "\<forall>k \<in> set (concat (cs # css)). entitled (pv_prot env) (rx # rxs) (pp_batch s) k"
        using here i(2) entitled_Cons by (auto simp: entitled_batch [OF b(2)])
      ultimately show ?thesis using cs(1) i(1) by (intro exI [of _ "cs # css"]) simp
    qed
  qed
qed

end

interpretation single_sender: route_sender "\<lambda>rx. deliver_single_route ow opts st (rx_route rx)"
  by unfold_locales (use single_route_carries single_route_truthful in blast)+

section \<open>The references\<close>

text \<open>The delivery reference is the payload of the last route that really delivered.\<close>

lemma account_refs:
  "case find really_delivered (rev srs) of
     None \<Rightarrow> po_delivery_events (fold account_route srs t) = po_delivery_events t \<and>
       po_checkpoint_events (fold account_route srs t) = po_checkpoint_events t
   | Some sr \<Rightarrow> po_delivery_events (fold account_route srs t) = sr_events sr \<and>
       po_checkpoint_events (fold account_route srs t) = (if sr_checkpoint sr \<noteq> [] then sr_checkpoint sr else sr_events sr)"
  by (induction srs arbitrary: t)
     (auto simp: account_route_def find_append Let_def split: option.splits if_splits)

lemma account_results: "po_results (fold account_route srs t) = po_results t @ srs"
  by (induction srs arbitrary: t) (simp_all add: account_route_def Let_def)

section \<open>Properties of the pipeline\<close>

text \<open>
  C2. Only protected events that the policy lets through are sent.  Protection is switched on, the engines return
  well-formed events, and the batch and the vault satisfy their invariants.  Whatever the pipeline of a batch returns or raises,
  every adapter call it made names an enabled route, and its events are done for each rule in effect for that very
  route (its own or the stream's rules, its overrides and the rules schema drift added): every value the rule's path
  selects has been produced by the rule's mode, or by modes of overlapping rules from such a value, and a dropped path
  selects nothing.  Excepted are rules on the two fields the classification stage itself writes and, as in C6,
  array items dropped by index.  No quarantine rule, delivery behaviour or drift gate of that route holds the events back.
\<close>

theorem pipeline_sends_protected:
  assumes "pe_enabled (pv_prot env)" "engines_ok env" "batch_ok (pv_prot env) (pp_batch s)"
      "vault_ok (pv_prot env) (Some (pp_vault s))"
    and "process_routes env (Some (\<lambda>rx. deliver_single_route ow opts st (rx_route rx))) base rxs s = (out, s')"
  shows "\<exists>calls. rn_calls (pp_runner s') = rn_calls (pp_runner s) @ calls \<and>
    (\<forall>(c, r) \<in> set calls. \<exists>rx \<in> set rxs. rx_enabled rx \<and> rx_route rx = call_route c \<and>
       covered (pv_prot env) rx (pp_batch s) (sc_events c) \<and> gate_open rx (pp_batch s) (sc_events c))"
  using single_sender.loop_sends [OF assms(1-4) assms(5) [unfolded process_routes_def]]
  unfolding entitled_def by fastforce

section \<open>A demonstration\<close>

definition demo_pipeline_env :: pipeline_env where
  "demo_pipeline_env = \<lparr>pv_prot = demo_prot_env, pv_classify = False, pv_map = (\<lambda>d evs. Inr (map Inr evs)),
     pv_enrich = (\<lambda>d p evs. Inr evs), pv_own = False, pv_quarantine = (\<lambda>i. working_db)\<rparr>"

definition demo_route_ctx :: "int \<Rightarrow> (prot_rule \<times> int option) list \<Rightarrow> route_ctx" where
  "demo_route_ctx rid rules = \<lparr>rx_route = rid, rx_stream = 7, rx_dest = 10, rx_enabled = True, rx_transform = None,
     rx_class = \<lparr>cc_rules = [], cc_override_levels = [], cc_source = FromNowhere\<rparr>,
     rx_protection_rules = rules, rx_policy_rules = []\<rparr>"

definition demo_batch_ctx :: "json list \<Rightarrow> dict list \<Rightarrow> batch_ctx" where
  "demo_batch_ctx evs gov = \<lparr>bx_events = evs, bx_findings = [], bx_drift = None, bx_protection_rules = [],
     bx_policy_rules = [], bx_overrides = [], bx_governance = gov, bx_transforms = [], bx_transform_count = 0,
     bx_protect = demo_batch\<rparr>"

definition demo_pipe :: "json list \<Rightarrow> dict list \<Rightarrow> send_exc option list \<Rightarrow> (send_exc option list) pipe_state" where
  "demo_pipe evs gov w = \<lparr>pp_batch = demo_batch_ctx evs gov, pp_vault = demo_vault, pp_quarantine = [],
     pp_runner = script_runner w\<rparr>"

definition masked_event :: json where
  "masked_event = JDict [(u ''a'', JStr MASK_LITERAL), (u ''b'', JList [JStr (u ''y'')])]"

lemmas demo_pipe_defs = demo_pipeline_env_def demo_route_ctx_def demo_batch_ctx_def demo_pipe_def

lemma demo_engines: "engines_ok demo_pipeline_env"
  by (auto simp: engines_ok_def demo_pipeline_env_def json_events_ok_def)

lemma demo_batch_ok: "json_events_ok evs \<Longrightarrow> batch_ok env (demo_batch_ctx evs gov)"
  by (simp add: batch_ok_def demo_batch_ctx_def cache_ok_def demo_batch_def)

lemma demo_protects:
  "\<exists>res c sb. route_protection_stage demo_prot_env False False 5 7 tr [demo_event]
     [(demo_rule MODE_FULL_MASK (u ''$.a''), None)] [] [] demo_batch demo_vault = (Inr (res, c), sb, demo_vault) \<and>
     pb_events res = [masked_event]"
proof -
  obtain c where c: "resolve_route_protection_config 5 7 [(demo_rule MODE_FULL_MASK (u ''$.a''), None)] [] [] [] = Inr c"
    and rc: "map re_rule (rc_rules c) = [demo_rule MODE_FULL_MASK (u ''$.a'')]"
    by (auto simp: resolve_route_protection_config_def apply_route_overrides_def
      rule_entry_from_row_def demo_rule_def Let_def)
  have "requires_protection_persistence [demo_event] [demo_rule MODE_FULL_MASK (u ''$.a'')] = Inr False"
    by (simp add: requires_protection_persistence_def collect_tokenization_targets_def demo_rule_def mode_defs)
  with c rc demo_run show ?thesis
    by (auto simp: route_protection_stage_def demo_batch_def merge_ephemeral_for_route_def
        execute_protection_def raise_on_warnings_def masked_event_def Let_def)
qed

lemma quiet_policy:
  "\<exists>pres c. route_policy_stage q own preview sid rid did evs [] level [] [] [] [] None store = (Inr (evs, pres, c), store) \<and>
     ps_allowed pres"
  by (simp add: route_policy_stage_def resolve_route_policy_config_def resolve_effective_delivery_behavior_def
      extract_route_override_delivery_behavior_def extract_stream_default_delivery_behavior_def derive_drift_gates_def
      merge_route_policy_decision_def decision_candidates_def evaluate_route_policy_def policy_config_empty_def
      pick_most_restrictive_def matched_quarantine_evaluations_def audit_matches_def no_policy_def
      policy_outcome_def delivery_allowed_for_decision_def pick_strongest_def Let_def)

lemma no_limit: "limiter_allows ow k [] rn = (Inr True, rn)"
  by (simp add: limiter_allows_def destination_allow_def read_limit_def)

lemma script_accepts:
  assumes "find (\<lambda>r. rt_id r = 5) (sm_routes st) = Some (script_route p)" "rn_world rn = None # w" "rn_dedup rn = None"
  shows "\<exists>out rn' c. deliver_single_route script_outside opts st 5 evs rn = (Inr out, rn') \<and>
     so_success out \<and> \<not> so_rate_limited out \<and> \<not> so_dest_disabled out \<and>
     \<not> so_absorbed out \<and> rn_calls rn' = rn_calls rn @ [(c, None)] \<and> sc_events c = evs \<and> rn_world rn' = w \<and> rn_dedup rn' = None"
proof -
  let ?rt = "script_route p"
  have e: "dn_enabled (rt_dest ?rt)" "effective_rate_limit ?rt (rt_dest ?rt) = []"
    by (simp_all add: script_route_def effective_rate_limit_def)
  have s: "send_to_destination script_outside c rn = (None, rn\<lparr>rn_world := w, rn_calls := rn_calls rn @ [(c, None)]\<rparr>)" for c
    using assms by (simp add: send_to_destination_def script_outside_def)
  show ?thesis using assms
    by (simp add: deliver_single_route_def send_route_events_def e no_limit s base_outcome_def)
       (simp add: record_dedup_def add_log_def)
qed

lemma demo_pipeline_run:
  "\<exists>t s' c. process_routes demo_pipeline_env
      (Some (\<lambda>rx. deliver_single_route script_outside script_opts (script_stream (u ''LOG_AND_CONTINUE'')) (rx_route rx)))
      (no_metrics 1 0) [demo_route_ctx 5 [(demo_rule MODE_FULL_MASK (u ''$.a''), None)]] (demo_pipe [demo_event] [] [None]) =
      (Inr t, s') \<and> rn_calls (pp_runner s') = [(c, None)] \<and> sc_events c = [masked_event] \<and>
      po_delivery_events t = [masked_event] \<and> po_checkpoint_events t = [demo_event]"
proof -
  let ?rx = "demo_route_ctx 5 [(demo_rule MODE_FULL_MASK (u ''$.a''), None)]"
  obtain res cfg sb where p: "route_protection_stage demo_prot_env False False 5 7 None [demo_event]
     [(demo_rule MODE_FULL_MASK (u ''$.a''), None)] [] [] demo_batch demo_vault = (Inr (res, cfg), sb, demo_vault)"
    "pb_events res = [masked_event]" using demo_protects [of None] by blast
  obtain pres c where g: "route_policy_stage working_db False False 7 5 10 [masked_event] [] None [] [] [] [] None [] =
      (Inr ([masked_event], pres, c), [])" "ps_allowed pres" using quiet_policy by blast
  have f: "find (\<lambda>r. rt_id r = 5) (sm_routes (script_stream (u ''LOG_AND_CONTINUE''))) = Some (script_route (u ''LOG_AND_CONTINUE''))"
    "rn_world (script_runner [None]) = [None]" "rn_dedup (script_runner [None]) = None" "rn_calls (script_runner [None]) = []"
    by (simp_all add: script_stream_def script_route_def script_runner_def)
  obtain out rn k where d: "deliver_single_route script_outside script_opts (script_stream (u ''LOG_AND_CONTINUE'')) 5
      [masked_event] (script_runner [None]) = (Inr out, rn)" "so_success out" "\<not> so_rate_limited out" "\<not> so_dest_disabled out"
      "rn_calls rn = [(k, None)]" "sc_events k = [masked_event]" using script_accepts [OF f(1-3), of script_opts "[masked_event]"] f(4) by auto
  have "route_delivery_stage ?rx pres [masked_event]
      (Some (deliver_single_route script_outside script_opts (script_stream (u ''LOG_AND_CONTINUE'')) 5 [masked_event]))
      (script_runner [None]) = (Inr (sent_result ?rx pres 1 out), rn)"
    using d g by (simp add: route_delivery_stage_def demo_route_ctx_def)
  moreover have "dv_success (sent_result ?rx pres 1 out) = Some True" "dv_disposition (sent_result ?rx pres 1 out) = Delivered"
    using d by (simp_all add: sent_result_def unsent_result_def)
  ultimately show ?thesis using p g d
    by (simp add: process_routes_def process_route_pipeline_def demo_pipe_defs transform_stage_def
        route_classification_stage_def account_route_def really_delivered_def)
qed

theorem pipeline_sends_protected_witness:
  "\<exists>t s' c. process_routes demo_pipeline_env
      (Some (\<lambda>rx. deliver_single_route script_outside script_opts (script_stream (u ''LOG_AND_CONTINUE'')) (rx_route rx)))
      (no_metrics 1 0) [demo_route_ctx 5 [(demo_rule MODE_FULL_MASK (u ''$.a''), None)]] (demo_pipe [demo_event] [] [None]) =
      (Inr t, s') \<and> rn_calls (pp_runner s') = [(c, None)] \<and> sc_events c = [masked_event] \<and>
      (\<exists>rx \<in> set [demo_route_ctx 5 [(demo_rule MODE_FULL_MASK (u ''$.a''), None)]].
         rx_route rx = call_route c \<and> covered demo_prot_env rx (demo_batch_ctx [demo_event] []) (sc_events c) \<and> gate_open rx (demo_batch_ctx [demo_event] []) (sc_events c))"
proof -
  obtain t s' c where r: "process_routes demo_pipeline_env
      (Some (\<lambda>rx. deliver_single_route script_outside script_opts (script_stream (u ''LOG_AND_CONTINUE'')) (rx_route rx)))
      (no_metrics 1 0) [demo_route_ctx 5 [(demo_rule MODE_FULL_MASK (u ''$.a''), None)]] (demo_pipe [demo_event] [] [None]) =
      (Inr t, s')" "rn_calls (pp_runner s') = [(c, None)]" "sc_events c = [masked_event]"
    using demo_pipeline_run by blast
  have "pe_enabled (pv_prot demo_pipeline_env)" "batch_ok (pv_prot demo_pipeline_env) (pp_batch (demo_pipe [demo_event] [] [None]))"
    "vault_ok (pv_prot demo_pipeline_env) (Some (pp_vault (demo_pipe [demo_event] [] [None])))"
    by (simp_all add: demo_pipeline_env_def demo_prot_env_def demo_pipe_def vault_ok_def demo_env_ok demo_batch_ok json_events_ok_def demo_event_def)
  from pipeline_sends_protected [OF this(1) demo_engines this(2,3) r(1)] r show ?thesis
    by (auto simp: demo_pipe_def demo_pipeline_env_def script_runner_def)
qed

end
