(* ===== verification/Event_Extract.thy ===== *)
theory Event_Extract
  imports Route_Protection
begin

text \<open>
  Extraction of events from a raw response: \<^verbatim>\<open>app/parsers/event_extractor.py\<close>, with the fallback
  of \<open>_collect_source_events\<close> when the root path does not match.  The evaluation of a JSONPath
  (\<open>find_values\<close>, a wrapper of a third-party package) is the argument \<open>fv\<close>.
\<close>

section \<open>Definitions\<close>

type_synonym jsonpath_values = "json \<Rightarrow> ustr \<Rightarrow> json list result"

definition type_name :: "json \<Rightarrow> ustr" where
  "type_name v = u (case v of JNull \<Rightarrow> ''NoneType'' | JBool _ \<Rightarrow> ''bool'' | JInt _ \<Rightarrow> ''int'' | JFloat _ \<Rightarrow> ''float''
     | JStr _ \<Rightarrow> ''str'' | JList _ \<Rightarrow> ''list'' | JDict _ \<Rightarrow> ''dict'')"

definition is_primitive_json :: "json \<Rightarrow> bool" where
  "is_primitive_json v \<longleftrightarrow> \<not> is_dict v \<and> \<not> is_list v"

definition path_given :: "ustr option \<Rightarrow> bool" where
  "path_given p = (case p of None \<Rightarrow> False | Some s \<Rightarrow> strip s \<noteq> [])"

definition ROOT_NOT_MATCHED :: ustr where
  "ROOT_NOT_MATCHED = u ''event_root_path did not match event item at index''"

text \<open>One event projected to the object its root path selects.\<close>

definition project_root :: "jsonpath_values \<Rightarrow> ustr \<Rightarrow> nat \<Rightarrow> json \<Rightarrow> stage_exc + json" where
  "project_root fv root_path idx event = (case fv event root_path of
     Inl e \<Rightarrow> Inl (StageFailure e)
   | Inr [] \<Rightarrow> Inl (MappingError (ROOT_NOT_MATCHED @ u '' '' @ nat_str idx @ u '': '' @ root_path))
   | Inr [value] \<Rightarrow>
       if is_dict value then Inr value
       else Inl (MappingError (u ''event_root_path must resolve to an object/dict per event; event index '' @
              nat_str idx @ u '' resolved to '' @ type_name value))
   | Inr matches \<Rightarrow> Inl (MappingError (u ''event_root_path must resolve to exactly one value per event; event index '' @
              nat_str idx @ u '' matched '' @ nat_str (length matches) @ u '' values'')))"

fun project_all :: "jsonpath_values \<Rightarrow> ustr \<Rightarrow> nat \<Rightarrow> json list \<Rightarrow> stage_exc + json list" where
  "project_all fv root_path idx [] = Inr []"
| "project_all fv root_path idx (e # es) = (case project_root fv root_path idx e of
     Inl x \<Rightarrow> Inl x
   | Inr v \<Rightarrow> (case project_all fv root_path (Suc idx) es of Inl x \<Rightarrow> Inl x | Inr vs \<Rightarrow> Inr (v # vs)))"

definition normalize_events_with_root :: "jsonpath_values \<Rightarrow> json list \<Rightarrow> ustr option \<Rightarrow> stage_exc + json list" where
  "normalize_events_with_root fv events event_root_path =
     (if \<not> path_given event_root_path then Inr events
      else project_all fv (the event_root_path) 0 events)"

text \<open>All items must be objects; \<open>what\<close> builds the message for the first that is not.\<close>

fun dict_items :: "(nat \<Rightarrow> json \<Rightarrow> ustr) \<Rightarrow> nat \<Rightarrow> json list \<Rightarrow> stage_exc + json list" where
  "dict_items what idx [] = Inr []"
| "dict_items what idx (v # vs) =
     (if \<not> is_dict v then Inl (MappingError (what idx v))
      else case dict_items what (Suc idx) vs of Inl x \<Rightarrow> Inl x | Inr es \<Rightarrow> Inr (v # es))"

definition with_root :: "jsonpath_values \<Rightarrow> ustr option \<Rightarrow> stage_exc + json list \<Rightarrow> stage_exc + json list" where
  "with_root fv rpath r = (case r of Inl x \<Rightarrow> Inl x | Inr evs \<Rightarrow> normalize_events_with_root fv evs rpath)"

definition extract_events :: "jsonpath_values \<Rightarrow> json \<Rightarrow> ustr option \<Rightarrow> ustr option \<Rightarrow> stage_exc + json list" where
  "extract_events fv raw event_array_path event_root_path =
     (if \<not> path_given event_array_path then
        (case raw of
           JDict d \<Rightarrow> with_root fv event_root_path (Inr [raw])
         | JList xs \<Rightarrow> with_root fv event_root_path (dict_items (\<lambda>i v. u ''Expected dict items in raw list at index '' @
             nat_str i @ u '', got '' @ type_name v) 0 xs)
         | _ \<Rightarrow> Inl (MappingError (u ''Without event_array_path, raw_response must be a dict or list, got '' @ type_name raw)))
      else if is_primitive_json raw then
        Inl (MappingError (u ''With event_array_path, raw_response must be a dict or list root, got '' @ type_name raw))
      else (case fv raw (the event_array_path) of
        Inl e \<Rightarrow> Inl (StageFailure e)
      | Inr [] \<Rightarrow> Inr []
      | Inr [value] \<Rightarrow> (case value of
          JList xs \<Rightarrow> with_root fv event_root_path (dict_items (\<lambda>i v. u ''event_array_path list result: expected dict at index '' @
             nat_str i @ u '', got '' @ type_name v) 0 xs)
        | JDict d \<Rightarrow> with_root fv event_root_path (Inr [value])
        | _ \<Rightarrow> Inl (MappingError (u ''event_array_path must resolve to a dict or list of dicts; got '' @ type_name value)))
      | Inr matches \<Rightarrow> with_root fv event_root_path (dict_items (\<lambda>i v. u ''Multiple JSONPath matches must each be dict events; match '' @
             nat_str i @ u '' is '' @ type_name v) 0 matches)))"

fun contains :: "ustr \<Rightarrow> ustr \<Rightarrow> bool" where
  "contains pat [] = (pat = [])"
| "contains pat (c # cs) = (startswith (c # cs) pat \<or> contains pat cs)"

text \<open>The runner drops a root path that no longer matches.\<close>

definition root_fallback :: "jsonpath_values \<Rightarrow> json \<Rightarrow> ustr option \<Rightarrow> ustr option \<Rightarrow> bool" where
  "root_fallback fv raw array_path root_path = (case extract_events fv raw array_path root_path of
     Inl (MappingError msg) \<Rightarrow> path_given root_path \<and> contains ROOT_NOT_MATCHED msg
   | _ \<Rightarrow> False)"

definition extract_with_fallback :: "jsonpath_values \<Rightarrow> json \<Rightarrow> ustr option \<Rightarrow> ustr option \<Rightarrow> stage_exc + json list" where
  "extract_with_fallback fv raw array_path root_path =
     (if root_fallback fv raw array_path root_path then extract_events fv raw array_path None
      else extract_events fv raw array_path root_path)"

section \<open>What is extracted\<close>

lemma contains_append: "contains pat (pat @ s)"
proof (cases "pat @ s")
  case (Cons c cs)
  then have "startswith (c # cs) pat" by (metis append_eq_conv_conj startswith_def)
  with Cons show ?thesis by simp
qed simp

lemma dict_items_ok: "dict_items what i vs = Inr es \<Longrightarrow> es = vs \<and> (\<forall>v \<in> set vs. is_dict v)"
  by (induction vs arbitrary: i es) (auto split: if_splits sum.splits)

lemma dict_items_raises: "dict_items what i vs = Inl x \<Longrightarrow> \<exists>v \<in> set vs. \<not> is_dict v"
  by (induction vs arbitrary: i x) (auto split: if_splits sum.splits)

lemma project_root_dict: "project_root fv p i e = Inr v \<Longrightarrow> is_dict v \<and> fv e p = Inr [v]"
  by (auto simp: project_root_def split: sum.splits list.splits if_splits)

lemma project_all_dicts:
  "project_all fv p i es = Inr vs \<Longrightarrow> list_all2 (\<lambda>e v. is_dict v \<and> fv e p = Inr [v]) es vs"
  by (induction es arbitrary: i vs) (auto split: sum.splits dest: project_root_dict)

lemma project_all_raises:
  "project_all fv p i es = Inl (MappingError msg) \<Longrightarrow> \<exists>e \<in> set es. \<exists>ms. fv e p = Inr ms \<and> \<not> (\<exists>v. ms = [v] \<and> is_dict v)"
proof (induction es arbitrary: i)
  case (Cons e es)
  then show ?case
    by (cases "project_root fv p i e"; cases "project_all fv p (Suc i) es")
       (auto simp: project_root_def split: sum.splits list.splits if_splits)
qed simp

text \<open>The events that a response holds before the root projection, as the code documents them.\<close>

definition event_items :: "jsonpath_values \<Rightarrow> json \<Rightarrow> ustr option \<Rightarrow> json list option" where
  "event_items fv raw array_path =
     (let values = (if \<not> path_given array_path then Some [raw]
        else if is_primitive_json raw then None
        else case fv raw (the array_path) of Inl e \<Rightarrow> None | Inr vs \<Rightarrow> Some vs)
      in case values of None \<Rightarrow> None
         | Some [JList xs] \<Rightarrow> if list_all is_dict xs then Some xs else None
         | Some vs \<Rightarrow> if list_all is_dict vs then Some vs else None)"

definition rooted :: "jsonpath_values \<Rightarrow> ustr option \<Rightarrow> json list \<Rightarrow> json list \<Rightarrow> bool" where
  "rooted fv rpath items evs \<longleftrightarrow>
     (if path_given rpath then list_all2 (\<lambda>e v. is_dict v \<and> fv e (the rpath) = Inr [v]) items evs else evs = items)"

lemma with_root_ok:
  "with_root fv rpath (dict_items what i vs) = Inr evs \<Longrightarrow> list_all is_dict vs \<and> rooted fv rpath vs evs"
  by (auto simp: with_root_def normalize_events_with_root_def rooted_def list_all_iff
      dest!: dict_items_ok project_all_dicts split: sum.splits if_splits)

lemma with_root_single: "with_root fv rpath (Inr [v]) = Inr evs \<Longrightarrow> rooted fv rpath [v] evs"
  by (auto simp: with_root_def normalize_events_with_root_def rooted_def
      dest!: project_all_dicts project_root_dict split: sum.splits if_splits)

lemma extract_spec:
  assumes "extract_events fv raw array_path root_path = Inr evs"
  shows "\<exists>items. event_items fv raw array_path = Some items \<and> rooted fv root_path items evs"
proof (cases "path_given array_path")
  case False
  with assms with_root_ok with_root_single show ?thesis
    by (cases raw) (fastforce simp: extract_events_def event_items_def is_dict_def)+
next
  case True
  with assms obtain vs where vs: "\<not> is_primitive_json raw" "fv raw (the array_path) = Inr vs"
    by (auto simp: extract_events_def split: if_splits sum.splits)
  show ?thesis
  proof (cases vs)
    case Nil
    with True assms vs show ?thesis by (simp add: extract_events_def event_items_def rooted_def)
  next
    case (Cons v rest)
    show ?thesis
    proof (cases rest)
      case Nil
      with Cons True assms vs with_root_ok with_root_single show ?thesis
        by (cases v) (fastforce simp: extract_events_def event_items_def is_dict_def)+
    next
      case c2: (Cons v2 rest2)
      with Cons True assms vs have "with_root fv root_path (dict_items (\<lambda>i v. u ''Multiple JSONPath matches must each be dict events; match '' @
             nat_str i @ u '' is '' @ type_name v) 0 vs) = Inr evs" by (simp add: extract_events_def)
      from with_root_ok [OF this] Cons c2 True vs show ?thesis
        by (auto simp: event_items_def is_dict_def split: json.splits)
    qed
  qed
qed

lemma rooted_dicts: "rooted fv rpath items evs \<Longrightarrow> list_all is_dict items \<Longrightarrow> list_all is_dict evs"
  by (auto simp: rooted_def list_all_iff list_all2_conv_all_nth in_set_conv_nth split: if_splits)

lemma items_dicts: "event_items fv raw path = Some items \<Longrightarrow> list_all is_dict items"
  by (auto simp: event_items_def Let_def split: option.splits list.splits json.splits if_splits)

lemma dict_items_id: "list_all is_dict vs \<Longrightarrow> dict_items what i vs = Inr vs"
  by (induction vs arbitrary: i) auto

lemma extract_from_items:
  assumes "event_items fv raw array_path = Some items"
  shows "extract_events fv raw array_path rpath = normalize_events_with_root fv items rpath \<or>
    items = [] \<and> extract_events fv raw array_path rpath = Inr []"
proof (cases "path_given array_path")
  case False
  with assms show ?thesis
    by (cases raw) (auto simp: event_items_def extract_events_def with_root_def dict_items_id is_dict_def split: if_splits)
next
  case True
  with assms obtain vs where vs: "\<not> is_primitive_json raw" "fv raw (the array_path) = Inr vs"
    by (auto simp: event_items_def Let_def split: if_splits sum.splits option.splits)
  with True assms show ?thesis
    by (auto simp: event_items_def extract_events_def with_root_def dict_items_id is_dict_def
        split: if_splits list.splits json.splits)
qed

text \<open>What the root path selects in an event: nothing, or one object.\<close>

definition root_object :: "jsonpath_values \<Rightarrow> ustr \<Rightarrow> json \<Rightarrow> json option" where
  "root_object fv p e = (case fv e p of Inr [JDict d] \<Rightarrow> Some (JDict d) | _ \<Rightarrow> None)"

lemma project_all_total:
  assumes "\<forall>e \<in> set es. fv e p = Inr [] \<or> root_object fv p e \<noteq> None"
  shows "if \<exists>e \<in> set es. fv e p = Inr [] then \<exists>msg. project_all fv p i es = Inl (MappingError msg) \<and> contains ROOT_NOT_MATCHED msg
     else project_all fv p i es = Inr (map (the \<circ> root_object fv p) es)"
  using assms
proof (induction es arbitrary: i)
  case (Cons e es)
  show ?case
  proof (cases "fv e p = Inr []")
    case True
    then show ?thesis using contains_append [of ROOT_NOT_MATCHED] by (auto simp: project_root_def)
  next
    case False
    with Cons.prems obtain d where d: "fv e p = Inr [JDict d]"
      by (auto simp: root_object_def split: sum.splits list.splits json.splits)
    then have "project_root fv p i e = Inr (JDict d)" "root_object fv p e = Some (JDict d)"
      by (simp_all add: project_root_def is_dict_def root_object_def)
    with d Cons.IH [of "Suc i"] Cons.prems show ?thesis by (auto split: if_splits)
  qed
qed simp

text \<open>
  C27. Extraction returns exactly the events of the response.  Whatever the paths are, extraction with
  the runner's fallback returns objects only, taken in order from the items the response holds, either
  each projected to the one object its root path selects or all of them as they are; and if the
  response holds event items and the root path selects nothing or one object in each of them, extraction
  never raises: the items are projected when all of them match, and are kept whole when one does not.
\<close>

theorem extraction_exact:
  "(\<forall>evs. extract_with_fallback fv raw array_path root_path = Inr evs \<longrightarrow> list_all is_dict evs \<and>
      (\<exists>items. event_items fv raw array_path = Some items \<and> (rooted fv root_path items evs \<or> evs = items))) \<and>
   (\<forall>items. event_items fv raw array_path = Some items \<longrightarrow>
      (path_given root_path \<longrightarrow> (\<forall>e \<in> set items. fv e (the root_path) = Inr [] \<or> root_object fv (the root_path) e \<noteq> None)) \<longrightarrow>
      extract_with_fallback fv raw array_path root_path =
        Inr (if path_given root_path \<and> (\<forall>e \<in> set items. fv e (the root_path) \<noteq> Inr [])
             then map (the \<circ> root_object fv (the root_path)) items else items))"
proof (intro conjI allI impI)
  fix evs assume r: "extract_with_fallback fv raw array_path root_path = Inr evs"
  then consider "extract_events fv raw array_path root_path = Inr evs" | "extract_events fv raw array_path None = Inr evs"
    by (auto simp: extract_with_fallback_def root_fallback_def split: sum.splits stage_exc.splits if_splits)
  then obtain items where items: "event_items fv raw array_path = Some items" "rooted fv root_path items evs \<or> rooted fv None items evs"
    using extract_spec by metis
  then show "\<exists>items. event_items fv raw array_path = Some items \<and> (rooted fv root_path items evs \<or> evs = items)"
    by (auto simp: rooted_def path_given_def)
  from items rooted_dicts items_dicts show "list_all is_dict evs" by metis
next
  fix items assume items: "event_items fv raw array_path = Some items"
    and m: "path_given root_path \<longrightarrow> (\<forall>e \<in> set items. fv e (the root_path) = Inr [] \<or> root_object fv (the root_path) e \<noteq> None)"
  have n: "extract_events fv raw array_path None = Inr items"
    using extract_from_items [OF items, of None] by (auto simp: normalize_events_with_root_def path_given_def)
  show "extract_with_fallback fv raw array_path root_path =
        Inr (if path_given root_path \<and> (\<forall>e \<in> set items. fv e (the root_path) \<noteq> Inr [])
             then map (the \<circ> root_object fv (the root_path)) items else items)"
  proof (cases "path_given root_path")
    case True
    with m project_all_total [of items fv "the root_path" 0] extract_from_items [OF items, of root_path] n show ?thesis
      by (cases "\<exists>e \<in> set items. fv e (the root_path) = Inr []")
         (auto simp: extract_with_fallback_def root_fallback_def normalize_events_with_root_def)
  next
    case False
    with extract_from_items [OF items, of root_path] show ?thesis
      by (auto simp: extract_with_fallback_def root_fallback_def normalize_events_with_root_def)
  qed
qed

text \<open>A document evaluator for a single member, and a response whose second event lacks the member.\<close>

definition member_values :: jsonpath_values where
  "member_values v p = Inr (case v of JDict d \<Rightarrow> (case dget d p of Some x \<Rightarrow> [x] | None \<Rightarrow> []) | _ \<Rightarrow> [])"

theorem extraction_exact_witness:
  "extract_with_fallback member_values (JDict [(u ''items'', JList [JDict [(u ''r'', JDict [])], JDict []])])
     (Some (u ''items'')) (Some (u ''r'')) = Inr [JDict [(u ''r'', JDict [])], JDict []]"
proof -
  let ?raw = "JDict [(u ''items'', JList [JDict [(u ''r'', JDict [])], JDict []])]"
  have p: "path_given (Some (u ''items''))" "path_given (Some (u ''r''))"
    by (simp_all add: path_given_def strip_def is_space_def u_def)
  then have "event_items member_values ?raw (Some (u ''items'')) = Some [JDict [(u ''r'', JDict [])], JDict []]"
    by (simp add: event_items_def member_values_def is_primitive_json_def is_dict_def is_list_def)
  with extraction_exact [of member_values ?raw "Some (u ''items'')" "Some (u ''r'')"] p show ?thesis
    by (simp add: member_values_def root_object_def)
qed

end
