(* ===== verification/Checkpointing.thy ===== *)
theory Checkpointing
  imports Event_Extract
begin

text \<open>
  The checkpoint of a stream: how its value is built from the last delivered event
  (\<open>_update_checkpoint_after_success\<close> of \<^verbatim>\<open>app/runners/stream_runner.py\<close> and the checkpoint functions of
  \<^verbatim>\<open>app/http/shared_request_builder.py\<close>), stored (\<^verbatim>\<open>app/checkpoints\<close>) and read back
  (\<open>_resolve_checkpoint\<close>).  A JSON \<open>None\<close> is \<open>JNull\<close>; \<open>updated_at\<close> columns are not modelled.
\<close>

section \<open>The cursor in an event\<close>

fun first_scalar :: "json \<Rightarrow> json" where
  "first_scalar (JList xs) = (case filter (\<lambda>v. v \<noteq> JNull) (map first_scalar xs) of [] \<Rightarrow> JNull | v # _ \<Rightarrow> v)"
| "first_scalar (JDict d) = JNull"
| "first_scalar v = v"

definition normalize_path :: "ustr \<Rightarrow> ustr" where
  "normalize_path path = (let p = strip path in
     if p = [] then [] else if startswith p (u ''$'') then p
     else if startswith p (u ''.'') then u ''$'' @ p else u ''$.'' @ p)"

text \<open>\<open>raw.replace(".*[*].", ".*.")\<close>.\<close>

function merge_wildcards :: "ustr \<Rightarrow> ustr" where
  "merge_wildcards [] = []"
| "merge_wildcards (c # cs) =
     (if startswith (c # cs) (u ''.*[*].'') then u ''.*.'' @ merge_wildcards (drop 6 (c # cs))
      else c # merge_wildcards cs)"
  by pat_completeness auto

termination by (relation "measure length") auto

definition push_candidate :: "ustr list \<Rightarrow> ustr \<Rightarrow> ustr list" where
  "push_candidate out candidate =
     (let c = normalize_path candidate in if c \<noteq> [] \<and> c \<notin> set out then out @ [c] else out)"

fun after_dot :: "ustr \<Rightarrow> ustr option" where
  "after_dot [] = None"
| "after_dot (c # cs) = (if c = 46 then Some cs else after_dot cs)"

definition endswith :: "ustr \<Rightarrow> ustr \<Rightarrow> bool" where
  "endswith s p \<longleftrightarrow> startswith (rev s) (rev p)"

text \<open>The candidates of one variant below the event array.\<close>

definition variant_candidates :: "ustr \<Rightarrow> ustr list \<Rightarrow> ustr \<Rightarrow> ustr list" where
  "variant_candidates arr out variant =
     (let out1 = foldl (\<lambda>out prefix. if startswith variant (prefix @ u ''.'')
            then push_candidate out (u ''$.'' @ drop (length prefix + 1) variant) else out)
          out [arr, arr @ u ''[*]'', arr @ u ''[0]''];
          map_prefix = take (length arr - 2) arr
      in if endswith arr (u ''.*'') \<and> startswith variant (map_prefix @ u ''.'') then
           (case after_dot (drop (length map_prefix + 1) variant) of
              Some tail \<Rightarrow> push_candidate out1 (u ''$.'' @ tail) | None \<Rightarrow> out1)
         else out1)"

definition checkpoint_path_candidates :: "ustr \<Rightarrow> ustr \<Rightarrow> ustr list" where
  "checkpoint_path_candidates path event_array_path =
     (let raw = normalize_path path
      in if raw = [] then []
         else
           let out = push_candidate (push_candidate [] raw) (merge_wildcards raw);
               arr = normalize_path event_array_path
           in if arr = [] then out
              else foldl (variant_candidates arr) out [raw, merge_wildcards raw])"

fun first_found :: "jsonpath_values \<Rightarrow> json \<Rightarrow> ustr list \<Rightarrow> json" where
  "first_found fv event [] = JNull"
| "first_found fv event (c # cs) = (case fv event c of
     Inl _ \<Rightarrow> first_found fv event cs
   | Inr ms \<Rightarrow> (case filter (\<lambda>v. v \<noteq> JNull) (map first_scalar ms) of
       [] \<Rightarrow> first_found fv event cs | v # _ \<Rightarrow> v))"

definition cursor_paths :: "dict \<Rightarrow> ustr list" where
  "cursor_paths cfg =
     (case dget_none cfg (u ''cursor_paths'') of
        JList ps \<Rightarrow> map py_str (filter (\<lambda>p. strip (str_or_empty p) \<noteq> []) ps) | _ \<Rightarrow> []) @
     map py_str (filter (\<lambda>p. strip (str_or_empty p) \<noteq> [])
       (map (dget_none cfg) [u ''cursor_path'', u ''path'', u ''field_path'']))"

definition resolve_checkpoint_value_from_event :: "jsonpath_values \<Rightarrow> json \<Rightarrow> dict \<Rightarrow> json" where
  "resolve_checkpoint_value_from_event fv last_event cfg = (case dget_none cfg (u ''checkpoint'') of
     JDict c \<Rightarrow>
       (let raw = dget_none cfg (u ''event_array_path'');
            arr = (if truthy raw then py_str raw else u ''$'')
        in first_found fv last_event (concat (map (\<lambda>p. checkpoint_path_candidates p arr) (cursor_paths c))))
   | _ \<Rightarrow> JNull)"

definition setdefault :: "json \<Rightarrow> dict \<Rightarrow> ustr \<Rightarrow> dict" where
  "setdefault v d k = (if dget d k = None then dset k v d else d)"

definition CURSOR_ALIASES :: "ustr list" where
  "CURSOR_ALIASES = map u [''cursor'', ''value'', ''last_seen'', ''next_cursor'', ''last_timestamp'', ''last_timestamp_ms'']"

definition build_runtime_checkpoint_template_context :: "jsonpath_values \<Rightarrow> dict \<Rightarrow> dict \<Rightarrow> dict" where
  "build_runtime_checkpoint_template_context fv checkpoint cfg =
     (let cursor = (case dget_none checkpoint (u ''last_success_event'') of
            JDict e \<Rightarrow> resolve_checkpoint_value_from_event fv (JDict e) cfg | _ \<Rightarrow> JNull)
      in if cursor = JNull then checkpoint else foldl (setdefault cursor) checkpoint CURSOR_ALIASES)"

section \<open>The value of a checkpoint\<close>

definition put_some :: "ustr \<Rightarrow> json \<Rightarrow> dict \<Rightarrow> dict" where
  "put_some k v d = (if v = JNull then d else dset k v d)"

definition first_truthy :: "json \<Rightarrow> json \<Rightarrow> json" where
  "first_truthy a b = (if truthy a then a else b)"

definition delivered_position :: "json \<Rightarrow> dict" where
  "delivered_position last_ev =
     (let base = [(u ''last_success_event'', last_ev)]
      in case last_ev of
            JDict e \<Rightarrow>
              (let g = (\<lambda>k. dget_none e (u k));
                   rp = first_truthy (g ''remote_path'') (g ''gdc_remote_path'');
                   rmt = first_truthy (g ''remote_mtime'') (g ''gdc_remote_mtime'');
                   rsz = (if g ''remote_size'' = JNull then g ''gdc_remote_size'' else g ''remote_size'')
               in put_some (u ''last_processed_hash'') (g ''gdc_remote_hash'')
                  (put_some (u ''last_processed_offset'') (g ''gdc_remote_offset'')
                  (put_some (u ''last_processed_size'') rsz
                  (put_some (u ''last_processed_mtime'') rmt
                  (put_some (u ''last_processed_last_modified'') rmt
                  (put_some (u ''last_processed_file'') rp
                  (put_some (u ''last_processed_key'') rp
                  (put_some (u ''last_processed_db_order'') (g ''gdc_db_order_value'')
                  (put_some (u ''last_processed_db_watermark'') (g ''gdc_db_watermark'')
                  (put_some (u ''last_processed_etag'') (g ''s3_etag'')
                  (put_some (u ''last_processed_last_modified'') (g ''s3_last_modified'')
                  (put_some (u ''last_processed_key'') (g ''s3_key'') base))))))))))))
          | _ \<Rightarrow> base)"

definition checkpoint_value :: "jsonpath_values \<Rightarrow> dict \<Rightarrow> json \<Rightarrow> dict" where
  "checkpoint_value fv cfg last_ev = build_runtime_checkpoint_template_context fv (delivered_position last_ev) cfg"

section \<open>Storage\<close>

type_synonym checkpoint_table = "(int \<times> ustr \<times> json) list"

definition upsert_checkpoint :: "int \<Rightarrow> ustr \<Rightarrow> json \<Rightarrow> checkpoint_table \<Rightarrow> checkpoint_table" where
  "upsert_checkpoint stream_id ctype v db = dset stream_id (ctype, v) db"

definition get_checkpoint :: "checkpoint_table \<Rightarrow> int \<Rightarrow> json" where
  "get_checkpoint db stream_id = (case dget db stream_id of
     Some (_, JDict d) \<Rightarrow> JDict d | _ \<Rightarrow> JNull)"

text \<open>
  \<open>_resolve_checkpoint\<close>: the checkpoint the caller loaded, else the row in the database; \<open>read\<close> is that
  row or the exception of the read, after which the in-memory store is asked.
\<close>

definition unwrap_value :: "ustr \<Rightarrow> json \<Rightarrow> ustr \<times> json" where
  "unwrap_value ctype c = (case c of
     JDict d \<Rightarrow> if dget d (u ''value'') \<noteq> None
       then (py_str (dget_default d (u ''type'') (JStr (u ''CUSTOM_FIELD''))), dget_none d (u ''value''))
       else (ctype, c)
   | _ \<Rightarrow> (ctype, c))"

definition resolve_checkpoint :: "json \<Rightarrow> json result \<Rightarrow> json \<Rightarrow> ustr \<times> json" where
  "resolve_checkpoint runtime_checkpoint read memory =
     (let (ctype, c) = unwrap_value (u ''CUSTOM_FIELD'') runtime_checkpoint
      in if c \<noteq> JNull then (ctype, c)
         else case read of Inr db \<Rightarrow> unwrap_value ctype db | Inl _ \<Rightarrow> (ctype, memory))"

text \<open>What \<open>load_stream_context\<close> hands to a run.\<close>

definition loaded_checkpoint :: "checkpoint_table \<Rightarrow> int \<Rightarrow> json" where
  "loaded_checkpoint db stream_id = (case dget db stream_id of
     None \<Rightarrow> JNull | Some (ctype, v) \<Rightarrow> JDict [(u ''type'', JStr ctype), (u ''value'', v)])"

section \<open>Reading back\<close>

lemma put_some_get: "dget (put_some k v d) j = (if j = k \<and> v \<noteq> JNull then Some v else dget d j)"
  by (simp add: put_some_def dict_simps)

lemma setdefault_get:
  "dget (foldl (setdefault v) d ks) k = (if dget d k = None \<and> k \<in> set ks then Some v else dget d k)"
  by (induction ks arbitrary: d) (auto simp: setdefault_def dict_simps)

text \<open>The cursor the value carries, if the configuration finds one in the event.\<close>

definition cursor_of :: "jsonpath_values \<Rightarrow> dict \<Rightarrow> json \<Rightarrow> json" where
  "cursor_of fv cfg ev = (if is_dict ev then resolve_checkpoint_value_from_event fv ev cfg else JNull)"

lemma position_keys:
  assumes "k \<notin> u ` {''last_processed_hash'', ''last_processed_offset'', ''last_processed_size'', ''last_processed_mtime'',
    ''last_processed_last_modified'', ''last_processed_file'', ''last_processed_key'', ''last_processed_db_order'',
    ''last_processed_db_watermark'', ''last_processed_etag''}"
  shows "dget (delivered_position (JDict e)) k = (if k = u ''last_success_event'' then Some (JDict e) else None)"
  using assms by (simp add: delivered_position_def put_some_get Let_def)

lemma position_event: "dget (delivered_position (JDict e)) (u ''last_success_event'') = Some (JDict e)"
  by (subst position_keys) auto

lemma position_alias: "k \<in> set CURSOR_ALIASES \<Longrightarrow> dget (delivered_position (JDict e)) k = None"
  by (subst position_keys) (auto simp: CURSOR_ALIASES_def)

lemma value_get:
  "dget (checkpoint_value fv cfg (JDict e)) k =
     (if cursor_of fv cfg (JDict e) \<noteq> JNull \<and> k \<in> set CURSOR_ALIASES then Some (cursor_of fv cfg (JDict e))
      else dget (delivered_position (JDict e)) k)"
  using position_event position_alias
  by (auto simp: checkpoint_value_def build_runtime_checkpoint_template_context_def setdefault_get
      cursor_of_def is_dict_def dget_none_def Let_def)

lemma value_lookup: "dget (checkpoint_value fv cfg (JDict e)) (u ''last_success_event'') = Some (JDict e)"
  by (simp add: value_get position_event CURSOR_ALIASES_def)

text \<open>
  C26. A checkpoint survives the round trip.  The value written for the last delivered event is read back
  by the next run that loads its stream: with its type, unchanged, and with the event itself in it; when the
  configured cursor path finds a scalar in the event, every cursor alias of the request templates carries it;
  the checkpoints of other streams stay as they were.
\<close>

theorem checkpoint_roundtrip:
  fixes e cfg :: dict and fv :: jsonpath_values
  defines "v \<equiv> JDict (checkpoint_value fv cfg (JDict e))"
  shows "resolve_checkpoint (loaded_checkpoint (upsert_checkpoint sid ctype v db) sid) read memory = (ctype, v) \<and>
    (\<forall>other. other \<noteq> sid \<longrightarrow> dget (upsert_checkpoint sid ctype v db) other = dget db other) \<and>
    dget (checkpoint_value fv cfg (JDict e)) (u ''last_success_event'') = Some (JDict e) \<and>
    (cursor_of fv cfg (JDict e) \<noteq> JNull \<longrightarrow>
       (\<forall>k \<in> set CURSOR_ALIASES. dget (checkpoint_value fv cfg (JDict e)) k = Some (cursor_of fv cfg (JDict e))))"
  using value_lookup value_get
  by (auto simp: v_def resolve_checkpoint_def loaded_checkpoint_def upsert_checkpoint_def unwrap_value_def dict_simps
      dget_default_def dget_none_def py_str_def)

text \<open>
  Without a loaded checkpoint the stored one collapses to its cursor.  A run that was not given a checkpoint
  reads the row from the database; if a cursor was found in the delivered event, the alias \<open>value\<close> is taken for
  the wrapper the loader adds, and the run gets the bare cursor (and a default type) in place of the
  checkpoint, which the source adapter is then not given because it is no object.
\<close>

lemma checkpoint_read_collapses:
  assumes "cursor_of fv cfg (JDict e) \<noteq> JNull"
  shows "resolve_checkpoint JNull
      (Inr (get_checkpoint (upsert_checkpoint sid ctype (JDict (checkpoint_value fv cfg (JDict e))) db) sid)) memory =
    (py_str (dget_default (checkpoint_value fv cfg (JDict e)) (u ''type'') (JStr (u ''CUSTOM_FIELD''))),
     cursor_of fv cfg (JDict e))"
  using assms value_get [of fv cfg e "u ''value''"]
  by (simp add: resolve_checkpoint_def get_checkpoint_def upsert_checkpoint_def unwrap_value_def dict_simps
      CURSOR_ALIASES_def dget_none_def)

definition cursor_config :: dict where
  "cursor_config = [(u ''checkpoint'', JDict [(u ''cursor_path'', JStr (u ''$.id''))])]"

lemma push_prefix: "\<exists>ys. push_candidate out c = out @ ys"
  by (auto simp: push_candidate_def Let_def)

lemma foldl_prefix: "(\<And>out x. \<exists>ys. f out x = out @ ys) \<Longrightarrow> \<exists>ys. foldl f out xs = out @ ys"
proof (induction xs arbitrary: out)
  case (Cons x xs)
  then show ?case by (metis append.assoc foldl_Cons)
qed simp

lemma variant_prefix: "\<exists>ys. variant_candidates arr out v = out @ ys"
proof -
  let ?f = "\<lambda>out prefix. if startswith v (prefix @ u ''.'')
      then push_candidate out (u ''$.'' @ drop (length prefix + 1) v) else out"
  have f: "\<exists>ys. ?f out x = out @ ys" for out x using push_prefix [of out] by auto
  obtain zs where z: "foldl ?f out [arr, arr @ u ''[*]'', arr @ u ''[0]''] = out @ zs"
    using foldl_prefix [of ?f out, OF f] by blast
  have "\<exists>ys. push_candidate (out @ zs) c = out @ ys" for c using push_prefix [of "out @ zs" c] by auto
  then show ?thesis unfolding variant_candidates_def Let_def z by (simp split: option.split)
qed

text \<open>The configured path itself is tried first.\<close>

lemma candidates_first:
  assumes "normalize_path p = c" "c \<noteq> []" "normalize_path c = c"
  shows "\<exists>cs. checkpoint_path_candidates p arr = c # cs"
proof -
  have "push_candidate [] c = [c]" using assms by (simp add: push_candidate_def)
  with assms push_prefix [of "[c]"] foldl_prefix [of "variant_candidates (normalize_path arr)", OF variant_prefix] show ?thesis
    unfolding checkpoint_path_candidates_def Let_def by (metis append_Cons append_Nil)
qed

lemma demo_cursor: "cursor_of (\<lambda>v p. Inr (if p = u ''$.id'' then [JInt 4] else [])) cursor_config (JDict []) = JInt 4"
proof -
  have s: "strip (u ''$.id'') = u ''$.id''" "startswith (u ''$.id'') (u ''$'')"
    by (simp_all add: strip_def is_space_def startswith_def u_def)
  have "cursor_paths [(u ''cursor_path'', JStr (u ''$.id''))] = [u ''$.id'']"
    by (simp add: cursor_paths_def dget_none_def str_or_empty_def truthy_def py_str_def s)
       (simp add: strip_def)
  moreover have "normalize_path (u ''$.id'') = u ''$.id''" by (simp add: normalize_path_def s)
  with candidates_first [of "u ''$.id''" "u ''$.id''"]
  have "\<exists>cs. checkpoint_path_candidates (u ''$.id'') arr = u ''$.id'' # cs" for arr by simp
  then obtain cs where "checkpoint_path_candidates (u ''$.id'') (u ''$'') = u ''$.id'' # cs" by blast
  ultimately show ?thesis
    by (simp add: cursor_of_def is_dict_def resolve_checkpoint_value_from_event_def cursor_config_def dget_none_def truthy_def)
qed

theorem checkpoint_roundtrip_witness:
  "resolve_checkpoint (loaded_checkpoint (upsert_checkpoint 3 (u ''CUSTOM_FIELD'')
      (JDict (checkpoint_value (\<lambda>v p. Inr (if p = u ''$.id'' then [JInt 4] else [])) cursor_config (JDict []))) []) 3) (Inr JNull) JNull =
     (u ''CUSTOM_FIELD'', JDict (checkpoint_value (\<lambda>v p. Inr (if p = u ''$.id'' then [JInt 4] else [])) cursor_config (JDict []))) \<and>
   dget (checkpoint_value (\<lambda>v p. Inr (if p = u ''$.id'' then [JInt 4] else [])) cursor_config (JDict [])) (u ''cursor'') = Some (JInt 4)"
  using checkpoint_roundtrip [of 3 "u ''CUSTOM_FIELD''" "\<lambda>v p. Inr (if p = u ''$.id'' then [JInt 4] else [])" cursor_config "[]" "[]" "Inr JNull" JNull]
    demo_cursor
  by (simp add: CURSOR_ALIASES_def)

lemma checkpoint_read_collapses_witness:
  "snd (resolve_checkpoint JNull (Inr (get_checkpoint (upsert_checkpoint 3 (u ''CUSTOM_FIELD'')
      (JDict (checkpoint_value (\<lambda>v p. Inr (if p = u ''$.id'' then [JInt 4] else [])) cursor_config (JDict []))) []) 3)) JNull) = JInt 4"
  using checkpoint_read_collapses [of "\<lambda>v p. Inr (if p = u ''$.id'' then [JInt 4] else [])" cursor_config "[]"] demo_cursor
  by simp

end
