(* ===== verification/Stream_Run.thy ===== *)
theory Stream_Run
  imports Route_Pipeline Checkpointing
begin

text \<open>
  One run of a stream: \<open>StreamRunner.run\<close> of \<^verbatim>\<open>app/runners/stream_runner.py\<close> from the lock to the commit,
  with the construction of the route contexts (\<^verbatim>\<open>app/runners/route_context_builder.py\<close>), the evaluation of
  dynamic routes (\<^verbatim>\<open>app/dynamic_routing/dynamic_routing_engine.py\<close>), the fan-out outcome, the checkpoint
  update and the final transaction.  The source adapter, sensitive detection, the schema drift
  lookup and the database sessions are parameters (\<open>run_env\<close>).  Observability events, timings, run ids
  and messages are not modelled; a log row keeps its stage and its route.  The rows a stage writes about single
  fields, rules or duplicates (mapping and enrichment warnings, protection, classification and policy reports, debug
  rows of the dedup queue) are left out.
\<close>

section \<open>Dynamic routes\<close>

record dynamic_rule =
  dy_id :: int
  dy_stream :: int
  dy_enabled :: bool
  dy_condition :: json
  dy_dest :: int

fun match_dynamic_routes ::
  "'w outside \<Rightarrow> ustr list \<Rightarrow> level list \<Rightarrow> int list \<Rightarrow> dynamic_rule list \<Rightarrow> 'w \<Rightarrow> dynamic_match list result" where
  "match_dynamic_routes ow classes levels seen [] w = Inr []"
| "match_dynamic_routes ow classes levels seen (r # rs) w =
     (if \<not> condition_matches (dy_condition r) classes levels then match_dynamic_routes ow classes levels seen rs w
      else case ow_destination ow (dy_dest r) w of
        None \<Rightarrow> match_dynamic_routes ow classes levels seen rs w
      | Some d \<Rightarrow>
          if dy_dest r \<in> set seen then match_dynamic_routes ow classes levels seen rs w
          else
            let ty = upper (strip (dn_type d))
            in rbind (ow_resolve_config ow ty (dn_config d) w) (\<lambda>cfg.
               rbind (match_dynamic_routes ow classes levels (dy_dest r # seen) rs w) (\<lambda>ms.
                 Inr (\<lparr>dm_route = dy_id r, dm_dest = dy_dest r, dm_enabled = dn_enabled d, dm_rate = dn_rate d,
                       dm_type = ty, dm_config = cfg, dm_name = dn_name d\<rparr> # ms))))"

text \<open>\<open>evaluate_batch\<close>; \<open>rescan\<close> is the detector, asked when the run has no findings of its own.\<close>

definition evaluate_batch ::
  "'w outside \<Rightarrow> (json list \<Rightarrow> json list) \<Rightarrow> dynamic_rule list result \<Rightarrow> int \<Rightarrow> json list \<Rightarrow> json list option \<Rightarrow> 'w
     \<Rightarrow> dynamic_match list result" where
  "evaluate_batch ow rescan rows stream_id events findings w =
     (if events = [] then Inr []
      else rbind rows (\<lambda>rules.
        let rs = sort_key dy_id (filter (\<lambda>r. dy_stream r = stream_id \<and> dy_enabled r) rules)
        in if rs = [] then Inr []
           else match_dynamic_routes ow (finding_classes (case findings of Some f \<Rightarrow> f | None \<Rightarrow> rescan events))
                  (classification_levels_from_events events) [] rs w))"

section \<open>The stream and its surroundings\<close>

record route_rows =
  rg_mapping :: "dict option"
  rg_enrichment :: "dict option"
  rg_protection :: "(prot_rule \<times> int option) list"
  rg_classification :: "class_rule list"
  rg_policy :: "policy_rule list"

record stream_spec =
  ss_id :: int
  ss_name :: ustr
  ss_rate :: dict
  ss_config :: dict
  ss_source :: dict
  ss_source_type :: ustr
  ss_array_path :: "ustr option"
  ss_root_path :: "ustr option"
  ss_mappings :: dict
  ss_enrichment :: dict
  ss_override :: ustr
  ss_mapping_row :: "dict option"
  ss_enrichment_row :: "dict option"
  ss_protection :: "(prot_rule \<times> int option) list"
  ss_classification :: "class_rule list"
  ss_policy :: "policy_rule list"
  ss_overrides :: "dict list"
  ss_governance :: "dict list"
  ss_routes :: "(route \<times> route_rows) list"

definition delivery_stream :: "stream_spec \<Rightarrow> stream" where
  "delivery_stream sp = \<lparr>sm_id = ss_id sp, sm_name = ss_name sp, sm_routes = map fst (ss_routes sp), sm_rate = ss_rate sp\<rparr>"

text \<open>
  \<open>nv_detect\<close> is none when detection is disabled or fails (the exception is logged and swallowed), as is
  \<open>nv_drift\<close>; \<open>nv_seeds\<close> reads the dedup registry from the committed log rows; \<open>nv_lock\<close> is the exception that making
  the lock directory, opening, locking or writing the lock file raises; \<open>nv_entry\<close> and \<open>nv_flush\<close> are the exceptions of the
  first and the last transaction, \<open>nv_failure_log\<close> says whether the failure row was written.
\<close>

record 'w run_env =
  nv_pipe :: pipeline_env
  nv_outside :: "'w outside"
  nv_find :: jsonpath_values
  nv_key_path :: "json \<Rightarrow> ustr \<Rightarrow> json result"
  nv_fetch :: "ustr \<Rightarrow> dict \<Rightarrow> dict \<Rightarrow> json \<Rightarrow> 'w \<Rightarrow> (stage_exc + json) \<times> 'w"
  nv_seeds :: "log_entry list \<Rightarrow> json \<Rightarrow> dedup_config \<Rightarrow> ustr list"
  nv_detect :: "json list \<Rightarrow> json list option"
  nv_rescan :: "json list \<Rightarrow> json list"
  nv_drift :: "json list \<Rightarrow> json list option \<Rightarrow> drift_result option"
  nv_dynamic :: "'w \<Rightarrow> dynamic_rule list result"
  nv_read_fails :: "pyexc option"
  nv_memory :: "int \<Rightarrow> json"
  nv_lock :: "pyexc option"
  nv_entry :: "pyexc option"
  nv_flush :: "pyexc option"
  nv_failure_log :: bool

text \<open>The rest of the system: the database, the limiters, the locks of this process and the lock files.\<close>

record 'w system =
  sy_world :: 'w
  sy_calls :: "(send_call \<times> send_exc option) list"
  sy_limiter :: destination_limiter
  sy_source_limiter :: source_limiter
  sy_vault :: vault
  sy_quarantine :: "quarantine_row list"
  sy_checkpoints :: checkpoint_table
  sy_status :: "(int \<times> ustr) list"
  sy_disabled :: "int list"
  sy_log :: "log_entry list"
  sy_threads :: "int list"
  sy_files :: "int list"

text \<open>What a run works on before its transaction.\<close>

record 'w live =
  lv_runner :: "'w runner"
  lv_source :: source_limiter
  lv_vault :: vault
  lv_quarantine :: "quarantine_row list"

definition start_live :: "'w system \<Rightarrow> 'w live" where
  "start_live sy = \<lparr>lv_runner = \<lparr>rn_world = sy_world sy, rn_limiter = sy_limiter sy, rn_dedup = None, rn_status = [],
     rn_disabled = [], rn_log = [], rn_calls = sy_calls sy\<rparr>, lv_source = sy_source_limiter sy,
     lv_vault = sy_vault sy, lv_quarantine = sy_quarantine sy\<rparr>"

text \<open>The log row that is written with a quarantine record, in the same session.\<close>

definition quarantine_log :: "quarantine_row \<Rightarrow> log_entry" where
  "quarantine_log row = Log (u ''quarantine_event_created'') None"

text \<open>The effects that do not wait for the transaction.\<close>

definition settle :: "'w live \<Rightarrow> 'w system \<Rightarrow> 'w system" where
  "settle lv sy = sy\<lparr>sy_log := sy_log sy @ map quarantine_log (drop (length (sy_quarantine sy)) (lv_quarantine lv)), sy_world := rn_world (lv_runner lv), sy_calls := rn_calls (lv_runner lv),
     sy_limiter := rn_limiter (lv_runner lv), sy_source_limiter := lv_source lv, sy_vault := lv_vault lv,
     sy_quarantine := lv_quarantine lv\<rparr>"

definition log_stage :: "string \<Rightarrow> 'w live \<Rightarrow> 'w live" where
  "log_stage stage lv = lv\<lparr>lv_runner := add_log (Log (u stage) None) (lv_runner lv)\<rparr>"

section \<open>Collecting the events\<close>

definition fetch_arguments :: "stream_spec \<Rightarrow> run_opts \<Rightarrow> json \<Rightarrow> dict \<times> json" where
  "fetch_arguments sp opts checkpoint =
     (let fc = (if is_dict checkpoint then checkpoint else JNull)
      in case (ro_replay_start opts, ro_replay_end opts) of
           (Some a, Some b) \<Rightarrow>
             (dset (u ''gdc_replay_end_iso'') (JStr b) (dset (u ''gdc_replay_start_iso'') (JStr a) (ss_config sp)),
              JDict (dset (u ''gdc_backfill_end_iso'') (JStr b) (dset (u ''gdc_backfill_start_iso'') (JStr a)
                (case fc of JDict d \<Rightarrow> d | _ \<Rightarrow> []))))
         | _ \<Rightarrow> (ss_config sp, fc))"

definition collect_source_events ::
  "'w run_env \<Rightarrow> stream_spec \<Rightarrow> run_opts \<Rightarrow> json \<Rightarrow> log_entry list \<Rightarrow> 'w live \<Rightarrow> (stage_exc + json list) \<times> 'w live" where
  "collect_source_events env sp opts checkpoint rows lv =
     (let (cfg, fc) = fetch_arguments sp opts checkpoint
      in case nv_fetch env (upper (strip (ss_source_type sp))) (ss_source sp) cfg fc (rn_world (lv_runner lv)) of
           (Inl x, w) \<Rightarrow> (Inl x, lv\<lparr>lv_runner := (lv_runner lv)\<lparr>rn_world := w\<rparr>\<rparr>)
         | (Inr raw, w) \<Rightarrow>
             (let lv1 = log_stage ''source_fetch'' (lv\<lparr>lv_runner := (lv_runner lv)\<lparr>rn_world := w\<rparr>\<rparr>)
              in case extract_with_fallback (nv_find env) raw (ss_array_path sp) (ss_root_path sp) of
                   Inl x \<Rightarrow> (Inl x, lv1)
                 | Inr extracted \<Rightarrow>
                     (let lv2 = log_stage ''parse''
                            (if root_fallback (nv_find env) raw (ss_array_path sp) (ss_root_path sp)
                             then log_stage ''parse'' lv1 else lv1);
                          (events, summary) = apply_stream_dedup (nv_key_path env)
                             (nv_seeds env rows (if is_dict checkpoint then checkpoint else JNull)) cfg (ro_apply_dedup opts) extracted;
                          lv3 = lv2\<lparr>lv_runner := (lv_runner lv2)\<lparr>rn_dedup := summary\<rparr>\<rparr>
                      in (Inr events, if summary = None then lv3 else log_stage ''dedup_queue_insert'' lv3))))"

section \<open>The shared phase\<close>

definition project_stream_transform_for_shared_phase :: "pipeline_env \<Rightarrow> stream_spec \<Rightarrow> json list \<Rightarrow> json list" where
  "project_stream_transform_for_shared_phase pv sp events =
     (if events = [] then []
      else if ss_mappings sp = [] \<and> ss_enrichment sp = [] then events
      else case pv_map pv (ss_mappings sp) events of
        Inl _ \<Rightarrow> events
      | Inr rs \<Rightarrow>
          (let mapped = map (\<lambda>r. case r of Inr (JDict d) \<Rightarrow> JDict d | _ \<Rightarrow> JDict []) rs
           in if ss_enrichment sp = [] then mapped
              else case pv_enrich pv (ss_enrichment sp) (ss_override sp) mapped of Inl _ \<Rightarrow> events | Inr out \<Rightarrow> out))"

definition build_shared_batch_context :: "stream_spec \<Rightarrow> json list \<Rightarrow> json list option \<Rightarrow> drift_result option \<Rightarrow> batch_ctx" where
  "build_shared_batch_context sp events findings drift =
     \<lparr>bx_events = events, bx_findings = (case findings of Some f \<Rightarrow> f | None \<Rightarrow> []), bx_drift = drift,
      bx_protection_rules = ss_protection sp, bx_policy_rules = ss_policy sp, bx_overrides = ss_overrides sp,
      bx_governance = ss_governance sp, bx_transforms = [], bx_transform_count = 0,
      bx_protect = \<lparr>sb_ephemeral = (case drift of None \<Rightarrow> [] | Some d \<Rightarrow> dr_rules d), sb_cache = [], sb_executions = 0\<rparr>\<rparr>"

definition build_route_context :: "stream_spec \<Rightarrow> route \<times> route_rows \<Rightarrow> route_ctx result" where
  "build_route_context sp rr = (case rr of (rt, g) \<Rightarrow>
     rbind (resolve_route_transform_config (rg_mapping g) (rg_enrichment g) (ss_mapping_row sp) (ss_enrichment_row sp)
              (ss_mappings sp) (ss_enrichment sp) (ss_override sp)) (\<lambda>tc.
     rbind (resolve_route_protection_config (rt_id rt) (ss_id sp) (rg_protection g) (ss_protection sp) (ss_overrides sp) []) (\<lambda>_.
     rbind (resolve_route_classification_config (rt_id rt) (rg_classification g) (ss_classification sp) (ss_overrides sp)) (\<lambda>cc.
     rbind (resolve_route_policy_config (rt_id rt) (rg_policy g) (ss_policy sp) (ss_overrides sp) [] None) (\<lambda>_.
       Inr \<lparr>rx_route = rt_id rt, rx_stream = ss_id sp, rx_dest = (case dn_id (rt_dest rt) of Some i \<Rightarrow> i | None \<Rightarrow> 0),
            rx_enabled = rt_enabled rt, rx_transform = Some tc, rx_class = cc,
            rx_protection_rules = rg_protection g, rx_policy_rules = rg_policy g\<rparr>)))))"

definition build_route_runtime_contexts :: "stream_spec \<Rightarrow> (route_ctx list \<times> metrics) result" where
  "build_route_runtime_contexts sp =
     rbind (rmap (build_route_context sp) (ss_routes sp)) (\<lambda>rxs.
       Inr (rxs, no_metrics (length rxs)
              (length (filter (\<lambda>rx. case rx_transform rx of Some tc \<Rightarrow> fallback_used tc | None \<Rightarrow> False) rxs))))"

definition execute_route_pipeline ::
  "'w run_env \<Rightarrow> stream_spec \<Rightarrow> run_opts \<Rightarrow> json list \<Rightarrow> json list option \<Rightarrow> 'w live
     \<Rightarrow> (stage_exc + pipeline_result) \<times> 'w live" where
  "execute_route_pipeline env sp opts events findings lv =
     (let drift = (let evs = project_stream_transform_for_shared_phase (nv_pipe env) sp events
                   in if evs = [] then None else nv_drift env evs findings);
          b = build_shared_batch_context sp events findings drift
      in case build_route_runtime_contexts sp of
           Inl e \<Rightarrow> (Inl (StageFailure e), lv)
         | Inr (rxs, base) \<Rightarrow>
             (case process_routes (nv_pipe env)
                     (Some (\<lambda>rx. deliver_single_route (nv_outside env) opts (delivery_stream sp) (rx_route rx))) base rxs
                     \<lparr>pp_batch = b, pp_vault = lv_vault lv, pp_quarantine = lv_quarantine lv, pp_runner = lv_runner lv\<rparr> of
                (r, s) \<Rightarrow>
                  (let lv1 = lv\<lparr>lv_runner := pp_runner s, lv_vault := pp_vault s, lv_quarantine := pp_quarantine s\<rparr>
                   in case r of Inl x \<Rightarrow> (Inl x, lv1) | Inr t \<Rightarrow> (Inr t, log_stage ''route_processing_loop'' lv1))))"

section \<open>The fan-out\<close>

record fan_out =
  fn_successful :: "json list"
  fn_absorbed :: "int list"
  fn_withheld :: "int list"
  fn_dynamic :: nat
  fn_fo_attempts :: nat
  fn_fo_successes :: nat
  fn_fo_failures :: nat

record tally =
  ty_absorbed :: "int list"
  ty_withheld :: "int list"
  ty_all :: bool
  ty_any :: bool
  ty_saw :: bool
  ty_attempts :: nat
  ty_successes :: nat
  ty_failures :: nat

definition no_tally :: tally where
  "no_tally = \<lparr>ty_absorbed = [], ty_withheld = [], ty_all = True, ty_any = False, ty_saw = False,
     ty_attempts = 0, ty_successes = 0, ty_failures = 0\<rparr>"

definition tally_failover :: "delivery_result \<Rightarrow> tally \<Rightarrow> tally" where
  "tally_failover d t =
     (if \<not> dv_fo_attempted d then t
      else if dv_fo_succeeded d then t\<lparr>ty_attempts := Suc (ty_attempts t), ty_successes := Suc (ty_successes t)\<rparr>
      else t\<lparr>ty_attempts := Suc (ty_attempts t), ty_failures := Suc (ty_failures t)\<rparr>)"

definition tally_route :: "stage_result \<Rightarrow> tally \<Rightarrow> tally" where
  "tally_route r t0 =
     (let d = sr_delivery r; t = tally_failover d t0
      in if \<not> dv_allowed d then t\<lparr>ty_withheld := ty_withheld t @ [sr_route r]\<rparr>
         else if dv_skip d \<in> {Some No_Events, Some Rate_Limited, Some Destination_Disabled} then
           (if dv_skip d = Some Rate_Limited then t\<lparr>ty_all := False\<rparr> else t)
         else
           let t = t\<lparr>ty_saw := True\<rparr>
           in if dv_success d = Some True then t\<lparr>ty_any := True\<rparr>
              else if dv_success d = Some False \<and> dv_absorbed d then t\<lparr>ty_absorbed := ty_absorbed t @ [sr_route r]\<rparr>
              else t\<lparr>ty_all := False\<rparr>)"

definition route_delivery_fan_out_outcome :: "stage_result list \<Rightarrow> json list \<Rightarrow> fan_out" where
  "route_delivery_fan_out_outcome results reference =
     (let t = fold tally_route results no_tally;
          base = \<lparr>fn_successful = [], fn_absorbed = ty_absorbed t, fn_withheld = ty_withheld t, fn_dynamic = 0,
            fn_fo_attempts = ty_attempts t, fn_fo_successes = ty_successes t, fn_fo_failures = ty_failures t\<rparr>
      in if \<not> ty_saw t then base\<lparr>fn_absorbed := []\<rparr>
         else if ty_all t \<and> ty_any t then base\<lparr>fn_successful := copy_events reference\<rparr>
         else base)"

text \<open>\<open>_fan_out\<close> after the routes have delivered: the dynamic routes, which never change the outcome.\<close>

definition fan_out_dynamic ::
  "'w run_env \<Rightarrow> stream_spec \<Rightarrow> run_opts \<Rightarrow> json list \<Rightarrow> dynamic_match list option \<Rightarrow> fan_out \<Rightarrow> 'w live
     \<Rightarrow> (stage_exc + fan_out) \<times> 'w live" where
  "fan_out_dynamic env sp opts events matches outcome lv =
     (let bindings = bindings_or_none (nv_outside env) (ss_id sp) (rn_world (lv_runner lv));
          base_ids = List.map_filter (\<lambda>rr. dn_id (rt_dest (fst rr))) (ss_routes sp) @ map (fb_secondary \<circ> snd) bindings;
          finish = (\<lambda>n lv1. (Inr (outcome\<lparr>fn_dynamic := n\<rparr>),
             if bindings \<noteq> [] then log_stage ''failover_routing_complete'' lv1 else lv1))
      in case matches of
           None \<Rightarrow> finish 0 lv
         | Some ms \<Rightarrow> (case deliver_dynamic_routes (nv_outside env) opts (delivery_stream sp) events ms base_ids (lv_runner lv) of
             (Inl e, rn1) \<Rightarrow> (Inl (StageFailure e), lv\<lparr>lv_runner := rn1\<rparr>)
           | (Inr n, rn1) \<Rightarrow> finish n (log_stage ''dynamic_routing_complete'' (lv\<lparr>lv_runner := rn1\<rparr>))))"

definition evaluate_dynamic_routes ::
  "'w run_env \<Rightarrow> stream_spec \<Rightarrow> json list \<Rightarrow> json list option \<Rightarrow> 'w \<Rightarrow> dynamic_match list option" where
  "evaluate_dynamic_routes env sp events findings w =
     (if events = [] then None
      else case evaluate_batch (nv_outside env) (nv_rescan env) (nv_dynamic env w) (ss_id sp) events findings w of
        Inl _ \<Rightarrow> None | Inr ms \<Rightarrow> Some ms)"

section \<open>The run\<close>

datatype outcome = Completed | Skipped_Lock | No_Events_Extracted | Dry_Run

record summary =
  su_outcome :: outcome
  su_extracted :: "nat option"
  su_delivered :: "nat option"
  su_skipped :: "nat option"
  su_checkpoint_updated :: bool
  su_committed :: bool
  su_partial :: bool
  su_withheld :: "int list"
  su_metrics :: "metrics option"
  su_dedup :: "dedup_summary option"

definition empty_run :: summary where
  "empty_run = \<lparr>su_outcome = Completed, su_extracted = None, su_delivered = None, su_skipped = None,
     su_checkpoint_updated = False, su_committed = False, su_partial = False, su_withheld = [], su_metrics = None,
     su_dedup = None\<rparr>"

definition finalize_dedup :: "bool \<Rightarrow> json list \<Rightarrow> 'w live \<Rightarrow> 'w live" where
  "finalize_dedup dry events lv = lv\<lparr>lv_runner := (lv_runner lv)\<lparr>rn_dedup :=
     map_option (finalize_dedup_registry_summary dry events) (rn_dedup (lv_runner lv))\<rparr>\<rparr>"

text \<open>A run that ends without delivery: no events, or a dry run.\<close>

definition finish_undelivered :: "summary \<Rightarrow> bool \<Rightarrow> json list \<Rightarrow> 'w live \<Rightarrow> summary \<times> 'w live" where
  "finish_undelivered su dry events lv =
     (let lv1 = finalize_dedup dry events lv
      in (su\<lparr>su_delivered := Some 0, su_dedup := rn_dedup (lv_runner lv1)\<rparr>, log_stage ''run_complete'' lv1))"

text \<open>After the pipeline: the fan-out, the checkpoint and the summary.\<close>

definition deliver_and_checkpoint ::
  "'w run_env \<Rightarrow> stream_spec \<Rightarrow> run_opts \<Rightarrow> ustr \<Rightarrow> json list \<Rightarrow> json list option \<Rightarrow> pipeline_result \<Rightarrow> 'w live
     \<Rightarrow> (stage_exc + summary \<times> (ustr \<times> dict) option) \<times> 'w live" where
  "deliver_and_checkpoint env sp opts ctype events findings t lv =
     (let checkpoint_events = (if po_checkpoint_events t \<noteq> [] then po_checkpoint_events t else events);
          delivery_events = (if po_delivery_events t \<noteq> [] then po_delivery_events t else events);
          matches = evaluate_dynamic_routes env sp delivery_events findings (rn_world (lv_runner lv))
      in case fan_out_dynamic env sp opts delivery_events matches
                (route_delivery_fan_out_outcome (po_results t) checkpoint_events) lv of
           (Inl x, lv1) \<Rightarrow> (Inl x, lv1)
         | (Inr fo, lv1) \<Rightarrow>
             (let delivered = length (fn_successful fo);
                  partial = (fn_successful fo \<noteq> [] \<and> (fn_absorbed fo \<noteq> [] \<or> fn_withheld fo \<noteq> [] \<or> delivered < length events));
                  update = (fn_successful fo \<noteq> [] \<and> ro_persist opts);
                  ck = (if update then Some (ctype, checkpoint_value (nv_find env) (ss_config sp) (last (fn_successful fo))) else None);
                  lv2 = finalize_dedup False (fn_successful fo) (if update then log_stage ''checkpoint_update'' lv1 else lv1)
              in (Inr (empty_run\<lparr>su_extracted := Some (length events), su_delivered := Some delivered,
                     su_checkpoint_updated := update, su_partial := partial, su_withheld := fn_withheld fo,
                     su_metrics := Some (po_metrics t), su_dedup := rn_dedup (lv_runner lv2)\<rparr>, ck),
                  log_stage ''run_complete'' lv2)))"

text \<open>The protected part of \<open>run\<close>: \<open>rows\<close> are the committed log rows.\<close>

definition run_body ::
  "'w run_env \<Rightarrow> stream_spec \<Rightarrow> run_opts \<Rightarrow> ustr \<Rightarrow> json \<Rightarrow> log_entry list \<Rightarrow> 'w live
     \<Rightarrow> (stage_exc + summary \<times> (ustr \<times> dict) option) \<times> 'w live" where
  "run_body env sp opts ctype checkpoint rows lv =
     (case source_allow (ss_id sp) (ss_rate sp) (ow_clock (nv_outside env) (rn_world (lv_runner lv))) (lv_source lv) of
        (Inl e, sl) \<Rightarrow> (Inl (StageFailure e), lv\<lparr>lv_source := sl\<rparr>)
      | (Inr False, sl) \<Rightarrow>
          (Inr (empty_run, None),
           log_stage ''run_complete'' (log_stage ''source_rate_limited''
             (lv\<lparr>lv_source := sl, lv_runner := set_stream_status (ss_id sp) (u ''RATE_LIMITED_SOURCE'') (lv_runner lv)\<rparr>)))
      | (Inr True, sl) \<Rightarrow>
          (case collect_source_events env sp opts checkpoint rows (lv\<lparr>lv_source := sl\<rparr>) of
             (Inl x, lv1) \<Rightarrow> (Inl x, lv1)
           | (Inr events, lv1) \<Rightarrow>
               if events = [] then
                 (case finish_undelivered (empty_run\<lparr>su_outcome := No_Events_Extracted, su_extracted := Some 0\<rparr>)
                         (ro_dry_run opts) [] lv1 of (su, lv2) \<Rightarrow> (Inr (su, None), lv2))
               else if ro_dry_run opts then
                 (case finish_undelivered (empty_run\<lparr>su_outcome := Dry_Run, su_extracted := Some (length events),
                         su_skipped := Some (length events)\<rparr>) True events lv1 of (su, lv2) \<Rightarrow> (Inr (su, None), lv2))
               else
                 let findings = nv_detect env events
                 in case execute_route_pipeline env sp opts events findings lv1 of
                      (Inl x, lv2) \<Rightarrow> (Inl x, lv2)
                    | (Inr t, lv2) \<Rightarrow> deliver_and_checkpoint env sp opts ctype events findings t lv2))"

text \<open>The final transaction: status, disabled routes, checkpoint and log rows together.\<close>

definition flush_pending_writes :: "int \<Rightarrow> 'w live \<Rightarrow> (ustr \<times> dict) option \<Rightarrow> 'w system \<Rightarrow> 'w system" where
  "flush_pending_writes stream_id lv ck sy =
     sy\<lparr>sy_status := foldl (\<lambda>d (i, s). dset i s d) (sy_status sy) (rn_status (lv_runner lv)),
        sy_disabled := foldl (\<lambda>d i. List.insert i d) (sy_disabled sy) (rn_disabled (lv_runner lv)),
        sy_checkpoints := (case ck of None \<Rightarrow> sy_checkpoints sy
          | Some (ctype, v) \<Rightarrow> upsert_checkpoint stream_id ctype (JDict v) (sy_checkpoints sy)),
        sy_log := sy_log sy @ rn_log (lv_runner lv)\<rparr>"

definition record_failure_row :: "'w run_env \<Rightarrow> 'w system \<Rightarrow> 'w system" where
  "record_failure_row env sy = (if nv_failure_log env then sy\<lparr>sy_log := sy_log sy @ [Log (u ''run_failed'') None]\<rparr> else sy)"

text \<open>
  Both locks of a run, taken without waiting: the lock of the thread, then the lock file.  A lock file that is held
  gives the lock of the thread back; an exception leaves it held.
\<close>

definition try_lock :: "pyexc option \<Rightarrow> int \<Rightarrow> 'w system \<Rightarrow> bool result \<times> 'w system" where
  "try_lock err stream_id sy =
     (if stream_id \<in> set (sy_threads sy) then (Inr False, sy)
      else case err of
        Some e \<Rightarrow> (Inl e, sy\<lparr>sy_threads := stream_id # sy_threads sy\<rparr>)
      | None \<Rightarrow>
          if stream_id \<in> set (sy_files sy) then (Inr False, sy)
          else (Inr True, sy\<lparr>sy_threads := stream_id # sy_threads sy, sy_files := stream_id # sy_files sy\<rparr>))"

definition release_lock :: "int \<Rightarrow> 'w system \<Rightarrow> 'w system" where
  "release_lock stream_id sy = sy\<lparr>sy_threads := remove1 stream_id (sy_threads sy), sy_files := remove1 stream_id (sy_files sy)\<rparr>"

text \<open>
  The run with its locks held.  When the caller passed a session, the rows of the vault and of the quarantine
  belong to its transaction: they are rolled back with a failing final transaction, and after any other
  exception they stay for the caller to end.
\<close>

definition run_locked ::
  "'w run_env \<Rightarrow> stream_spec \<Rightarrow> run_opts \<Rightarrow> json \<Rightarrow> 'w system \<Rightarrow> (stage_exc + summary) \<times> 'w system" where
  "run_locked env sp opts runtime_checkpoint sy =
     (let (ctype, checkpoint) = resolve_checkpoint runtime_checkpoint
            (case nv_read_fails env of Some e \<Rightarrow> Inl e | None \<Rightarrow> Inr (get_checkpoint (sy_checkpoints sy) (ss_id sp)))
            (nv_memory env (ss_id sp))
      in case nv_entry env of
           Some e \<Rightarrow> (Inl (StageFailure e), record_failure_row env sy)
         | None \<Rightarrow>
             (let sy1 = sy\<lparr>sy_log := sy_log sy @ [Log (u ''run_started'') None]\<rparr>
              in case run_body env sp opts ctype checkpoint (sy_log sy1) (start_live sy1) of
                   (Inl x, lv) \<Rightarrow> (Inl x, record_failure_row env (settle lv sy1))
                 | (Inr (su, ck), lv) \<Rightarrow>
                     (case nv_flush env of
                        Some e \<Rightarrow>
                          (Inl (StageFailure e),
                           settle (if pv_own (nv_pipe env)
                                   then lv\<lparr>lv_vault := sy_vault sy, lv_quarantine := sy_quarantine sy\<rparr> else lv) sy1)
                      | None \<Rightarrow> (Inr (su\<lparr>su_committed := True\<rparr>),
                                 flush_pending_writes (ss_id sp) lv ck (settle lv sy1)))))"

definition run ::
  "'w run_env \<Rightarrow> stream_spec \<Rightarrow> run_opts \<Rightarrow> json \<Rightarrow> 'w system \<Rightarrow> (stage_exc + summary) \<times> 'w system" where
  "run env sp opts runtime_checkpoint sy = (case try_lock (nv_lock env) (ss_id sp) sy of
     (Inl e, sy0) \<Rightarrow> (Inl (StageFailure e), sy0)
   | (Inr False, sy0) \<Rightarrow> (Inr (empty_run\<lparr>su_outcome := Skipped_Lock\<rparr>), sy0)
   | (Inr True, sy0) \<Rightarrow> (case run_locked env sp opts runtime_checkpoint sy0 of
       (r, sy1) \<Rightarrow> (r, release_lock (ss_id sp) sy1)))"

text \<open>How the caller sees an exception.\<close>

definition run_error_code :: "stage_exc \<Rightarrow> ustr" where
  "run_error_code x = (case x of
     SourceFetchError _ \<Rightarrow> u ''SOURCE_FETCH_FAILED''
   | ProtectionApplicationError _ _ \<Rightarrow> u ''PROTECTION_APPLICATION_FAILED''
   | QuarantinePersistenceError _ \<Rightarrow> u ''QUARANTINE_PERSISTENCE_FAILED''
   | _ \<Rightarrow> u ''RUNTIME_INTERNAL_ERROR'')"

section \<open>What the pipeline reports\<close>

context route_sender
begin

lemma route_accounts:
  assumes "process_route_pipeline env False (Some send) rx s = (Inr sr, s')"
  shows "\<exists>cs new. rn_calls (pp_runner s') = rn_calls (pp_runner s) @ cs \<and> honest sr cs \<and> sr_route sr = rx_route rx \<and>
    pp_quarantine s' = pp_quarantine s @ new \<and>
    (ps_recorded (sr_policy sr) \<longrightarrow> (\<exists>row \<in> set new. qr_route row = rx_route rx \<and> ps_event_id (sr_policy sr) = Some (qr_id row)))"
  using assms
proof (cases rule: route_cases)
  case (delivery transformed b1 prot cfg sb1 v1 classified cls evs pres c q1 d rn1)
  have d: "route_delivery_stage rx pres evs (if ps_allowed pres then Some (send rx evs) else None) (pp_runner s) = (d, rn1)"
    using delivery(5) by (simp split: if_splits)
  from stage_calls [OF this] obtain cs where cs: "rn_calls rn1 = rn_calls (pp_runner s) @ cs" by blast
  have dec: "\<not> ps_allowed pres \<longrightarrow> ps_decision pres \<in> {Block, Require_Review, Quarantine}"
    by (rule policy_stage_cases [OF delivery(4)]; cases "ps_decision pres"; simp add: delivery_allowed_for_decision_def)
  have q: "\<exists>new. q1 = pp_quarantine s @ new \<and> (ps_recorded pres \<longrightarrow>
      (\<exists>row \<in> set new. qr_route row = rx_route rx \<and> ps_event_id pres = Some (qr_id row)))"
    by (rule policy_stage_cases [OF delivery(4)]) auto
  from delivery(7) obtain dd where dd: "d = Inr dd" "sr_policy sr = pres" "sr_delivery sr = dd" "sr_route sr = rx_route rx"
    "sr_events sr = (if dv_success dd = Some True then evs else [])" by (cases d) auto
  from stage_honest [OF d [unfolded dd(1)] cs dd(4,3,2,5) dec] cs q dd delivery(6) show ?thesis by auto
qed simp

lemma loop_accounts:
  assumes "process_routes_loop env (Some send) rxs t s = (Inr t', s')"
  shows "\<exists>srs css new. t' = fold account_route srs t \<and> list_all2 honest srs css \<and>
    rn_calls (pp_runner s') = rn_calls (pp_runner s) @ concat css \<and>
    map sr_route srs = map rx_route (filter rx_enabled rxs) \<and> pp_quarantine s' = pp_quarantine s @ new \<and>
    (\<forall>sr \<in> set srs. ps_recorded (sr_policy sr) \<longrightarrow>
       (\<exists>row \<in> set new. qr_route row = sr_route sr \<and> ps_event_id (sr_policy sr) = Some (qr_id row)))"
  using assms
proof (induction rxs arbitrary: t s)
  case Nil
  then show ?case by (intro exI [of _ "[]"]) simp
next
  case (Cons rx rxs)
  show ?case
  proof (cases "rx_enabled rx")
    case False
    with Cons.prems have "process_routes_loop env (Some send) rxs t
      (s\<lparr>pp_runner := add_log (Log (u ''route_skip'') (Some (rx_route rx))) (pp_runner s)\<rparr>) = (Inr t', s')" by simp
    from Cons.IH [OF this] False show ?thesis by simp
  next
    case True
    with Cons.prems obtain sr s1 where p: "process_route_pipeline env False (Some send) rx s = (Inr sr, s1)"
      and l: "process_routes_loop env (Some send) rxs (account_route sr t) s1 = (Inr t', s')"
      by (auto split: prod.splits sum.splits)
    from route_accounts [OF p] obtain cs new where
      one: "rn_calls (pp_runner s1) = rn_calls (pp_runner s) @ cs" "honest sr cs" "sr_route sr = rx_route rx"
        "pp_quarantine s1 = pp_quarantine s @ new"
        "ps_recorded (sr_policy sr) \<longrightarrow> (\<exists>row \<in> set new. qr_route row = rx_route rx \<and> ps_event_id (sr_policy sr) = Some (qr_id row))"
      by blast
    from Cons.IH [OF l] obtain srs css new' where
      "t' = fold account_route srs (account_route sr t)" "list_all2 honest srs css"
        "rn_calls (pp_runner s') = rn_calls (pp_runner s1) @ concat css"
        "map sr_route srs = map rx_route (filter rx_enabled rxs)" "pp_quarantine s' = pp_quarantine s1 @ new'"
        "\<forall>sr \<in> set srs. ps_recorded (sr_policy sr) \<longrightarrow>
           (\<exists>row \<in> set new'. qr_route row = sr_route sr \<and> ps_event_id (sr_policy sr) = Some (qr_id row))" by blast
    with one True show ?thesis
      by (intro exI [of _ "sr # srs"] exI [of _ "cs # css"] exI [of _ "new @ new'"]) auto
  qed
qed

end

section \<open>Quarantine records only grow\<close>




section \<open>The outcome\<close>

text \<open>A route that does not hold the checkpoint back.\<close>

definition settled :: "delivery_result \<Rightarrow> bool" where
  "settled d \<longleftrightarrow> \<not> dv_allowed d \<or> dv_skip d \<in> {Some No_Events, Some Destination_Disabled} \<or>
     dv_skip d \<noteq> Some Rate_Limited \<and> (dv_success d = Some True \<or> dv_success d = Some False \<and> dv_absorbed d)"

definition sent_for :: "delivery_result \<Rightarrow> bool" where
  "sent_for d \<longleftrightarrow> dv_allowed d \<and> dv_skip d \<notin> {Some No_Events, Some Rate_Limited, Some Destination_Disabled}"

lemma tally_failover_keeps [simp]:
  "ty_all (tally_failover d t) = ty_all t" "ty_any (tally_failover d t) = ty_any t" "ty_saw (tally_failover d t) = ty_saw t"
  "ty_withheld (tally_failover d t) = ty_withheld t" "ty_absorbed (tally_failover d t) = ty_absorbed t"
  by (simp_all add: tally_failover_def)

lemma tally_route_spec:
  "ty_all (tally_route r t) \<longleftrightarrow> ty_all t \<and> settled (sr_delivery r)"
  "ty_any (tally_route r t) \<longleftrightarrow> ty_any t \<or> sent_for (sr_delivery r) \<and> dv_success (sr_delivery r) = Some True"
  "ty_saw (tally_route r t) \<longleftrightarrow> ty_saw t \<or> sent_for (sr_delivery r)"
  "ty_withheld (tally_route r t) = ty_withheld t @ (if dv_allowed (sr_delivery r) then [] else [sr_route r])"
  by (auto simp: tally_route_def settled_def sent_for_def Let_def)

lemma tally_spec:
  "ty_all (fold tally_route rs t) \<longleftrightarrow> ty_all t \<and> (\<forall>r \<in> set rs. settled (sr_delivery r))"
  "ty_any (fold tally_route rs t) \<longleftrightarrow> ty_any t \<or> (\<exists>r \<in> set rs. sent_for (sr_delivery r) \<and> dv_success (sr_delivery r) = Some True)"
  "ty_saw (fold tally_route rs t) \<longleftrightarrow> ty_saw t \<or> (\<exists>r \<in> set rs. sent_for (sr_delivery r))"
  "ty_withheld (fold tally_route rs t) = ty_withheld t @ map sr_route (filter (\<lambda>r. \<not> dv_allowed (sr_delivery r)) rs)"
  by (induction rs arbitrary: t) (auto simp: tally_route_spec)

lemma outcome_successful:
  "fn_successful (route_delivery_fan_out_outcome rs ref) =
     (if (\<forall>r \<in> set rs. settled (sr_delivery r)) \<and>
         (\<exists>r \<in> set rs. sent_for (sr_delivery r) \<and> dv_success (sr_delivery r) = Some True)
      then copy_events ref else [])"
  by (auto simp: route_delivery_fan_out_outcome_def tally_spec no_tally_def Let_def)

lemma fan_out_keeps:
  "fan_out_dynamic env sp opts evs ms out lv = (Inr fo, lv') \<Longrightarrow> fn_successful fo = fn_successful out \<and> fn_withheld fo = fn_withheld out"
  by (auto simp: fan_out_dynamic_def Let_def split: option.splits prod.splits sum.splits)

definition carried :: "json list \<Rightarrow> 'w runner \<Rightarrow> 'w runner \<Rightarrow> bool" where
  "carried evs rn rn' \<longleftrightarrow> (\<exists>cs. rn_calls rn' = rn_calls rn @ cs \<and> (\<forall>(c, x) \<in> set cs. sc_events c = evs))"

lemma carried_same: "rn_calls rn' = rn_calls rn \<Longrightarrow> carried evs rn rn'"
  by (simp add: carried_def)

lemma carried_trans: "carried evs a b \<Longrightarrow> carried evs b c \<Longrightarrow> carried evs a c"
  unfolding carried_def by (metis (no_types, lifting) Un_iff append.assoc set_append)

lemma carried_call: "rn_calls rn' = rn_calls rn @ [(c, x)] \<Longrightarrow> sc_events c = evs \<Longrightarrow> carried evs rn rn'"
  by (auto simp: carried_def)

lemma dynamic_loop_carries: "dynamic_loop ow opts st evs skip ms rn = (r, rn') \<Longrightarrow> carried evs rn rn'"
proof (induction ms arbitrary: rn r)
  case Nil
  then show ?case by (simp add: carried_same)
next
  case (Cons m ms)
  obtain l rn1 where l: "limiter_allows ow (- dm_route m) (dm_rate m) rn = (l, rn1)" by (metis prod.exhaust)
  obtain x rn2 where x: "send_to_destination ow (dynamic_call st m evs) rn1 = (x, rn2)" by (metis prod.exhaust)
  have c: "rn_calls rn1 = rn_calls rn" "rn_calls rn2 = rn_calls rn @ [(dynamic_call st m evs, x)]"
    using l x by (auto simp: send_to_destination_def split: prod.splits)
  have "carried evs rn rn' \<or> (\<exists>rn3 r3. carried evs rn rn3 \<and> dynamic_loop ow opts st evs skip ms rn3 = (r3, rn'))"
  proof (cases "dm_dest m \<in> set skip \<or> \<not> dm_enabled m")
    case True
    with Cons.prems have "dynamic_loop ow opts st evs skip ms (add_log (Log (u ''dynamic_route_send_skip'') None) rn) = (r, rn')"
      by (auto split: if_splits)
    then show ?thesis by (metis carried_same keeps_calls(1))
  next
    case False
    show ?thesis
    proof (cases "l = Inr True")
      case nt: False
      then consider e where "l = Inl e" | "l = Inr False" by (cases l) auto
      then show ?thesis
      proof cases
        case 1
        with Cons.prems False l c(1) show ?thesis by (simp add: carried_same)
      next
        case 2
        with Cons.prems False l
        have "dynamic_loop ow opts st evs skip ms (add_log (Log (u ''dynamic_route_send_rate_limited'') None) rn1) = (r, rn')" by simp
        then show ?thesis by (metis c(1) carried_same keeps_calls(1))
      qed
    next
      case True
      from c(2) have "carried evs rn rn3" if "rn_calls rn3 = rn_calls rn2" for rn3 :: "'a runner"
        using that by (intro carried_call [where c = "dynamic_call st m evs"]) simp_all
      with Cons.prems False True l x show ?thesis
        by (cases x) (auto split: prod.splits sum.splits intro: keeps_calls)
    qed
  qed
  with Cons.IH carried_trans show ?case by blast
qed

lemma deliver_dynamic_carries:
  "deliver_dynamic_routes ow opts st evs ms skip rn = (r, rn') \<Longrightarrow> carried evs rn rn'"
  by (auto simp: deliver_dynamic_routes_def carried_same dest: dynamic_loop_carries split: if_splits)

section \<open>From the body to the transaction\<close>

lemma log_stage_keeps [simp]:
  "rn_calls (lv_runner (log_stage x lv)) = rn_calls (lv_runner lv)" "lv_quarantine (log_stage x lv) = lv_quarantine lv"
  "lv_vault (log_stage x lv) = lv_vault lv"
  by (simp_all add: log_stage_def)

lemma finalize_keeps [simp]:
  "rn_calls (lv_runner (finalize_dedup d e lv)) = rn_calls (lv_runner lv)" "lv_quarantine (finalize_dedup d e lv) = lv_quarantine lv"
  "lv_vault (finalize_dedup d e lv) = lv_vault lv"
  by (simp_all add: finalize_dedup_def)

lemma collect_keeps:
  "collect_source_events env sp opts ck rows lv = (r, lv') \<Longrightarrow>
   rn_calls (lv_runner lv') = rn_calls (lv_runner lv) \<and> lv_quarantine lv' = lv_quarantine lv \<and> lv_vault lv' = lv_vault lv"
  by (auto simp: collect_source_events_def Let_def split: prod.splits sum.splits if_splits)

lemma contexts_enabled:
  assumes "build_route_runtime_contexts sp = Inr (rxs, m)"
  shows "map rx_route (filter rx_enabled rxs) = map rt_id (filter rt_enabled (map fst (ss_routes sp)))"
proof -
  have one: "rx_route rx = rt_id (fst rr) \<and> rx_enabled rx = rt_enabled (fst rr)" if "build_route_context sp rr = Inr rx" for rr rx
    using that by (auto simp: build_route_context_def rbind_Inr_iff split: prod.splits)
  have "rmap (build_route_context sp) rrs = Inr ys \<Longrightarrow>
      map rx_route (filter rx_enabled ys) = map rt_id (filter rt_enabled (map fst rrs))" for rrs ys
    by (induction rrs arbitrary: ys) (auto simp: rbind_Inr_iff dest!: one)
  with assms show ?thesis by (auto simp: build_route_runtime_contexts_def rbind_Inr_iff)
qed

lemma pipeline_accounts:
  assumes "execute_route_pipeline env sp opts events findings lv = (Inr t, lv')"
  shows "\<exists>srs css new. po_results t = srs \<and> list_all2 honest srs css \<and>
    rn_calls (lv_runner lv') = rn_calls (lv_runner lv) @ concat css \<and>
    map sr_route srs = map rt_id (filter rt_enabled (map fst (ss_routes sp))) \<and> lv_quarantine lv' = lv_quarantine lv @ new \<and>
    (\<forall>sr \<in> set srs. ps_recorded (sr_policy sr) \<longrightarrow> (\<exists>row \<in> set new. qr_route row = sr_route sr \<and> ps_event_id (sr_policy sr) = Some (qr_id row))) \<and>
    (\<forall>sr. find really_delivered (rev srs) = Some sr \<longrightarrow>
       po_checkpoint_events t = (if sr_checkpoint sr \<noteq> [] then sr_checkpoint sr else sr_events sr))"
proof -
  let ?send = "\<lambda>rx. deliver_single_route (nv_outside env) opts (delivery_stream sp) (rx_route rx)"
  from assms obtain rxs m b s where c: "build_route_runtime_contexts sp = Inr (rxs, m)"
    and p: "process_routes (nv_pipe env) (Some ?send) m rxs
       \<lparr>pp_batch = b, pp_vault = lv_vault lv, pp_quarantine = lv_quarantine lv, pp_runner = lv_runner lv\<rparr> = (Inr t, s)"
    and lv': "lv' = log_stage ''route_processing_loop''
       (lv\<lparr>lv_runner := pp_runner s, lv_vault := pp_vault s, lv_quarantine := pp_quarantine s\<rparr>)"
    by (auto simp: execute_route_pipeline_def Let_def split: sum.splits prod.splits)
  let ?t0 = "\<lparr>po_results = [], po_metrics = no_metrics (mx_routes m) (mx_fallbacks m), po_checkpoint_events = [], po_delivery_events = []\<rparr>"
  from single_sender.loop_accounts [OF p [unfolded process_routes_def]] obtain srs css new where
    l: "t = fold account_route srs ?t0" "list_all2 honest srs css"
      "rn_calls (pp_runner s) = rn_calls (lv_runner lv) @ concat css"
      "map sr_route srs = map rx_route (filter rx_enabled rxs)" "pp_quarantine s = lv_quarantine lv @ new"
      "\<forall>sr \<in> set srs. ps_recorded (sr_policy sr) \<longrightarrow>
         (\<exists>row \<in> set new. qr_route row = sr_route sr \<and> ps_event_id (sr_policy sr) = Some (qr_id row))" by auto
  have "po_results t = srs" using account_results [of srs ?t0] l(1) by simp
  moreover have "\<forall>sr. find really_delivered (rev srs) = Some sr \<longrightarrow>
       po_checkpoint_events t = (if sr_checkpoint sr \<noteq> [] then sr_checkpoint sr else sr_events sr)"
    using account_refs [of srs ?t0] l(1) by (simp split: option.splits)
  ultimately show ?thesis using l lv' contexts_enabled [OF c] by (intro exI [of _ srs] exI [of _ css] exI [of _ new]) auto
qed

text \<open>The calls a run made for one route.\<close>

definition calls_for :: "int \<Rightarrow> (send_call \<times> send_exc option) list \<Rightarrow> (send_call \<times> send_exc option) list" where
  "calls_for rid calls = filter (\<lambda>k. call_route (fst k) = rid) calls"

lemma honest_route: "honest sr cs \<Longrightarrow> (c, x) \<in> set cs \<Longrightarrow> call_route c = sr_route sr"
  by (auto simp: honest_def Let_def)

lemma calls_for_none: "list_all2 honest srs css \<Longrightarrow> i \<notin> set (map sr_route srs) \<Longrightarrow> calls_for i (concat css) = []"
proof (induction rule: list_all2_induct)
  case (Cons s srs cs css)
  then have "calls_for i cs = []" using honest_route [OF Cons.hyps(1)] by (auto simp: calls_for_def filter_empty_conv)
  with Cons show ?case by (simp add: calls_for_def)
qed (simp add: calls_for_def)

lemma calls_for_own:
  assumes "list_all2 honest srs css" "distinct (map sr_route srs)" "sr \<in> set srs"
  shows "honest sr (calls_for (sr_route sr) (concat css))"
  using assms
proof (induction rule: list_all2_induct)
  case (Cons s srs cs css)
  have here: "calls_for (sr_route s) cs = cs"
    using honest_route [OF Cons.hyps(1)] by (auto simp: calls_for_def filter_id_conv)
  have other: "calls_for i cs = []" if "i \<noteq> sr_route s" for i
    using honest_route [OF Cons.hyps(1)] that by (auto simp: calls_for_def filter_empty_conv)
  have away: "calls_for (sr_route s) (concat css) = []"
    using Cons.hyps(2) Cons.prems(1) by (intro calls_for_none) auto
  have app: "calls_for i (concat (cs # css)) = calls_for i cs @ calls_for i (concat css)" for i by (simp add: calls_for_def)
  show ?case
  proof (cases "sr = s")
    case True
    with Cons.hyps(1) here away show ?thesis unfolding app by simp
  next
    case False
    with Cons.prems have here: "sr \<in> set srs" and "sr_route s \<notin> sr_route ` set srs" by auto
    then have "sr_route sr \<noteq> sr_route s" by (metis imageI)
    with here Cons.IH Cons.prems(1) other show ?thesis unfolding app by simp
  qed
qed simp

lemma honest_delivers:
  assumes "honest sr cs" "sent_for (sr_delivery sr)" "dv_success (sr_delivery sr) = Some True"
  shows "really_delivered sr \<and> accepted cs"
  using assms by (auto simp: honest_def sent_for_def really_delivered_def Let_def)

lemma fan_out_effects:
  assumes "fan_out_dynamic env sp opts evs ms out lv = (r, lv')"
  shows "carried evs (lv_runner lv) (lv_runner lv') \<and> lv_quarantine lv' = lv_quarantine lv \<and> lv_vault lv' = lv_vault lv"
proof (cases ms)
  case None
  with assms show ?thesis by (auto simp: fan_out_dynamic_def Let_def carried_def)
next
  case (Some mm)
  obtain x rn1 where x: "deliver_dynamic_routes (nv_outside env) opts (delivery_stream sp) evs mm
      (List.map_filter (\<lambda>rr. dn_id (rt_dest (fst rr))) (ss_routes sp) @
       map (fb_secondary \<circ> snd) (bindings_or_none (nv_outside env) (ss_id sp) (rn_world (lv_runner lv)))) (lv_runner lv) = (x, rn1)"
    by (metis prod.exhaust)
  from deliver_dynamic_carries [OF this] x Some assms show ?thesis
    by (auto simp: fan_out_dynamic_def Let_def carried_def split: sum.splits if_splits)
qed

text \<open>
  What the run reports about its routes: the events it extracted, the result of its pipeline and the state after it,
  computed from the state the run starts in.
\<close>

definition body_report ::
  "'w run_env \<Rightarrow> stream_spec \<Rightarrow> run_opts \<Rightarrow> json \<Rightarrow> log_entry list \<Rightarrow> 'w live \<Rightarrow> (json list \<times> pipeline_result \<times> 'w live) option" where
  "body_report env sp opts checkpoint rows lv =
     (case source_allow (ss_id sp) (ss_rate sp) (ow_clock (nv_outside env) (rn_world (lv_runner lv))) (lv_source lv) of
        (Inr True, sl) \<Rightarrow> (case collect_source_events env sp opts checkpoint rows (lv\<lparr>lv_source := sl\<rparr>) of
          (Inr events, lv1) \<Rightarrow> (case execute_route_pipeline env sp opts events (nv_detect env events) lv1 of
            (Inr t, lv2) \<Rightarrow> Some (events, t, lv2)
          | _ \<Rightarrow> None)
        | _ \<Rightarrow> None)
      | _ \<Rightarrow> None)"

definition run_report ::
  "'w run_env \<Rightarrow> stream_spec \<Rightarrow> run_opts \<Rightarrow> json \<Rightarrow> 'w system \<Rightarrow> (json list \<times> pipeline_result \<times> 'w live) option" where
  "run_report env sp opts rc sy =
     body_report env sp opts
       (snd (resolve_checkpoint rc
          (case nv_read_fails env of Some e \<Rightarrow> Inl e | None \<Rightarrow> Inr (get_checkpoint (sy_checkpoints sy) (ss_id sp)))
          (nv_memory env (ss_id sp))))
       (sy_log sy @ [Log (u ''run_started'') None]) (start_live sy)"

text \<open>
  The account of the routes behind a moved checkpoint: every enabled route has one result and does not hold the checkpoint back,
  each result agrees with the calls that name its route, the event \<open>ev\<close> whose cursor is stored is the last one of the batch
  as transformed for a route whose delivery an adapter accepted, and reported quarantine records are stored.
\<close>

definition accounted :: "stream_spec \<Rightarrow> pipeline_result \<Rightarrow> (send_call \<times> send_exc option) list \<Rightarrow> quarantine_row list \<Rightarrow> json \<Rightarrow> bool" where
  "accounted sp t calls rows ev \<longleftrightarrow>
     map sr_route (po_results t) = map rt_id (filter rt_enabled (map fst (ss_routes sp))) \<and>
     (\<forall>sr \<in> set (po_results t). settled (sr_delivery sr) \<and> honest sr (calls_for (sr_route sr) calls)) \<and>
     (\<exists>sr \<in> set (po_results t). really_delivered sr \<and> accepted (calls_for (sr_route sr) calls) \<and>
        ev = last (copy_events (if sr_checkpoint sr \<noteq> [] then sr_checkpoint sr else sr_events sr))) \<and>
     (\<forall>sr \<in> set (po_results t). ps_recorded (sr_policy sr) \<longrightarrow>
        (\<exists>row \<in> set rows. qr_route row = sr_route sr \<and> ps_event_id (sr_policy sr) = Some (qr_id row)))"

lemma find_rev_Some:
  assumes "x \<in> set xs" "P x"
  shows "\<exists>y. find P (rev xs) = Some y \<and> y \<in> set xs \<and> P y"
proof -
  from assms obtain y where y: "find P (rev xs) = Some y" by (cases "find P (rev xs)") (auto simp: find_None_iff)
  then have "y \<in> set xs \<and> P y" by (auto simp: find_Some_iff) (metis length_rev nth_mem set_rev)
  with y show ?thesis by blast
qed

lemma body_checkpoint:
  assumes "run_body env sp opts ctype ck rows lv = (Inr (su, Some (ty, v)), lv')"
    and "distinct (map (rt_id \<circ> fst) (ss_routes sp))"
  shows "ro_persist opts \<and> \<not> ro_dry_run opts \<and> su_checkpoint_updated su \<and>
    (\<exists>events t lv2 calls dyn ev new. body_report env sp opts ck rows lv = Some (events, t, lv2) \<and>
       rn_calls (lv_runner lv2) = rn_calls (lv_runner lv) @ calls \<and>
       rn_calls (lv_runner lv') = rn_calls (lv_runner lv) @ calls @ dyn \<and>
       lv_quarantine lv' = lv_quarantine lv @ new \<and> accounted sp t calls new ev \<and>
       ty = ctype \<and> v = checkpoint_value (nv_find env) (ss_config sp) ev \<and>
       su_metrics su = Some (po_metrics t) \<and>
       su_withheld su = map sr_route (filter (\<lambda>sr. \<not> dv_allowed (sr_delivery sr)) (po_results t)))"
proof -
  from assms(1) obtain sl events lv1 t lv2 where
    sa: "source_allow (ss_id sp) (ss_rate sp) (ow_clock (nv_outside env) (rn_world (lv_runner lv))) (lv_source lv) = (Inr True, sl)"
    and c: "collect_source_events env sp opts ck rows (lv\<lparr>lv_source := sl\<rparr>) = (Inr events, lv1)"
    and p: "execute_route_pipeline env sp opts events (nv_detect env events) lv1 = (Inr t, lv2)"
    and d: "deliver_and_checkpoint env sp opts ctype events (nv_detect env events) t lv2 = (Inr (su, Some (ty, v)), lv')"
    and nd: "\<not> ro_dry_run opts"
    by (auto simp: run_body_def Let_def split: prod.splits sum.splits bool.splits if_splits)
  from pipeline_accounts [OF p] obtain srs css new where
    a: "po_results t = srs" "list_all2 honest srs css"
      "rn_calls (lv_runner lv2) = rn_calls (lv_runner lv1) @ concat css"
      "map sr_route srs = map rt_id (filter rt_enabled (map fst (ss_routes sp)))" "lv_quarantine lv2 = lv_quarantine lv1 @ new"
      "\<forall>sr \<in> set srs. ps_recorded (sr_policy sr) \<longrightarrow> (\<exists>row \<in> set new. qr_route row = sr_route sr \<and> ps_event_id (sr_policy sr) = Some (qr_id row))"
      "\<And>sr. find really_delivered (rev srs) = Some sr \<Longrightarrow>
         po_checkpoint_events t = (if sr_checkpoint sr \<noteq> [] then sr_checkpoint sr else sr_events sr)" by auto
  let ?ref = "if po_checkpoint_events t \<noteq> [] then po_checkpoint_events t else events"
  from d obtain devs ms fo lv3 where
    f: "fan_out_dynamic env sp opts devs ms (route_delivery_fan_out_outcome (po_results t) ?ref) lv2 = (Inr fo, lv3)"
    and s: "fn_successful fo \<noteq> []" "ro_persist opts" "su_checkpoint_updated su" "ty = ctype"
      "v = checkpoint_value (nv_find env) (ss_config sp) (last (fn_successful fo))" "su_metrics su = Some (po_metrics t)"
      "su_withheld su = fn_withheld fo"
    and e: "rn_calls (lv_runner lv') = rn_calls (lv_runner lv3)" "lv_quarantine lv' = lv_quarantine lv3"
    by (fastforce simp: deliver_and_checkpoint_def empty_run_def Let_def split: prod.splits sum.splits if_splits)
  note k = fan_out_keeps [OF f]
  from s(1) k a(1) have ok: "\<forall>sr \<in> set srs. settled (sr_delivery sr)"
    "\<exists>sr \<in> set srs. sent_for (sr_delivery sr) \<and> dv_success (sr_delivery sr) = Some True" "fn_successful fo = copy_events ?ref"
    by (auto simp: outcome_successful split: if_splits)
  have "distinct (map sr_route srs)" using assms(2) unfolding a(4) by (simp add: distinct_map_filter flip: map_map)
  from calls_for_own [OF a(2) this] have h: "honest sr (calls_for (sr_route sr) (concat css))" if "sr \<in> set srs" for sr using that by blast
  from ok(2) h honest_delivers obtain sr where "sr \<in> set srs" "really_delivered sr" by blast
  from find_rev_Some [where P = really_delivered and xs = srs, OF this] obtain sr where r: "find really_delivered (rev srs) = Some sr" "sr \<in> set srs" "really_delivered sr" by blast
  have acc: "accepted (calls_for (sr_route sr) (concat css))"
    using h [OF r(2)] r(3) by (auto simp: honest_def really_delivered_def Let_def)
  have ref: "?ref = (if sr_checkpoint sr \<noteq> [] then sr_checkpoint sr else sr_events sr)"
    using a(7) [OF r(1)] r(3) by (simp add: really_delivered_def)
  from fan_out_effects [OF f] obtain dyn where
    dyn: "rn_calls (lv_runner lv3) = rn_calls (lv_runner lv2) @ dyn" "lv_quarantine lv3 = lv_quarantine lv2"
    unfolding carried_def by blast
  have l1: "rn_calls (lv_runner lv1) = rn_calls (lv_runner lv)" "lv_quarantine lv1 = lv_quarantine lv"
    using collect_keeps [OF c] by simp_all
  have w: "fn_withheld fo = map sr_route (filter (\<lambda>sr. \<not> dv_allowed (sr_delivery sr)) srs)"
    using k a(1) by (auto simp: route_delivery_fan_out_outcome_def tally_spec no_tally_def Let_def)
  have "accounted sp t (concat css) new (last (fn_successful fo))"
    unfolding accounted_def a(1) ok(3) ref using a(4,6) ok(1) h r acc by auto
  moreover have "body_report env sp opts ck rows lv = Some (events, t, lv2)" using sa c p by (simp add: body_report_def)
  ultimately show ?thesis using s nd a(1,3,5) e dyn l1 w
    by (intro conjI exI [of _ events] exI [of _ t] exI [of _ lv2] exI [of _ "concat css"] exI [of _ dyn] exI [of _ "last (fn_successful fo)"]
        exI [of _ new]) simp_all
qed

section \<open>Properties of a run\<close>

lemma run_unlocked:
  assumes "run env sp opts rc sy = (r, sy')"
  obtains (held) "ss_id sp \<in> set (sy_threads sy) \<or> nv_lock env = None \<and> ss_id sp \<in> set (sy_files sy)"
      "sy' = sy" "\<exists>su. r = Inr su \<and> su_outcome su = Skipped_Lock"
  | (unlockable) e where "nv_lock env = Some e" "ss_id sp \<notin> set (sy_threads sy)" "r = Inl (StageFailure e)"
      "sy' = sy\<lparr>sy_threads := ss_id sp # sy_threads sy\<rparr>"
  | (ran) sy0 sy1 where "run_locked env sp opts rc sy0 = (r, sy1)" "sy' = release_lock (ss_id sp) sy1"
      "sy0 = sy\<lparr>sy_threads := ss_id sp # sy_threads sy, sy_files := ss_id sp # sy_files sy\<rparr>"
      "ss_id sp \<notin> set (sy_threads sy) \<union> set (sy_files sy)" "nv_lock env = None"
  using assms by (auto simp: run_def try_lock_def split: if_splits prod.splits option.splits)

text \<open>The state in which the body starts.\<close>

definition entered :: "'w system \<Rightarrow> 'w system" where
  "entered sy = sy\<lparr>sy_log := sy_log sy @ [Log (u ''run_started'') None]\<rparr>"

definition stored_checkpoint :: "'w run_env \<Rightarrow> stream_spec \<Rightarrow> json \<Rightarrow> 'w system \<Rightarrow> ustr \<times> json" where
  "stored_checkpoint env sp rc sy = resolve_checkpoint rc
     (case nv_read_fails env of Some e \<Rightarrow> Inl e | None \<Rightarrow> Inr (get_checkpoint (sy_checkpoints sy) (ss_id sp)))
     (nv_memory env (ss_id sp))"

lemma locked_cases:
  assumes "run_locked env sp opts rc sy = (r, sy')"
  obtains (entry) x where "r = Inl x" "sy' = record_failure_row env sy"
  | (failed) x lv where "run_body env sp opts (fst (stored_checkpoint env sp rc sy)) (snd (stored_checkpoint env sp rc sy))
        (sy_log sy @ [Log (u ''run_started'') None]) (start_live sy) = (Inl x, lv)" "r = Inl x"
      "sy' = record_failure_row env (settle lv (entered sy))"
  | (unflushed) x y lv where "run_body env sp opts (fst (stored_checkpoint env sp rc sy)) (snd (stored_checkpoint env sp rc sy))
        (sy_log sy @ [Log (u ''run_started'') None]) (start_live sy) = (Inr y, lv)" "r = Inl x"
      "sy' = settle (if pv_own (nv_pipe env) then lv\<lparr>lv_vault := sy_vault sy, lv_quarantine := sy_quarantine sy\<rparr> else lv) (entered sy)"
  | (flushed) su v lv where
      "run_body env sp opts (fst (stored_checkpoint env sp rc sy)) (snd (stored_checkpoint env sp rc sy))
        (sy_log sy @ [Log (u ''run_started'') None]) (start_live sy) = (Inr (su, v), lv)"
      "r = Inr (su\<lparr>su_committed := True\<rparr>)"
      "sy' = flush_pending_writes (ss_id sp) lv v (settle lv (entered sy))"
proof -
  have "start_live (sy\<lparr>sy_log := l\<rparr>) = start_live sy" for l by (simp add: start_live_def)
  with assms show thesis
    by (auto simp: run_locked_def Let_def stored_checkpoint_def entered_def split: prod.splits option.splits sum.splits if_splits
        intro: entry failed unflushed flushed)
qed

lemma entered_keeps [simp]:
  "sy_checkpoints (entered sy) = sy_checkpoints sy" "sy_status (entered sy) = sy_status sy" "sy_disabled (entered sy) = sy_disabled sy"
  "sy_threads (entered sy) = sy_threads sy" "sy_files (entered sy) = sy_files sy" "sy_quarantine (entered sy) = sy_quarantine sy"
  "sy_log (entered sy) = sy_log sy @ [Log (u ''run_started'') None]" "sy_calls (entered sy) = sy_calls sy" "sy_vault (entered sy) = sy_vault sy"
  by (simp_all add: entered_def)

lemma settle_keeps [simp]:
  "sy_checkpoints (settle lv sy) = sy_checkpoints sy" "sy_status (settle lv sy) = sy_status sy"
  "sy_disabled (settle lv sy) = sy_disabled sy"
  "sy_threads (settle lv sy) = sy_threads sy" "sy_files (settle lv sy) = sy_files sy"
  by (simp_all add: settle_def)

lemma failure_row_keeps [simp]:
  "sy_checkpoints (record_failure_row env sy) = sy_checkpoints sy" "sy_status (record_failure_row env sy) = sy_status sy"
  "sy_disabled (record_failure_row env sy) = sy_disabled sy" "sy_threads (record_failure_row env sy) = sy_threads sy"
  "sy_files (record_failure_row env sy) = sy_files sy"
  by (simp_all add: record_failure_row_def)

text \<open>
  C1. A checkpoint moves only over delivered events.  Route ids are unique.  If a run changes a checkpoint, it is the checkpoint
  of its own stream, the run is neither a dry run nor told to keep the checkpoint, and it ended normally with its
  transaction committed.  The results of its own pipeline (\<open>run_report\<close>, from the state the run starts in) cover exactly the enabled
  routes; none of them is rate limited or failed beyond its failure policy, and each agrees with the adapter calls
  that name its route (a success was accepted, a skipped or withheld route made no call).  The stored value is that of the last event
  of the batch as transformed for a route whose delivery an adapter accepted.  Every reported quarantine record is among the new
  rows of the store, and the summary lists the withheld routes of these results.
\<close>

theorem checkpoint_only_after_delivery:
  assumes "run env sp opts rc sy = (r, sy')" and "dget (sy_checkpoints sy') i \<noteq> dget (sy_checkpoints sy) i"
    and "distinct (map (rt_id \<circ> fst) (ss_routes sp))"
  shows "i = ss_id sp \<and> ro_persist opts \<and> \<not> ro_dry_run opts \<and>
    (\<exists>su events t lv calls dyn new ev. r = Inr su \<and> su_checkpoint_updated su \<and> su_committed su \<and>
       run_report env sp opts rc sy = Some (events, t, lv) \<and>
       rn_calls (lv_runner lv) = sy_calls sy @ calls \<and> sy_calls sy' = sy_calls sy @ calls @ dyn \<and>
       sy_quarantine sy' = sy_quarantine sy @ new \<and> accounted sp t calls new ev \<and>
       dget (sy_checkpoints sy') i = Some (fst (stored_checkpoint env sp rc sy), JDict (checkpoint_value (nv_find env) (ss_config sp) ev)) \<and>
       su_metrics su = Some (po_metrics t) \<and>
       su_withheld su = map sr_route (filter (\<lambda>sr. \<not> dv_allowed (sr_delivery sr)) (po_results t)))"
  using assms(1)
proof (cases rule: run_unlocked)
  case (ran sy0 sy1)
  have c: "sy_checkpoints sy' = sy_checkpoints sy1" "sy_calls sy' = sy_calls sy1" "sy_quarantine sy' = sy_quarantine sy1"
    using ran(2) by (simp_all add: release_lock_def)
  have same: "start_live sy0 = start_live sy" "stored_checkpoint env sp rc sy0 = stored_checkpoint env sp rc sy" "sy_log sy0 = sy_log sy"
    "sy_checkpoints sy0 = sy_checkpoints sy"
    by (simp_all add: ran(3) start_live_def stored_checkpoint_def cong: option.case_cong)
  from ran(1) show ?thesis
  proof (cases rule: locked_cases)
    case (flushed su v lv)
    have "v = None \<Longrightarrow> sy_checkpoints sy' = sy_checkpoints sy" using flushed(3) c(1) same by (simp add: flush_pending_writes_def)
    with assms(2) obtain ty cv where cv: "v = Some (ty, cv)" by fastforce
    from body_checkpoint [OF flushed(1) [unfolded cv same] assms(3)] obtain events t lv2 calls dyn ev new where
      b: "ro_persist opts" "\<not> ro_dry_run opts" "su_checkpoint_updated su"
        "run_report env sp opts rc sy = Some (events, t, lv2)"
        "rn_calls (lv_runner lv2) = rn_calls (lv_runner (start_live sy)) @ calls"
        "rn_calls (lv_runner lv) = rn_calls (lv_runner (start_live sy)) @ calls @ dyn"
        "lv_quarantine lv = lv_quarantine (start_live sy) @ new" "accounted sp t calls new ev"
        "ty = fst (stored_checkpoint env sp rc sy)" "cv = checkpoint_value (nv_find env) (ss_config sp) ev"
        "su_metrics su = Some (po_metrics t)"
        "su_withheld su = map sr_route (filter (\<lambda>sr. \<not> dv_allowed (sr_delivery sr)) (po_results t))"
      unfolding run_report_def stored_checkpoint_def by blast
    have ck: "sy_checkpoints sy' = upsert_checkpoint (ss_id sp) ty (JDict cv) (sy_checkpoints sy)"
      using c(1) same flushed(3) cv by (simp add: flush_pending_writes_def)
    then have i: "i = ss_id sp" using assms(2) by (auto simp: upsert_checkpoint_def dict_simps split: if_splits)
    have "dget (sy_checkpoints sy') i = Some (ty, JDict cv)" using ck i by (simp add: upsert_checkpoint_def dict_simps)
    moreover have "sy_calls sy1 = rn_calls (lv_runner lv)" "sy_quarantine sy1 = lv_quarantine lv"
      using flushed(3) by (simp_all add: flush_pending_writes_def settle_def)
    ultimately show ?thesis using b flushed(2) c i
      by (intro conjI exI [of _ "su\<lparr>su_committed := True\<rparr>"] exI [of _ events] exI [of _ t] exI [of _ lv2] exI [of _ calls]
          exI [of _ dyn] exI [of _ new] exI [of _ ev]) (simp_all add: start_live_def)
  qed (use assms(2) c same in auto)
qed (use assms(2) in auto)







text \<open>
  A lock file that cannot be taken blocks the stream.  After such a run, every later run of the stream in this process is skipped
  as already running, whatever its environment is.
\<close>

lemma lock_error_blocks_stream:
  assumes "run env sp opts rc sy = (r, sy')" "nv_lock env = Some e" "ss_id sp \<notin> set (sy_threads sy)"
  shows "r = Inl (StageFailure e) \<and>
    (\<exists>su. run env2 sp opts2 rc2 sy' = (Inr su, sy') \<and> su_outcome su = Skipped_Lock)"
  using assms by (auto simp: run_def try_lock_def)

lemma body_dry:
  assumes "run_body env sp opts ctype ck rows lv = (r, lv')" "ro_dry_run opts"
  shows "rn_calls (lv_runner lv') = rn_calls (lv_runner lv) \<and> lv_vault lv' = lv_vault lv \<and>
    lv_quarantine lv' = lv_quarantine lv \<and> rn_disabled (lv_runner lv') = rn_disabled (lv_runner lv) \<and>
    (\<forall>su v. r = Inr (su, v) \<longrightarrow> v = None)"
proof -
  have d: "rn_disabled (lv_runner (log_stage x l)) = rn_disabled (lv_runner l)"
    "rn_disabled (lv_runner (finalize_dedup b e l)) = rn_disabled (lv_runner l)" for x b e and l :: "'a live"
    by (simp_all add: log_stage_def add_log_def finalize_dedup_def)
  have c: "rn_disabled (lv_runner l') = rn_disabled (lv_runner l)"
    if "collect_source_events env sp opts ck rows l = (x, l')" for x l l'
    using that d by (auto simp: collect_source_events_def Let_def split: prod.splits sum.splits if_splits)
  show ?thesis
    using assms c collect_keeps d
    by (fastforce simp: run_body_def finish_undelivered_def set_stream_status_def Let_def
        split: prod.splits sum.splits bool.splits if_splits)
qed

text \<open>
  C25. A dry run delivers nothing.  It makes no adapter call and changes neither a checkpoint, the identity
  vault, the quarantine nor the enabled routes.
\<close>

theorem dry_run_delivers_nothing:
  assumes "run env sp opts rc sy = (r, sy')" "ro_dry_run opts"
  shows "sy_calls sy' = sy_calls sy \<and> sy_checkpoints sy' = sy_checkpoints sy \<and> sy_vault sy' = sy_vault sy \<and>
    sy_quarantine sy' = sy_quarantine sy \<and> sy_disabled sy' = sy_disabled sy"
  using assms(1)
proof (cases rule: run_unlocked)
  case (ran sy0 sy1)
  note effects = release_lock_def record_failure_row_def flush_pending_writes_def settle_def start_live_def
  from ran(1) show ?thesis
  proof (cases rule: locked_cases)
    case (entry x)
    with ran show ?thesis by (simp add: effects)
  next
    case (failed x lv)
    with body_dry [OF failed(1) assms(2)] ran show ?thesis by (simp add: effects)
  next
    case (unflushed x y lv)
    with body_dry [OF unflushed(1) assms(2)] ran show ?thesis by (simp add: effects)
  next
    case (flushed su v lv)
    with body_dry [OF flushed(1) assms(2)] ran show ?thesis by (simp add: effects)
  qed
qed simp_all

section \<open>A demonstration\<close>

text \<open>One route that masks \<open>$.a\<close>, a source with one event, and an adapter that answers from a script.\<close>

definition demo_rows :: route_rows where
  "demo_rows = \<lparr>rg_mapping = None, rg_enrichment = None,
     rg_protection = [(demo_rule MODE_FULL_MASK (u ''$.a''), None)], rg_classification = [], rg_policy = []\<rparr>"

definition demo_spec :: "dict list \<Rightarrow> stream_spec" where
  "demo_spec gov = \<lparr>ss_id = 7, ss_name = u ''s'', ss_rate = [], ss_config = [], ss_source = [],
     ss_source_type = u ''HTTP_API_POLLING'', ss_array_path = None, ss_root_path = None, ss_mappings = [],
     ss_enrichment = [], ss_override = u ''KEEP_EXISTING'', ss_mapping_row = None, ss_enrichment_row = None,
     ss_protection = [], ss_classification = [], ss_policy = [], ss_overrides = [], ss_governance = gov,
     ss_routes = [(script_route (u ''LOG_AND_CONTINUE''), demo_rows)]\<rparr>"

definition pii_finding :: json where
  "pii_finding = JDict [(u ''sensitivity_class'', JStr (u ''pii''))]"

definition demo_run_env :: "dynamic_rule list \<Rightarrow> (send_exc option list) run_env" where
  "demo_run_env dyn = \<lparr>nv_pipe = demo_pipeline_env, nv_outside = script_outside, nv_find = (\<lambda>v p. Inr []),
     nv_key_path = (\<lambda>v p. Inr JNull), nv_fetch = (\<lambda>ty src cfg ck w. (Inr demo_event, w)), nv_seeds = (\<lambda>rows ck c. []),
     nv_detect = (\<lambda>evs. Some [pii_finding]), nv_rescan = (\<lambda>evs. []), nv_drift = (\<lambda>evs f. None),
     nv_dynamic = (\<lambda>w. Inr dyn), nv_read_fails = None, nv_memory = (\<lambda>i. JNull), nv_lock = None, nv_entry = None, nv_flush = None,
     nv_failure_log = True\<rparr>"

definition demo_system :: "send_exc option list \<Rightarrow> (send_exc option list) system" where
  "demo_system w = \<lparr>sy_world = w, sy_calls = [], sy_limiter = \<lparr>dl_windows = [], dl_pacing = []\<rparr>,
     sy_source_limiter = \<lparr>sl_windows = []\<rparr>, sy_vault = demo_vault, sy_quarantine = [], sy_checkpoints = [],
     sy_status = [], sy_disabled = [], sy_log = [], sy_threads = [], sy_files = []\<rparr>"

definition demo_transform :: transform_config where
  "demo_transform = \<lparr>tc_mappings = [], tc_enrichment = [], tc_override = u ''KEEP_EXISTING'',
     tc_mapping_source = FromStream, tc_enrichment_source = FromStream\<rparr>"

definition demo_rx :: route_ctx where
  "demo_rx = \<lparr>rx_route = 5, rx_stream = 7, rx_dest = 10, rx_enabled = True, rx_transform = Some demo_transform,
     rx_class = \<lparr>cc_rules = [], cc_override_levels = [], cc_source = FromNowhere\<rparr>,
     rx_protection_rules = [(demo_rule MODE_FULL_MASK (u ''$.a''), None)], rx_policy_rules = []\<rparr>"

lemma demo_contexts: "\<exists>m. build_route_runtime_contexts (demo_spec gov) = Inr ([demo_rx], m)"
proof -
  have "\<exists>c. resolve_route_protection_config 5 7 [(demo_rule MODE_FULL_MASK (u ''$.a''), None)] [] [] [] = Inr c"
    by (auto simp: resolve_route_protection_config_def apply_route_overrides_def rule_entry_from_row_def demo_rule_def Let_def)
  moreover have "\<exists>c. resolve_route_policy_config 5 [] [] [] [] None = Inr c"
    by (simp add: resolve_route_policy_config_def resolve_effective_delivery_behavior_def
      extract_route_override_delivery_behavior_def extract_stream_default_delivery_behavior_def derive_drift_gates_def
      pick_most_restrictive_def)
  ultimately show ?thesis
    by (auto simp: build_route_runtime_contexts_def build_route_context_def demo_spec_def demo_rows_def script_route_def
        resolve_route_transform_config_def mapping_field_mappings_def enrichment_json_def override_policy_of_def
        resolve_route_classification_config_def demo_rx_def demo_transform_def)
qed

lemma demo_transformed:
  assumes "bx_events b = [demo_event]" "bx_transforms b = []"
  shows "\<exists>b'. transform_stage demo_pipeline_env (Some demo_transform) b = (Inr [demo_event], b') \<and>
     bx_findings b' = bx_findings b \<and> bx_protect b' = bx_protect b \<and> bx_protection_rules b' = bx_protection_rules b \<and>
     bx_overrides b' = bx_overrides b \<and> bx_policy_rules b' = bx_policy_rules b \<and> bx_governance b' = bx_governance b \<and>
     bx_drift b' = bx_drift b"
proof -
  have "with_transport_metadata demo_event demo_event = demo_event"
    by (simp add: with_transport_metadata_def demo_event_def TRANSPORT_KEYS_def copy_missing_def propagate_dedup_metadata_def
        KEY_META_def QUEUE_META_def)
  with assms show ?thesis
    by (simp add: transform_stage_def apply_route_transform_def demo_pipeline_env_def copy_transport_metadata_def)
qed

lemma demo_route_run:
  assumes "bx_events (pp_batch s) = [demo_event]" "bx_transforms (pp_batch s) = []" "bx_protect (pp_batch s) = demo_batch"
    "bx_protection_rules (pp_batch s) = []" "bx_overrides (pp_batch s) = []" "bx_policy_rules (pp_batch s) = []"
    "bx_drift (pp_batch s) = None" "pp_vault s = demo_vault"
    and "route_policy_stage working_db False False 7 5 10 [masked_event] (bx_findings (pp_batch s)) None [] [] []
      (bx_governance (pp_batch s)) None (pp_quarantine s) = (Inr (evs, pres, c), q1)"
    and "route_delivery_stage demo_rx pres evs (if ps_allowed pres then Some (send demo_rx evs) else None) (pp_runner s) = (Inr d, rn1)"
  shows "\<exists>sr s'. process_route_pipeline demo_pipeline_env False (Some send) demo_rx s = (Inr sr, s') \<and> sr_delivery sr = d \<and>
     sr_policy sr = pres \<and> sr_route sr = 5 \<and> sr_checkpoint sr = [demo_event] \<and>
     sr_events sr = (if dv_success d = Some True then evs else []) \<and> pp_runner s' = rn1 \<and> pp_quarantine s' = q1"
proof -
  obtain b' where b: "transform_stage demo_pipeline_env (Some demo_transform) (pp_batch s) = (Inr [demo_event], b')"
    "bx_findings b' = bx_findings (pp_batch s)" "bx_protect b' = demo_batch" "bx_protection_rules b' = []"
    "bx_overrides b' = []" "bx_policy_rules b' = []" "bx_governance b' = bx_governance (pp_batch s)" "bx_drift b' = None"
    using demo_transformed [OF assms(1,2)] assms(3-7) by metis
  obtain res cfg sb where p: "route_protection_stage demo_prot_env False False 5 7 (Some (transform_config_cache_key demo_transform))
     [demo_event] [(demo_rule MODE_FULL_MASK (u ''$.a''), None)] [] [] demo_batch demo_vault = (Inr (res, cfg), sb, demo_vault)"
    "pb_events res = [masked_event]" using demo_protects by blast
  have e: "pv_prot demo_pipeline_env = demo_prot_env" "pv_own demo_pipeline_env = False" "pv_classify demo_pipeline_env = False"
    "pv_quarantine demo_pipeline_env i = working_db" for i by (simp_all add: demo_pipeline_env_def)
  show ?thesis using assms(8-10) b p
    by (simp add: process_route_pipeline_def e demo_rx_def route_classification_stage_def split: if_splits)
qed

text \<open>The demonstration up to its pipeline.\<close>

definition demo_live :: "send_exc option list \<Rightarrow> (send_exc option list) live" where
  "demo_live w = \<lparr>lv_runner = \<lparr>rn_world = w, rn_limiter = \<lparr>dl_windows = [], dl_pacing = []\<rparr>, rn_dedup = None, rn_status = [],
     rn_disabled = [], rn_log = [Log (u ''source_fetch'') None, Log (u ''parse'') None], rn_calls = []\<rparr>,
     lv_source = \<lparr>sl_windows = []\<rparr>, lv_vault = demo_vault, lv_quarantine = []\<rparr>"

lemma demo_collects:
  "run_body (demo_run_env dyn) (demo_spec gov) script_opts ctype ck rows
     (start_live (demo_system w\<lparr>sy_threads := ts, sy_files := fs, sy_log := ls\<rparr>)) =
   (case execute_route_pipeline (demo_run_env dyn) (demo_spec gov) script_opts [demo_event] (Some [pii_finding]) (demo_live w) of
      (Inl x, lv2) \<Rightarrow> (Inl x, lv2)
    | (Inr t, lv2) \<Rightarrow> deliver_and_checkpoint (demo_run_env dyn) (demo_spec gov) script_opts ctype [demo_event] (Some [pii_finding]) t lv2)"
proof -
  have e: "extract_with_fallback fv demo_event None None = Inr [demo_event]" "\<not> root_fallback fv demo_event None None" for fv
    by (simp_all add: extract_with_fallback_def root_fallback_def extract_events_def path_given_def demo_event_def with_root_def normalize_events_with_root_def)
  have "parse_dedup_config [] = default_dedup_config" "\<not> dc_enabled default_dedup_config"
    by (simp_all add: parse_dedup_config_def dget_none_def default_dedup_config_def)
  then have d: "apply_stream_dedup kp seeds [] True [demo_event] = ([demo_event], None)" for kp seeds
    by (simp add: apply_stream_dedup_def)
  have "collect_source_events (demo_run_env dyn) (demo_spec gov) script_opts ck rows
      (start_live (demo_system w\<lparr>sy_threads := ts, sy_files := fs, sy_log := ls\<rparr>)) = (Inr [demo_event], demo_live w)"
    by (simp add: collect_source_events_def fetch_arguments_def script_opts_def demo_run_env_def demo_spec_def e d
        log_stage_def add_log_def start_live_def demo_system_def demo_live_def)
  moreover have "source_allow i [] now sl = (Inr True, sl)" for i now sl by (simp add: source_allow_def read_limit_def)
  moreover have "(start_live (demo_system w\<lparr>sy_threads := ts, sy_files := fs, sy_log := ls\<rparr>))\<lparr>lv_source := lv_source (start_live (demo_system w\<lparr>sy_threads := ts, sy_files := fs, sy_log := ls\<rparr>))\<rparr> =
      start_live (demo_system w\<lparr>sy_threads := ts, sy_files := fs, sy_log := ls\<rparr>)" by simp
  moreover have "ss_rate (demo_spec gov) = []" "\<not> ro_dry_run script_opts" "nv_detect (demo_run_env dyn) evs = Some [pii_finding]" for evs
    by (simp_all add: demo_spec_def script_opts_def demo_run_env_def)
  ultimately show ?thesis by (simp add: run_body_def Let_def)
qed

lemma demo_run_result:
  assumes "execute_route_pipeline (demo_run_env dyn) (demo_spec gov) script_opts [demo_event] (Some [pii_finding]) (demo_live w) = (Inr t, lv2)"
    and "deliver_and_checkpoint (demo_run_env dyn) (demo_spec gov) script_opts (u ''CUSTOM_FIELD'') [demo_event] (Some [pii_finding]) t lv2 =
      (Inr (su, ck), lv3)"
  shows "\<exists>sy'. run (demo_run_env dyn) (demo_spec gov) script_opts JNull (demo_system w) = (Inr (su\<lparr>su_committed := True\<rparr>), sy') \<and>
    sy_calls sy' = rn_calls (lv_runner lv3) \<and> sy_checkpoints sy' = (case ck of None \<Rightarrow> [] | Some (ty, v) \<Rightarrow> [(7, ty, JDict v)])"
proof -
  have "resolve_checkpoint JNull (Inr (get_checkpoint [] i)) m = (u ''CUSTOM_FIELD'', JNull)" for i m
    by (simp add: resolve_checkpoint_def unwrap_value_def get_checkpoint_def)
  moreover have "ss_id (demo_spec gov) = 7" "nv_read_fails (demo_run_env dyn) = None" "nv_entry (demo_run_env dyn) = None"
    "nv_flush (demo_run_env dyn) = None" by (simp_all add: demo_spec_def demo_run_env_def)
  moreover have "sy_threads (demo_system w) = []" "sy_files (demo_system w) = []" "sy_checkpoints (demo_system w) = []" "sy_log (demo_system w) = []"
    "nv_lock (demo_run_env dyn) = None"
    by (simp_all add: demo_system_def demo_run_env_def)
  ultimately show ?thesis
    using assms demo_collects [where dyn = dyn and gov = gov and w = w and ctype = "u ''CUSTOM_FIELD''" and ck = JNull and ts = "[7]" and fs = "[7]"
      and rows = "[Log (u ''run_started'') None]" and ls = "[Log (u ''run_started'') None]"]
    by (simp add: run_def try_lock_def run_locked_def release_lock_def flush_pending_writes_def settle_def upsert_checkpoint_def
        split: option.splits prod.splits)
qed

lemma demo_pipeline:
  assumes p: "route_policy_stage working_db False False 7 5 10 [masked_event] [pii_finding] None [] [] [] gov None [] = (Inr (evs, pres, c), q1)"
    and d: "route_delivery_stage demo_rx pres evs
      (if ps_allowed pres then Some (deliver_single_route script_outside script_opts (delivery_stream (demo_spec gov)) 5 evs) else None)
      (lv_runner (demo_live w)) = (Inr d, rn1)"
  shows "\<exists>t lv2 sr. execute_route_pipeline (demo_run_env dyn) (demo_spec gov) script_opts [demo_event] (Some [pii_finding]) (demo_live w) =
      (Inr t, lv2) \<and> po_results t = [sr] \<and> sr_delivery sr = d \<and> sr_route sr = 5 \<and>
      po_delivery_events t = (if dv_disposition d = Delivered \<and> dv_success d = Some True then evs else []) \<and>
      po_checkpoint_events t = (if dv_disposition d = Delivered \<and> dv_success d = Some True \<and> evs \<noteq> [] then [demo_event] else []) \<and>
      rn_calls (lv_runner lv2) = rn_calls rn1 \<and> rn_world (lv_runner lv2) = rn_world rn1 \<and> rn_dedup (lv_runner lv2) = rn_dedup rn1"
proof -
  let ?sp = "demo_spec gov" and ?b = "build_shared_batch_context (demo_spec gov) [demo_event] (Some [pii_finding]) None"
  let ?send = "\<lambda>rx. deliver_single_route script_outside script_opts (delivery_stream ?sp) (rx_route rx)"
  let ?s = "\<lparr>pp_batch = ?b, pp_vault = lv_vault (demo_live w), pp_quarantine = lv_quarantine (demo_live w), pp_runner = lv_runner (demo_live w)\<rparr>"
  obtain m where m: "build_route_runtime_contexts ?sp = Inr ([demo_rx], m)" using demo_contexts by blast
  have b: "bx_events ?b = [demo_event]" "bx_transforms ?b = []" "bx_protect ?b = demo_batch" "bx_protection_rules ?b = []"
    "bx_overrides ?b = []" "bx_policy_rules ?b = []" "bx_drift ?b = None" "bx_findings ?b = [pii_finding]" "bx_governance ?b = gov"
    by (simp_all add: build_shared_batch_context_def demo_spec_def demo_batch_def)
  have rx: "rx_route demo_rx = 5" "rx_enabled demo_rx" by (simp_all add: demo_rx_def)
  have v: "lv_vault (demo_live w) = demo_vault" "lv_quarantine (demo_live w) = []" by (simp_all add: demo_live_def)
  have "\<exists>sr s'. process_route_pipeline demo_pipeline_env False (Some ?send) demo_rx ?s = (Inr sr, s') \<and> sr_delivery sr = d \<and>
     sr_policy sr = pres \<and> sr_route sr = 5 \<and> sr_checkpoint sr = [demo_event] \<and>
     sr_events sr = (if dv_success d = Some True then evs else []) \<and> pp_runner s' = rn1 \<and> pp_quarantine s' = q1"
    by (rule demo_route_run) (use b v p d rx in \<open>simp_all split: if_splits\<close>)
  then obtain sr s' where r: "process_route_pipeline demo_pipeline_env False (Some ?send) demo_rx ?s = (Inr sr, s')"
    "sr_delivery sr = d" "sr_route sr = 5" "sr_checkpoint sr = [demo_event]"
    "sr_events sr = (if dv_success d = Some True then evs else [])" "pp_runner s' = rn1" by blast
  have e: "nv_pipe (demo_run_env dyn) = demo_pipeline_env" "nv_outside (demo_run_env dyn) = script_outside"
    by (simp_all add: demo_run_env_def)
  have dr: "(if c then None else nv_drift (demo_run_env dyn) es f) = None" for c es f by (simp add: demo_run_env_def)
  show ?thesis using m r rx
    by (simp add: execute_route_pipeline_def e dr Let_def process_routes_def account_route_def really_delivered_def log_stage_def add_log_def)
qed

lemma blocked_policy:
  "\<exists>pres c. route_policy_stage q own preview sid rid did evs f level [] [] [] [[(u ''default_delivery_behavior'', JStr (u ''block''))]] None store =
     (Inr ([], pres, c), store) \<and> ps_decision pres = Block \<and> \<not> ps_allowed pres"
proof -
  have "normalize_delivery_behavior (JStr (u ''block'')) = Some Block_Delivery"
    by (simp add: normalize_delivery_behavior_def DELIVERY_BEHAVIOR_ALIASES_def py_str_def strip_def lower_def
        ch_lower_def is_space_def u_def)
  then have "\<exists>c. resolve_route_policy_config rid [] [] [] [[(u ''default_delivery_behavior'', JStr (u ''block''))]] None = Inr c \<and>
      pc_rules c = [] \<and> pc_behavior c = Some Block_Delivery \<and> \<not> pc_drift_review c \<and> \<not> pc_drift_quarantine c"
    by (simp add: resolve_route_policy_config_def resolve_effective_delivery_behavior_def
      extract_route_override_delivery_behavior_def extract_stream_default_delivery_behavior_def pick_most_restrictive_def
      derive_drift_gates_def map_filter_simps is_enabled_def dget_default_def truthy_def dget_none_def
      behavior_precedence_def)
  then obtain c where c: "resolve_route_policy_config rid [] [] [] [[(u ''default_delivery_behavior'', JStr (u ''block''))]] None = Inr c"
    "pc_rules c = []" "pc_behavior c = Some Block_Delivery" "\<not> pc_drift_review c" "\<not> pc_drift_quarantine c" by blast
  have "\<exists>reason. merge_route_policy_decision (evaluate_route_policy c evs f) c = (Block, reason)"
    using c(2-5)
    by (simp add: merge_route_policy_decision_def decision_candidates_def evaluate_route_policy_def
      evaluate_injected_policy_batch_def matched_quarantine_evaluations_def audit_matches_def no_policy_def pick_strongest_def
      decision_precedence_def Let_def)
  with c(1) show ?thesis
    by (auto simp: route_policy_stage_def policy_outcome_def delivery_allowed_for_decision_def)
qed

lemma quiet_policy_findings:
  "\<exists>pres c. route_policy_stage q own preview sid rid did evs f level [] [] [] [] None store = (Inr (evs, pres, c), store) \<and>
     ps_allowed pres"
  by (simp add: route_policy_stage_def resolve_route_policy_config_def resolve_effective_delivery_behavior_def
      extract_route_override_delivery_behavior_def extract_stream_default_delivery_behavior_def derive_drift_gates_def
      merge_route_policy_decision_def decision_candidates_def evaluate_route_policy_def policy_config_empty_def
      pick_most_restrictive_def matched_quarantine_evaluations_def audit_matches_def no_policy_def
      policy_outcome_def delivery_allowed_for_decision_def pick_strongest_def Let_def)

lemma demo_outcome:
  assumes "po_results t = [sr]" "dv_allowed (sr_delivery sr)" "dv_skip (sr_delivery sr) = None" "dv_success (sr_delivery sr) = Some True"
  shows "fn_successful (route_delivery_fan_out_outcome (po_results t) ref) = copy_events ref"
  using assms by (simp add: route_delivery_fan_out_outcome_def tally_route_def tally_failover_def no_tally_def Let_def)

lemma demo_bindings: "bindings_or_none (nv_outside (demo_run_env dyn)) (ss_id (demo_spec gov)) w = []"
  by (simp add: bindings_or_none_def load_failover_bindings_by_primary_def demo_run_env_def script_outside_def demo_spec_def)

lemma demo_delivered:
  "\<exists>su sy' c v. run (demo_run_env []) (demo_spec []) script_opts JNull (demo_system [None]) = (Inr su, sy') \<and>
     sy_calls sy' = [(c, None)] \<and> sc_events c = [masked_event] \<and> sy_checkpoints sy' = [(7, u ''CUSTOM_FIELD'', JDict v)]"
proof -
  obtain pres c where g: "route_policy_stage working_db False False 7 5 10 [masked_event] [pii_finding] None [] [] [] [] None [] =
      (Inr ([masked_event], pres, c), [])" "ps_allowed pres" using quiet_policy_findings by blast
  have f: "find (\<lambda>r. rt_id r = 5) (sm_routes (delivery_stream (demo_spec []))) = Some (script_route (u ''LOG_AND_CONTINUE''))"
    "rn_world (lv_runner (demo_live [None])) = [None]" "rn_dedup (lv_runner (demo_live [None])) = None" "rn_calls (lv_runner (demo_live [None])) = []"
    by (simp_all add: delivery_stream_def demo_spec_def script_route_def demo_live_def)
  obtain out rn k where d: "deliver_single_route script_outside script_opts (delivery_stream (demo_spec [])) 5
      [masked_event] (lv_runner (demo_live [None])) = (Inr out, rn)" "so_success out" "\<not> so_rate_limited out" "\<not> so_dest_disabled out"
      "rn_calls rn = [(k, None)]" "sc_events k = [masked_event]" "rn_world rn = []" "rn_dedup rn = None"
    using script_accepts [OF f(1-3), of script_opts "[masked_event]"] f(4) by auto
  let ?d = "sent_result demo_rx pres 1 out"
  have "route_delivery_stage demo_rx pres [masked_event]
      (if ps_allowed pres then Some (deliver_single_route script_outside script_opts (delivery_stream (demo_spec [])) 5 [masked_event]) else None)
      (lv_runner (demo_live [None])) = (Inr ?d, rn)"
    using d g by (simp add: route_delivery_stage_def demo_rx_def)
  from demo_pipeline [OF g(1) this] obtain t lv2 sr where
    t: "execute_route_pipeline (demo_run_env []) (demo_spec []) script_opts [demo_event] (Some [pii_finding]) (demo_live [None]) = (Inr t, lv2)"
      "po_results t = [sr]" "sr_delivery sr = ?d"
      "po_delivery_events t = (if dv_disposition ?d = Delivered \<and> dv_success ?d = Some True then [masked_event] else [])"
      "po_checkpoint_events t = (if dv_disposition ?d = Delivered \<and> dv_success ?d = Some True \<and> [masked_event] \<noteq> [] then [demo_event] else [])"
      "rn_calls (lv_runner lv2) = [(k, None)]" "rn_dedup (lv_runner lv2) = None" using d by metis
  have sr: "dv_success ?d = Some True" "dv_disposition ?d = Delivered" "dv_allowed ?d" "dv_skip ?d = None"
    using d g by (simp_all add: sent_result_def unsent_result_def)
  have cp: "copy_events [demo_event] = [demo_event]" by (simp add: copy_events_def demo_event_def is_dict_def)
  have "evaluate_dynamic_routes (demo_run_env []) (demo_spec []) [masked_event] (Some [pii_finding]) w = Some []" for w
    by (simp add: evaluate_dynamic_routes_def evaluate_batch_def demo_run_env_def)
  then have "\<exists>su v lv3. deliver_and_checkpoint (demo_run_env []) (demo_spec []) script_opts (u ''CUSTOM_FIELD'') [demo_event] (Some [pii_finding]) t lv2 =
     (Inr (su, Some (u ''CUSTOM_FIELD'', v)), lv3) \<and> rn_calls (lv_runner lv3) = [(k, None)]"
    using t sr demo_outcome [OF t(2)] cp
    by (simp add: deliver_and_checkpoint_def fan_out_dynamic_def demo_bindings deliver_dynamic_routes_def log_stage_def add_log_def
        finalize_dedup_def script_opts_def Let_def)
  then obtain su v lv3 where "deliver_and_checkpoint (demo_run_env []) (demo_spec []) script_opts (u ''CUSTOM_FIELD'') [demo_event] (Some [pii_finding]) t lv2 =
     (Inr (su, Some (u ''CUSTOM_FIELD'', v)), lv3)" "rn_calls (lv_runner lv3) = [(k, None)]" by blast
  from demo_run_result [OF t(1) this(1)] this(2) d show ?thesis by auto
qed

theorem checkpoint_only_after_delivery_witness:
  "\<exists>su sy'. run (demo_run_env []) (demo_spec []) script_opts JNull (demo_system [None]) = (Inr su, sy') \<and>
     su_checkpoint_updated su \<and> su_committed su \<and> (\<exists>c. sy_calls sy' = [(c, None)] \<and> sc_events c = [masked_event])"
proof -
  obtain su sy' c v where r: "run (demo_run_env []) (demo_spec []) script_opts JNull (demo_system [None]) = (Inr su, sy')"
     "sy_calls sy' = [(c, None)]" "sc_events c = [masked_event]" "sy_checkpoints sy' = [(7, u ''CUSTOM_FIELD'', JDict v)]"
    using demo_delivered by blast
  have "dget (sy_checkpoints sy') 7 \<noteq> dget (sy_checkpoints (demo_system [None])) 7" using r by (simp add: demo_system_def)
  moreover have "distinct (map (rt_id \<circ> fst) (ss_routes (demo_spec [])))" by (simp add: demo_spec_def)
  ultimately show ?thesis using checkpoint_only_after_delivery [OF r(1)] r(1-3) by blast
qed


theorem dry_run_delivers_nothing_witness:
  "let (r, sy') = run (demo_run_env []) (demo_spec []) (script_opts\<lparr>ro_dry_run := True\<rparr>) JNull (demo_system [None])
   in sy_calls sy' = [] \<and> sy_checkpoints sy' = []"
  using dry_run_delivers_nothing [where env = "demo_run_env []" and sp = "demo_spec []" and opts = "script_opts\<lparr>ro_dry_run := True\<rparr>"
      and rc = JNull and sy = "demo_system [None]"]
  by (simp add: demo_system_def split_beta prod_eq_iff)

definition demo_dynamic :: dynamic_rule where
  "demo_dynamic = \<lparr>dy_id = 1, dy_stream = 7, dy_enabled = True,
     dy_condition = JDict [(u ''sensitivity_class'', JStr (u ''pii''))], dy_dest = 30\<rparr>"

definition demo_match :: dynamic_match where
  "demo_match = \<lparr>dm_route = 1, dm_dest = 30, dm_enabled = True, dm_rate = [], dm_type = upper (strip (u ''WEBHOOK_POST'')),
     dm_config = [], dm_name = u ''standby''\<rparr>"

lemma demo_condition: "condition_matches (dy_condition demo_dynamic) (finding_classes [pii_finding]) ls"
proof -
  have "py_str (JStr x) = x" for x by (simp add: py_str_def)
  then show ?thesis by (simp add: condition_matches_def demo_dynamic_def pii_finding_def dget_none_def SUPPORTED_CLASSES_def u_def)
qed

lemma demo_dynamic_match:
  "evaluate_dynamic_routes (demo_run_env [demo_dynamic]) (demo_spec gov) [demo_event] (Some [pii_finding]) w = Some [demo_match]"
proof -
  have "condition_matches (dy_condition demo_dynamic) (finding_classes [pii_finding]) ls" for ls by (rule demo_condition)
  then show ?thesis
    by (simp add: evaluate_dynamic_routes_def evaluate_batch_def demo_run_env_def demo_spec_def demo_dynamic_def demo_match_def
        script_outside_def Let_def)
qed

text \<open>
  Dynamic routes are fed the raw events when no route delivered.  The only route of this stream masks \<open>$.a\<close>, and
  the delivery behaviour of the stream blocks everything; the dynamic rule sends sensitive data to destination
  30.  The single call of the run carries the event as it was extracted, unmasked, and the run reports the withheld route.
\<close>

lemma dynamic_routes_get_raw_events:
  "\<exists>su sy' c. run (demo_run_env [demo_dynamic]) (demo_spec [[(u ''default_delivery_behavior'', JStr (u ''block''))]]) script_opts JNull
       (demo_system [None]) = (Inr su, sy') \<and>
     sy_calls sy' = [(c, None)] \<and> sc_events c = [demo_event] \<and> su_withheld su = [5]"
proof -
  let ?gov = "[[(u ''default_delivery_behavior'', JStr (u ''block''))]]"
  let ?env = "demo_run_env [demo_dynamic]"
  obtain pres c where g: "route_policy_stage working_db False False 7 5 10 [masked_event] [pii_finding] None [] [] [] ?gov None [] =
      (Inr ([], pres, c), [])" "ps_decision pres = Block" "\<not> ps_allowed pres" using blocked_policy by blast
  let ?l = "demo_live [None]"
  let ?d = "unsent_result demo_rx pres 0 (resolve_delivery_disposition pres False) None (skip_reason_for_decision Block)"
  have "route_delivery_stage demo_rx pres []
      (if ps_allowed pres then Some (deliver_single_route script_outside script_opts (delivery_stream (demo_spec ?gov)) 5 []) else None)
      (lv_runner ?l) = (Inr ?d, lv_runner ?l)"
    using g by (simp add: route_delivery_stage_def demo_rx_def)
  from demo_pipeline [OF g(1) this, where dyn = "[demo_dynamic]"] obtain t lv2 sr where
    t: "execute_route_pipeline ?env (demo_spec ?gov) script_opts [demo_event] (Some [pii_finding]) ?l = (Inr t, lv2)"
      "po_results t = [sr]" "sr_delivery sr = ?d" "sr_route sr = 5" "po_delivery_events t = []" "po_checkpoint_events t = []"
      "rn_calls (lv_runner lv2) = []" "rn_world (lv_runner lv2) = [None]" "rn_dedup (lv_runner lv2) = None"
    by (auto simp: demo_live_def)
  have ids: "List.map_filter (\<lambda>rr. dn_id (rt_dest (fst rr))) (ss_routes (demo_spec ?gov)) = [10]" "nv_outside ?env = script_outside"
    by (simp_all add: demo_spec_def script_route_def map_filter_simps demo_run_env_def)
  have m: "dm_dest demo_match = 30" "dm_enabled demo_match" "dm_rate demo_match = []" by (simp_all add: demo_match_def)
  have lim: "limiter_allows script_outside k [] rn = (Inr True, rn)" for k and rn :: "(send_exc option list) runner"
    by (simp add: limiter_allows_def destination_allow_def read_limit_def)
  have send: "send_to_destination script_outside c rn = (None, rn\<lparr>rn_world := [], rn_calls := rn_calls rn @ [(c, None)]\<rparr>)"
    if "rn_world rn = [None]" for c and rn :: "(send_exc option list) runner"
    using that by (simp add: send_to_destination_def script_outside_def)
  have "\<not> dv_allowed ?d" "\<not> dv_fo_attempted ?d" using g by (simp_all add: unsent_result_def)
  then have "\<exists>su ck lv3. deliver_and_checkpoint ?env (demo_spec ?gov) script_opts (u ''CUSTOM_FIELD'') [demo_event] (Some [pii_finding]) t lv2 =
     (Inr (su, ck), lv3) \<and> rn_calls (lv_runner lv3) = [(dynamic_call (delivery_stream (demo_spec ?gov)) demo_match [demo_event], None)] \<and>
     su_withheld su = [5]"
    using t ids lim send [of "lv_runner lv2"] m demo_bindings [where dyn = "[demo_dynamic]" and gov = ?gov, unfolded ids(2)]
    by (simp add: deliver_and_checkpoint_def fan_out_dynamic_def demo_bindings demo_dynamic_match deliver_dynamic_routes_def log_stage_def add_log_def
        finalize_dedup_def route_delivery_fan_out_outcome_def tally_route_def tally_failover_def no_tally_def Let_def)
  then obtain su ck lv3 where "deliver_and_checkpoint ?env (demo_spec ?gov) script_opts (u ''CUSTOM_FIELD'') [demo_event] (Some [pii_finding]) t lv2 =
     (Inr (su, ck), lv3)" "rn_calls (lv_runner lv3) = [(dynamic_call (delivery_stream (demo_spec ?gov)) demo_match [demo_event], None)]"
     "su_withheld su = [5]" by blast
  with demo_run_result [OF t(1) this(1)] show ?thesis by (auto simp: dynamic_call_def)
qed

text \<open>
  A malformed rate limit of a dynamic destination fails the whole run.  When the first dynamic match
  is an enabled destination that no route and no failover serves and its rate limit cannot be read, the run raises after
  the routes have delivered, whatever they report, so that no checkpoint is written.
\<close>

lemma dynamic_limit_aborts_run:
  assumes "evaluate_dynamic_routes env sp (if po_delivery_events t \<noteq> [] then po_delivery_events t else events) findings
      (rn_world (lv_runner lv)) = Some (m # ms)"
    and "dm_enabled m" "dm_dest m \<notin> set (List.map_filter (\<lambda>rr. dn_id (rt_dest (fst rr))) (ss_routes sp))"
      "dm_dest m \<notin> (fb_secondary \<circ> snd) ` set (bindings_or_none (nv_outside env) (ss_id sp) (rn_world (lv_runner lv)))"
    and "read_limit (dm_rate m) = Inl e"
  shows "deliver_and_checkpoint env sp opts ctype events findings t lv = (Inl (StageFailure e), lv)"
proof -
  let ?evs = "if po_delivery_events t \<noteq> [] then po_delivery_events t else events"
  have "?evs \<noteq> []" using assms(1) by (auto simp: evaluate_dynamic_routes_def)
  then have "deliver_dynamic_routes (nv_outside env) opts (delivery_stream sp) ?evs (m # ms)
      (List.map_filter (\<lambda>rr. dn_id (rt_dest (fst rr))) (ss_routes sp) @
       map (fb_secondary \<circ> snd) (bindings_or_none (nv_outside env) (ss_id sp) (rn_world (lv_runner lv)))) (lv_runner lv) =
     (Inl e, lv_runner lv)"
    using assms(2-5) by (simp add: deliver_dynamic_routes_def limiter_allows_def destination_allow_def)
  with assms(1) show ?thesis by (simp add: deliver_and_checkpoint_def fan_out_dynamic_def Let_def del: if_not_P if_P split del: if_split)
qed

text \<open>A destination whose limit is not a number.\<close>

definition odd_rate :: dict where
  "odd_rate = [(u ''max_events'', JList [])]"

definition odd_env :: "(send_exc option list) run_env" where
  "odd_env = demo_run_env [demo_dynamic]\<lparr>nv_outside := script_outside\<lparr>ow_destination := (\<lambda>i w. Some \<lparr>dn_id = Some i,
     dn_name = u ''standby'', dn_type = u ''WEBHOOK_POST'', dn_enabled = True, dn_config = [], dn_rate = odd_rate\<rparr>)\<rparr>\<rparr>"

lemma dynamic_limit_aborts_run_witness:
  "\<exists>e. deliver_and_checkpoint odd_env (demo_spec []) script_opts (u ''CUSTOM_FIELD'') [demo_event] (Some [pii_finding])
     \<lparr>po_results = [], po_metrics = no_metrics 0 0, po_checkpoint_events = [], po_delivery_events = [masked_event]\<rparr> (demo_live []) =
     (Inl (StageFailure e), demo_live [])"
proof -
  let ?t = "\<lparr>po_results = [], po_metrics = no_metrics 0 0, po_checkpoint_events = [], po_delivery_events = [masked_event]\<rparr>"
  have "condition_matches (dy_condition demo_dynamic) (finding_classes [pii_finding]) ls" for ls by (rule demo_condition)
  then have m: "evaluate_dynamic_routes odd_env (demo_spec []) [masked_event] (Some [pii_finding]) w =
      Some [demo_match\<lparr>dm_rate := odd_rate\<rparr>]" for w
    by (simp add: odd_env_def evaluate_dynamic_routes_def evaluate_batch_def demo_run_env_def demo_spec_def demo_dynamic_def demo_match_def
        script_outside_def Let_def)
  have b: "bindings_or_none (nv_outside odd_env) (ss_id (demo_spec [])) w = []" for w
    by (simp add: odd_env_def bindings_or_none_def load_failover_bindings_by_primary_def script_outside_def demo_spec_def)
  have "\<exists>e. read_limit odd_rate = Inl e"
    by (simp add: read_limit_def odd_rate_def dget_default_def py_int_def)
  then obtain e where "read_limit (dm_rate (demo_match\<lparr>dm_rate := odd_rate\<rparr>)) = Inl e" by auto
  from dynamic_limit_aborts_run [where env = odd_env and t = ?t, OF _ _ _ _ this, where events = "[demo_event]" and sp = "demo_spec []"]
  show ?thesis using m b by (auto simp: demo_match_def demo_spec_def script_route_def map_filter_simps)
qed

end
