(* ===== verification/Pass_Through.thy ===== *)
theory Pass_Through
  imports Event_Extract
begin

text \<open>
  Unknown-field pass-through of the basic mapping: \<^verbatim>\<open>app/mappers/pass_through.py\<close>.  The values a mapping
  consumes are removed from a copy of the event, containers that lie above a consumed value and are empty
  afterwards go with them, and what is left is merged below the mapped output.  The evaluation of a JSONPath is an
  argument: its matches with the atoms of their full paths.  The code remembers affected containers by their
  object identity; the model marks them in the tree.
\<close>

section \<open>JSONPath matches\<close>

datatype jatom = Fields_One ustr | Index_One int | Index_Odd | Other_Atom ustr

datatype jtok = TKey ustr | TIdx nat

text \<open>\<open>jp_error\<close> is the complaint of the parser, if any; \<open>jp_matches\<close> the matches of an expression that parses.\<close>

record jsonpath_env =
  jp_error :: "ustr \<Rightarrow> ustr option"
  jp_matches :: "ustr \<Rightarrow> json \<Rightarrow> (json \<times> jatom list) list result"

definition normalize_jsonpath :: "ustr \<Rightarrow> ustr" where
  "normalize_jsonpath path = (let s = strip path in if s = [] then u ''$'' else s)"

definition compile_jsonpath :: "jsonpath_env \<Rightarrow> ustr \<Rightarrow> stage_exc + ustr" where
  "compile_jsonpath jp path = (let p = normalize_jsonpath path in
     case jp_error jp p of
       Some msg \<Rightarrow> Inl (ParserError (u ''Invalid JSONPath expression: '' @ repr_str p @ u '' ('' @ msg @ u '')''))
     | None \<Rightarrow> Inr p)"

definition find_matches_compiled :: "jsonpath_env \<Rightarrow> ustr \<Rightarrow> json \<Rightarrow> stage_exc + (json \<times> jatom list) list" where
  "find_matches_compiled jp p data = (case jp_matches jp p data of
     Inl (IndexError _) \<Rightarrow> Inr []
   | Inl e \<Rightarrow> Inl (StageFailure e)
   | Inr ms \<Rightarrow> Inr ms)"

definition extract_one_compiled :: "jsonpath_env \<Rightarrow> ustr \<Rightarrow> json \<Rightarrow> stage_exc + json" where
  "extract_one_compiled jp p data =
     (if \<not> is_dict data then Inl (MappingError (u ''extract_one_compiled requires root data to be a dict''))
      else case find_matches_compiled jp p data of
        Inl x \<Rightarrow> Inl x | Inr [] \<Rightarrow> Inr JNull | Inr (m # _) \<Rightarrow> Inr (fst m))"

definition find_values :: "jsonpath_env \<Rightarrow> json \<Rightarrow> ustr \<Rightarrow> stage_exc + json list" where
  "find_values jp data path = (case compile_jsonpath jp path of
     Inl x \<Rightarrow> Inl x
   | Inr p \<Rightarrow> (case find_matches_compiled jp p data of Inl x \<Rightarrow> Inl x | Inr ms \<Rightarrow> Inr (map fst ms)))"

definition extract_one :: "jsonpath_env \<Rightarrow> json \<Rightarrow> ustr \<Rightarrow> stage_exc + json" where
  "extract_one jp data path =
     (if \<not> is_dict data then Inl (MappingError (u ''extract_one requires root data to be a dict''))
      else if normalize_jsonpath path = u ''$'' then Inr data
      else case find_values jp data (normalize_jsonpath path) of
        Inl x \<Rightarrow> Inl x | Inr [] \<Rightarrow> Inr JNull | Inr (v # _) \<Rightarrow> Inr v)"

section \<open>Selected paths\<close>

definition maps_whole_event :: "ustr list \<Rightarrow> bool" where
  "maps_whole_event paths \<longleftrightarrow> (\<exists>p \<in> set paths. strip p = u ''$'' \<or> strip p = [])"

fun concrete_tokens :: "json \<Rightarrow> jatom list \<Rightarrow> jtok list result" where
  "concrete_tokens node [] = Inr []"
| "concrete_tokens node (Fields_One k # as) = (case node of
     JDict d \<Rightarrow> (case dget d k of
       Some v \<Rightarrow> rbind (concrete_tokens v as) (\<lambda>ts. Inr (TKey k # ts))
     | None \<Rightarrow> Inl (ValueError (u ''JSONPath materialized field was not found'')))
   | _ \<Rightarrow> Inl (ValueError (u ''JSONPath materialized field was not found'')))"
| "concrete_tokens node (Index_One i # as) = (case node of
     JList xs \<Rightarrow>
       (let j = (if i \<ge> 0 then i else int (length xs) + i)
        in if 0 \<le> j \<and> j < int (length xs)
           then rbind (concrete_tokens (xs ! nat j) as) (\<lambda>ts. Inr (TIdx (nat j) # ts))
           else Inl (ValueError (u ''JSONPath materialized index is out of bounds'')))
   | _ \<Rightarrow> Inl (ValueError (u ''JSONPath materialized index is not an array'')))"
| "concrete_tokens node (Index_Odd # as) = Inl (ValueError (u ''A JSONPath concrete index must be numeric''))"
| "concrete_tokens node (Other_Atom name # as) = Inl (ValueError (u ''Not an unambiguous concrete JSONPath: '' @ name))"

fun selected_concrete_paths :: "jsonpath_env \<Rightarrow> json \<Rightarrow> ustr list \<Rightarrow> jtok list list \<Rightarrow> stage_exc + jtok list list" where
  "selected_concrete_paths jp event [] sel = Inr sel"
| "selected_concrete_paths jp event (path # paths) sel = (case compile_jsonpath jp path of
     Inl x \<Rightarrow> Inl x
   | Inr p \<Rightarrow> (case find_matches_compiled jp p event of
       Inl x \<Rightarrow> Inl x
     | Inr [] \<Rightarrow> selected_concrete_paths jp event paths sel
     | Inr (m # _) \<Rightarrow> (case concrete_tokens event (snd m) of
         Inl e \<Rightarrow> Inl (StageFailure e)
       | Inr ts \<Rightarrow> selected_concrete_paths jp event paths (List.insert ts sel))))"

section \<open>Removal in place\<close>

datatype mnode = MLeaf json | MDict bool "(ustr \<times> mnode) list" | MList bool "mnode list"

fun mtree :: "json \<Rightarrow> mnode" where
  "mtree (JDict d) = MDict False (map (\<lambda>(k, v). (k, mtree v)) d)"
| "mtree (JList xs) = MList False (map mtree xs)"
| "mtree v = MLeaf v"

fun plain :: "mnode \<Rightarrow> json" where
  "plain (MLeaf v) = v"
| "plain (MDict m d) = JDict (map (\<lambda>(k, c). (k, plain c)) d)"
| "plain (MList m xs) = JList (map plain xs)"

fun set_mark :: "mnode \<Rightarrow> mnode" where
  "set_mark (MLeaf v) = MLeaf v"
| "set_mark (MDict m d) = MDict True d"
| "set_mark (MList m xs) = MList True xs"

text \<open>The container a token leads into, changed by \<open>f\<close>.\<close>

fun at_token :: "jtok \<Rightarrow> (mnode \<Rightarrow> mnode) \<Rightarrow> mnode \<Rightarrow> mnode" where
  "at_token (TKey k) f (MDict m d) = MDict m (map (\<lambda>(j, c). (j, if j = k then f c else c)) d)"
| "at_token (TIdx i) f (MList m xs) = (if i < length xs then MList m (xs[i := f (xs ! i)]) else MList m xs)"
| "at_token t f n = n"

fun mark_path :: "jtok list \<Rightarrow> mnode \<Rightarrow> mnode" where
  "mark_path (t # t' # ts) n = at_token t (\<lambda>c. mark_path (t' # ts) (set_mark c)) n"
| "mark_path ts n = n"

fun pop_token :: "jtok \<Rightarrow> mnode \<Rightarrow> mnode" where
  "pop_token (TKey k) (MDict m d) = MDict m (ddel k d)"
| "pop_token (TIdx i) (MList m xs) = MList m (take i xs @ drop (Suc i) xs)"
| "pop_token t n = n"

fun remove_concrete_path :: "jtok list \<Rightarrow> mnode \<Rightarrow> mnode" where
  "remove_concrete_path [] n = (case n of MDict m d \<Rightarrow> MDict m [] | _ \<Rightarrow> n)"
| "remove_concrete_path [t] n = pop_token t n"
| "remove_concrete_path (t # ts) n = at_token t (remove_concrete_path ts) n"

text \<open>The order of removal: longer paths first, then by token, keys before indexes, greatest first.\<close>

fun tok_less :: "jtok \<Rightarrow> jtok \<Rightarrow> bool" where
  "tok_less (TKey a) (TKey b) = (a < b)"
| "tok_less (TKey a) (TIdx j) = True"
| "tok_less (TIdx i) (TKey b) = False"
| "tok_less (TIdx i) (TIdx j) = (i < j)"

instantiation jtok :: linorder
begin

definition less_jtok :: "jtok \<Rightarrow> jtok \<Rightarrow> bool" where
  "less_jtok s t \<longleftrightarrow> tok_less s t"

definition less_eq_jtok :: "jtok \<Rightarrow> jtok \<Rightarrow> bool" where
  "less_eq_jtok s t \<longleftrightarrow> s = t \<or> tok_less s t"

instance
proof
  fix s t r :: jtok
  show "(s < t) = (s \<le> t \<and> \<not> t \<le> s)" by (cases s; cases t) (auto simp: less_jtok_def less_eq_jtok_def)
  show "s \<le> s" by (simp add: less_eq_jtok_def)
  show "s \<le> t \<Longrightarrow> t \<le> r \<Longrightarrow> s \<le> r" by (cases s; cases t; cases r) (auto simp: less_eq_jtok_def)
  show "s \<le> t \<Longrightarrow> t \<le> s \<Longrightarrow> s = t" by (cases s; cases t) (auto simp: less_eq_jtok_def)
  show "s \<le> t \<or> t \<le> s" by (cases s; cases t) (auto simp: less_eq_jtok_def)
qed

end

definition removal_order :: "jtok list list \<Rightarrow> jtok list list" where
  "removal_order sel = rev (sort_key length (sort sel))"

definition dead :: "mnode \<Rightarrow> bool" where
  "dead n \<longleftrightarrow> n = MDict True [] \<or> n = MList True []"

fun prune_only_affected :: "mnode \<Rightarrow> mnode" where
  "prune_only_affected (MLeaf v) = MLeaf v"
| "prune_only_affected (MDict m d) = MDict m (filter (\<lambda>(k, c). \<not> dead c) (map (\<lambda>(k, c). (k, prune_only_affected c)) d))"
| "prune_only_affected (MList m xs) = MList m (filter (\<lambda>c. \<not> dead c) (map prune_only_affected xs))"

definition apply_selected_removals :: "json \<Rightarrow> jtok list list \<Rightarrow> json" where
  "apply_selected_removals v sel =
     (if sel = [] then v
      else if [] \<in> set sel then JDict []
      else plain (prune_only_affected
        (fold remove_concrete_path (removal_order sel) (fold mark_path sel (mtree v)))))"

section \<open>Merging\<close>

function merge_value :: "json \<Rightarrow> json \<Rightarrow> json"
  and merge_into :: "dict \<Rightarrow> dict \<Rightarrow> dict"
  and merge_arrays :: "json list \<Rightarrow> json list \<Rightarrow> json list" where
  "merge_value t s = (case (t, s) of
     (JDict a, JDict b) \<Rightarrow> JDict (merge_into a b)
   | (JList a, JList b) \<Rightarrow> JList (merge_arrays a b)
   | _ \<Rightarrow> t)"
| "merge_into t [] = t"
| "merge_into t ((k, v) # s) =
     merge_into (case dget t k of None \<Rightarrow> dset k v t | Some tv \<Rightarrow> dset k (merge_value tv v) t) s"
| "merge_arrays t [] = t"
| "merge_arrays [] (s # ss) = s # ss"
| "merge_arrays (t # ts) (s # ss) = merge_value t s # merge_arrays ts ss"
  by pat_completeness auto
termination
  by (relation "measure (\<lambda>x. case x of Inl (t, s) \<Rightarrow> 2 * size s | Inr (Inl (t, s)) \<Rightarrow> 2 * size_list (size_prod (\<lambda>_. 0) size) s + 1
        | Inr (Inr (t, s)) \<Rightarrow> 2 * size_list size s + 1)") auto

declare merge_value.simps [simp del]

lemma merge_value_simps [simp]:
  "merge_value (JDict a) (JDict b) = JDict (merge_into a b)"
  "merge_value (JList xs) (JList ys) = JList (merge_arrays xs ys)"
  by (simp_all add: merge_value.simps)

lemma merge_value_other:
  "\<not> (is_dict t \<and> is_dict s) \<Longrightarrow> \<not> (is_list t \<and> is_list s) \<Longrightarrow> merge_value t s = t"
  by (auto simp: merge_value.simps is_dict_def is_list_def split: json.splits)

definition deep_merge_pass_through :: "dict \<Rightarrow> dict \<Rightarrow> dict" where
  "deep_merge_pass_through output residual = merge_into output residual"

definition build_residual_after_mapping :: "jsonpath_env \<Rightarrow> json \<Rightarrow> ustr list \<Rightarrow> stage_exc + json" where
  "build_residual_after_mapping jp event paths = (case selected_concrete_paths jp event paths [] of
     Inl x \<Rightarrow> Inl x | Inr sel \<Rightarrow> Inr (apply_selected_removals event sel))"

definition merge_unknown_field_pass_through :: "jsonpath_env \<Rightarrow> json \<Rightarrow> dict \<Rightarrow> ustr list \<Rightarrow> stage_exc + dict" where
  "merge_unknown_field_pass_through jp event output paths =
     (if \<not> is_dict event then Inr output
      else if maps_whole_event paths then Inr output
      else case build_residual_after_mapping jp event paths of
        Inl x \<Rightarrow> Inl x
      | Inr residual \<Rightarrow> (case residual of
          JDict [] \<Rightarrow> Inr output
        | JDict r \<Rightarrow> Inr (deep_merge_pass_through output r)
        | _ \<Rightarrow> Inr output))"

section \<open>A reference definition of the residual\<close>

text \<open>
  \<open>below t S\<close> are the selected paths that continue under token \<open>t\<close>.  A child is kept unless it is selected itself, or it
  lies above a selection and nothing is left of it.
\<close>

definition below :: "jtok \<Rightarrow> jtok list list \<Rightarrow> jtok list list" where
  "below t S = map tl (filter (\<lambda>p. p \<noteq> [] \<and> hd p = t \<and> tl p \<noteq> []) S)"

definition empty_container :: "json \<Rightarrow> bool" where
  "empty_container v \<longleftrightarrow> v = JDict [] \<or> v = JList []"

lemma size_nth [termination_simp]: "i < length xs \<Longrightarrow> size (xs ! i :: json) < Suc (size_list size xs)"
  by (meson le_imp_less_Suc nth_mem order_refl size_list_estimation')

fun cut :: "jtok list list \<Rightarrow> json \<Rightarrow> json" where
  "cut S (JDict d) = JDict (concat (map (\<lambda>(k, v).
     if [TKey k] \<in> set S then []
     else let v' = cut (below (TKey k) S) v in if below (TKey k) S \<noteq> [] \<and> empty_container v' then [] else [(k, v')]) d))"
| "cut S (JList xs) = JList (concat (map (\<lambda>i.
     if [TIdx i] \<in> set S then []
     else let v' = cut (below (TIdx i) S) (xs ! i) in if below (TIdx i) S \<noteq> [] \<and> empty_container v' then [] else [v'])
     [0..<length xs]))"
| "cut S v = v"

lemma below_simps [simp]:
  "below t [] = []" "below t ([] # S) = below t S" "below t ([s] # S) = below t S"
  "below t ((s # s' # p) # S) = (if s = t then (s' # p) # below t S else below t S)"
  by (simp_all add: below_def)

lemma set_below: "p \<in> set (below t S) \<longleftrightarrow> p \<noteq> [] \<and> t # p \<in> set S"
  by (force simp: below_def)

section \<open>Marks\<close>

lemma set_mark_idem [simp]: "set_mark (set_mark c) = set_mark c"
  by (cases c) auto

lemma at_token_mark: "at_token t f (set_mark n) = set_mark (at_token t f n)"
  by (cases t; cases n) auto

lemma mark_path_mark: "mark_path p (set_mark n) = set_mark (mark_path p n)"
  by (cases p rule: remdups_adj.cases) (auto simp: at_token_mark)

lemma fold_mark_set_mark:
  "fold (\<lambda>p c. mark_path p (set_mark c)) L c = (if L = [] then c else set_mark (fold mark_path L c))"
proof (induction L arbitrary: c)
  case (Cons p L)
  have "fold mark_path L (set_mark n) = set_mark (fold mark_path L n)" for n
    by (induction L arbitrary: n) (simp_all add: mark_path_mark)
  with Cons show ?case by (simp add: mark_path_mark)
qed simp

lemma mark_leaf [simp]: "fold mark_path S (MLeaf v) = MLeaf v"
proof (induction S)
  case (Cons p S)
  then show ?case by (cases p rule: remdups_adj.cases) auto
qed simp

lemma mark_dict:
  "fold mark_path S (MDict m d) =
     MDict m (map (\<lambda>(k, c). (k, fold (\<lambda>p c. mark_path p (set_mark c)) (below (TKey k) S) c)) d)"
proof (induction S arbitrary: d)
  case (Cons p S)
  show ?case
  proof (cases p rule: remdups_adj.cases)
    case (3 t t' ts)
    then show ?thesis using Cons [of "case t of TKey k \<Rightarrow> map (\<lambda>(j, c). (j, if j = k then mark_path (t' # ts) (set_mark c) else c)) d | _ \<Rightarrow> d"]
      by (cases t) (auto simp: case_prod_beta comp_def)
  qed (use Cons in simp_all)
qed (auto simp: map_idI)

lemma mark_list:
  "fold mark_path S (MList m xs) =
     MList m (map (\<lambda>i. fold (\<lambda>p c. mark_path p (set_mark c)) (below (TIdx i) S) (xs ! i)) [0..<length xs])"
proof (induction S arbitrary: xs)
  case Nil
  then show ?case by (simp add: map_nth)
next
  case (Cons p S)
  show ?case
  proof (cases p rule: remdups_adj.cases)
    case (3 t t' ts)
    show ?thesis
    proof (cases t)
      case (TIdx j)
      with 3 Cons [of "xs[j := mark_path (t' # ts) (set_mark (xs ! j))]"] Cons [of xs] show ?thesis
        by (auto simp: nth_list_update intro!: map_cong)
    qed (use 3 Cons in simp)
  qed (use Cons in simp_all)
qed

section \<open>Removal\<close>

lemma remove_dict:
  "[] \<notin> set R \<Longrightarrow> fold remove_concrete_path R (MDict m d) =
     MDict m (map (\<lambda>(k, c). (k, fold remove_concrete_path (below (TKey k) R) c)) (filter (\<lambda>(k, c). [TKey k] \<notin> set R) d))"
proof (induction R arbitrary: d)
  case (Cons p R)
  show ?case
  proof (cases p rule: remdups_adj.cases)
    case (2 t)
    show ?thesis
    proof (cases t)
      case (TKey k)
      have "filter (\<lambda>(j, c). [TKey j] \<notin> set R) (ddel k d) = filter (\<lambda>(j, c). [TKey j] \<notin> set (p # R)) d"
        using 2 TKey by (auto simp: AList.delete_eq intro: filter_cong)
      then show ?thesis using 2 TKey Cons.IH [of "ddel k d"] Cons.prems by simp
    qed (use 2 Cons in simp)
  next
    case (3 t t' ts)
    show ?thesis
    proof (cases t)
      case (TKey k)
      let ?g = "\<lambda>x. (fst x, if fst x = k then remove_concrete_path (t' # ts) (snd x) else snd x)"
      have e: "fold remove_concrete_path (p # R) (MDict m d) = fold remove_concrete_path R (MDict m (map ?g d))"
        using 3 TKey by (simp add: case_prod_unfold)
      show ?thesis unfolding e using 3 TKey Cons.IH [of "map ?g d"] Cons.prems
        by (simp add: filter_map comp_def case_prod_unfold)
    qed (use 3 Cons in simp)
  qed (use Cons in simp)
qed (simp add: map_idI case_prod_beta)

text \<open>In a list the order matters: an index is removed after every path below the list and before every smaller index.\<close>

definition ordered :: "jtok list list \<Rightarrow> bool" where
  "ordered R \<longleftrightarrow> sorted_wrt (\<lambda>p q. length q < length p \<or> length q = length p \<and> q < p) R"

lemma ordered_Cons: "ordered (p # R) \<longleftrightarrow> (\<forall>q \<in> set R. length q < length p \<or> length q = length p \<and> q < p) \<and> ordered R"
  by (simp add: ordered_def)

lemma ordered_below: "ordered R \<Longrightarrow> ordered (below t R)"
proof (induction R)
  case (Cons p R)
  have IH: "ordered (below t R)" using Cons by (simp add: ordered_Cons)
  show ?case
  proof (cases p rule: remdups_adj.cases)
    case (3 s s' ps)
    have "length q < length (s' # ps) \<or> length q = length (s' # ps) \<and> q < s' # ps" if "q \<in> set (below t R)" "s = t" for q
    proof -
      have "t # q \<in> set R" using that by (simp add: set_below)
      with Cons.prems 3 that(2) show ?thesis by (auto simp: ordered_Cons Cons_less_Cons)
    qed
    with 3 IH show ?thesis by (auto simp: ordered_Cons)
  qed (use IH in simp_all)
qed simp

lemma remove_list:
  "[] \<notin> set R \<Longrightarrow> ordered R \<Longrightarrow> fold remove_concrete_path R (MList m xs) =
     MList m (map (\<lambda>i. fold remove_concrete_path (below (TIdx i) R) (xs ! i)) (filter (\<lambda>i. [TIdx i] \<notin> set R) [0..<length xs]))"
proof (induction R arbitrary: xs)
  case Nil
  then show ?case by (simp add: map_nth)
next
  case (Cons p R)
  have R: "[] \<notin> set R" "ordered R" using Cons.prems by (auto simp: ordered_Cons)
  show ?case
  proof (cases p rule: remdups_adj.cases)
    case (2 t)
    have one: "\<exists>s. q = [s] \<and> s < t" if "q \<in> set R" for q
      using Cons.prems 2 that by (cases q) (auto simp: ordered_Cons Cons_less_Cons)
    have nil: "below s R = []" for s using one by (metis list.distinct(1) list.sel(3) set_below set_empty2 equals0I)
    show ?thesis
    proof (cases t)
      case (TIdx j)
      have small: "[TIdx i] \<notin> set R" if "j \<le> i" for i using one [of "[TIdx i]"] that TIdx by (auto simp: less_jtok_def)
      show ?thesis
      proof (cases "j < length xs")
        case True
        let ?ys = "take j xs @ drop (Suc j) xs" and ?keep = "\<lambda>i. [TIdx i] \<notin> set R"
        have "[0..<length ?ys] = [0..<j] @ [j..<length xs - 1]" using True upt_add_eq_append [of 0 j "length xs - 1 - j"] by simp
        then have "map ((!) ?ys) (filter ?keep [0..<length ?ys]) = map ((!) ?ys) (filter ?keep [0..<j]) @ map ((!) ?ys) [j..<length xs - 1]"
          using small by (simp add: filter_id_conv)
        also have "map ((!) ?ys) (filter ?keep [0..<j]) = map ((!) xs) (filter ?keep [0..<j])"
          using True by (auto simp: nth_append)
        also have "map ((!) ?ys) [j..<length xs - 1] = map ((!) xs) [Suc j..<length xs]"
          using True by (intro nth_equalityI) (auto simp: nth_append)
        finally have *: "map ((!) ?ys) (filter ?keep [0..<length ?ys]) = map ((!) xs) (filter ?keep [0..<j] @ [Suc j..<length xs])" by simp
        have "filter (\<lambda>i. [TIdx i] \<notin> set (p # R)) [0..<length xs] = filter ?keep [0..<j] @ [Suc j..<length xs]"
        proof -
          have "[0..<length xs] = [0..<j] @ j # [Suc j..<length xs]" using True
            upt_add_eq_append [of 0 j "length xs - j"] upt_conv_Cons [of j "length xs"] by simp
          then show ?thesis using 2 TIdx small by (auto simp: filter_id_conv intro: filter_cong)
        qed
        with * show ?thesis using 2 TIdx Cons.IH [OF R, of ?ys] by (simp add: nil)
      next
        case False
        then have "filter (\<lambda>i. [TIdx i] \<notin> set (p # R)) [0..<length xs] = filter (\<lambda>i. [TIdx i] \<notin> set R) [0..<length xs]"
          using 2 TIdx by (auto intro!: filter_cong)
        then show ?thesis using 2 TIdx False Cons.IH [OF R, of xs] by (simp add: nil)
      qed
    qed (use 2 Cons.IH [OF R] in simp)
  next
    case (3 t t' ts)
    show ?thesis
    proof (cases t)
      case (TIdx j)
      with 3 Cons.IH [OF R, of "xs[j := remove_concrete_path (t' # ts) (xs ! j)]"] Cons.IH [OF R, of xs] show ?thesis
        by (auto simp: nth_list_update intro!: map_cong)
    qed (use 3 Cons.IH [OF R] in simp)
  qed (use Cons.prems in simp)
qed

lemma insort_ordered:
  assumes "sorted_wrt (\<lambda>p q. length p < length q \<or> length p = length q \<and> p < (q :: jtok list)) L" "\<forall>y \<in> set L. x < y"
  shows "sorted_wrt (\<lambda>p q. length p < length q \<or> length p = length q \<and> p < q) (insort_key length x L)"
  using assms by (induction L) (fastforce simp: set_insort_key)+

lemma removal_order_ordered:
  assumes "distinct S"
  shows "ordered (removal_order S)"
proof -
  have "sorted_wrt (\<lambda>p q. length p < length q \<or> length p = length q \<and> p < q) (sort_key length L)"
    if "sorted_wrt (<) L" for L :: "jtok list list"
    using that by (induction L) (auto intro: insort_ordered)
  from this [of "sort S"] assms show ?thesis by (simp add: ordered_def removal_order_def sorted_wrt_rev strict_sorted_iff)
qed

lemma set_removal_order [simp]: "set (removal_order S) = set S"
  by (simp add: removal_order_def)

section \<open>The residual is the reference\<close>

text \<open>The marked copy of a document before the removals.\<close>

fun marked :: "jtok list list \<Rightarrow> json \<Rightarrow> mnode" where
  "marked S (JDict d) = MDict False (map (\<lambda>(k, v). (k, (if below (TKey k) S = [] then id else set_mark) (marked (below (TKey k) S) v))) d)"
| "marked S (JList xs) = MList False (map (\<lambda>i. (if below (TIdx i) S = [] then id else set_mark) (marked (below (TIdx i) S) (xs ! i))) [0..<length xs])"
| "marked S v = MLeaf v"

lemma fold_mark_marked: "fold mark_path S (mtree v) = marked S v"
proof (induction S v rule: marked.induct)
  case (1 S d)
  have "below t S = [] \<Longrightarrow> fold mark_path (below t S) c = c" for t c by simp
  with 1 show ?case by (fastforce simp: mark_dict fold_mark_set_mark)
next
  case (2 S xs)
  then show ?case by (fastforce simp: mark_list fold_mark_set_mark)
qed (use mark_leaf in auto)

text \<open>A node as \<open>marked\<close> gives it: not itself marked, and a leaf only for a scalar.\<close>

fun fresh :: "mnode \<Rightarrow> bool" where
  "fresh (MLeaf v) \<longleftrightarrow> \<not> is_dict v \<and> \<not> is_list v"
| "fresh (MDict m d) \<longleftrightarrow> \<not> m"
| "fresh (MList m xs) \<longleftrightarrow> \<not> m"

lemma mark_simps [simp]:
  "plain (set_mark n) = plain n" "prune_only_affected (set_mark n) = set_mark (prune_only_affected n)"
  by (cases n; simp)+

lemma remove_mark: "remove_concrete_path p (set_mark n) = set_mark (remove_concrete_path p n)"
proof (cases p rule: remdups_adj.cases)
  case 1
  then show ?thesis by (cases n) auto
next
  case (2 t)
  then show ?thesis by (cases t; cases n) auto
next
  case (3 t t' ts)
  then show ?thesis by (simp add: at_token_mark)
qed

lemma fold_remove_mark: "fold remove_concrete_path R (set_mark n) = set_mark (fold remove_concrete_path R n)"
  by (induction R arbitrary: n) (simp_all add: remove_mark)

lemma dead_fresh: "fresh n \<Longrightarrow> \<not> dead n" "fresh n \<Longrightarrow> dead (set_mark n) \<longleftrightarrow> empty_container (plain n)"
  by (cases n; auto simp: dead_def empty_container_def is_dict_def is_list_def)+

lemma remove_leaf [simp]: "fold remove_concrete_path R (MLeaf v) = MLeaf v"
proof (induction R)
  case (Cons p R)
  then show ?case by (cases p rule: remdups_adj.cases) auto
qed simp

text \<open>One child: what the removals below it leave, and whether pruning takes it.\<close>

lemma child_step:
  assumes "fresh (prune_only_affected (fold remove_concrete_path R n))"
    and "plain (prune_only_affected (fold remove_concrete_path R n)) = v"
    and "c = prune_only_affected (fold remove_concrete_path R ((if L = [] then id else set_mark) n))"
  shows "plain c = v" "dead c \<longleftrightarrow> L \<noteq> [] \<and> empty_container v"
  using assms dead_fresh by (auto simp: fold_remove_mark)

lemma residual_step:
  assumes "set R = set S" "[] \<notin> set S" "ordered R"
  shows "fresh (prune_only_affected (fold remove_concrete_path R (marked S v))) \<and>
     plain (prune_only_affected (fold remove_concrete_path R (marked S v))) = cut S v"
  using assms
proof (induction S v arbitrary: R rule: cut.induct)
  case (1 S d)
  have below_eq: "set (below t R) = set (below t S)" "[] \<notin> set (below t S)" "ordered (below t R)" for t
    using 1(2-) by (auto simp: set_below ordered_below)
  define c where "c k v = prune_only_affected (fold remove_concrete_path (below (TKey k) R)
     ((if below (TKey k) S = [] then id else set_mark) (marked (below (TKey k) S) v)))" for k v
  have c: "plain (c k v) = cut (below (TKey k) S) v \<and> (dead (c k v) \<longleftrightarrow> below (TKey k) S \<noteq> [] \<and> empty_container (cut (below (TKey k) S) v))"
    if "(k, v) \<in> set d" "[TKey k] \<notin> set S" for k v
    using child_step [OF _ _ c_def] 1(1) [OF that(1) refl that(2) below_eq] by blast
  let ?keep = "\<lambda>k v. if [TKey k] \<in> set S then []
     else let v' = cut (below (TKey k) S) v in if below (TKey k) S \<noteq> [] \<and> empty_container v' then [] else [(k, v')]"
  have "map (\<lambda>(k, c). (k, plain c)) (filter (\<lambda>(k, c). \<not> dead c) (map (\<lambda>(k, v). (k, c k v)) (filter (\<lambda>(k, v). [TKey k] \<notin> set S) e))) =
     concat (map (\<lambda>(k, v). ?keep k v) e)" if "set e \<subseteq> set d" for e
    using that
  proof (induction e)
    case (Cons x e)
    obtain k v where x: "x = (k, v)" by fastforce
    with Cons c [of k v] show ?case by (auto simp: Let_def)
  qed simp
  from this [of d] show ?case using 1(2-)
    by (simp add: remove_dict filter_map comp_def case_prod_unfold c_def)
next
  case (2 S xs)
  have below_eq: "set (below t R) = set (below t S)" "[] \<notin> set (below t S)" "ordered (below t R)" for t
    using 2(2-) by (auto simp: set_below ordered_below)
  define c where "c i = prune_only_affected (fold remove_concrete_path (below (TIdx i) R)
     ((if below (TIdx i) S = [] then id else set_mark) (marked (below (TIdx i) S) (xs ! i))))" for i
  have c: "plain (c i) = cut (below (TIdx i) S) (xs ! i) \<and>
      (dead (c i) \<longleftrightarrow> below (TIdx i) S \<noteq> [] \<and> empty_container (cut (below (TIdx i) S) (xs ! i)))"
    if "i \<in> set [0..<length xs]" "[TIdx i] \<notin> set S" for i
    using child_step [OF _ _ c_def] 2(1) [OF that below_eq] by blast
  let ?keep = "\<lambda>i. if [TIdx i] \<in> set S then []
     else let v' = cut (below (TIdx i) S) (xs ! i) in if below (TIdx i) S \<noteq> [] \<and> empty_container v' then [] else [v']"
  have "map plain (filter (\<lambda>c. \<not> dead c) (map c (filter (\<lambda>i. [TIdx i] \<notin> set S) js))) = concat (map ?keep js)"
    if "set js \<subseteq> {0..<length xs}" for js
    using that
  proof (induction js)
    case (Cons i js)
    with c [of i] show ?case by (auto simp: Let_def)
  qed simp
  note all = this [of "[0..<length xs]"]
  have eq: "map (\<lambda>i. prune_only_affected (fold remove_concrete_path (below (TIdx i) R) (map (\<lambda>i. (if below (TIdx i) S = [] then id else set_mark)
      (marked (below (TIdx i) S) (xs ! i))) [0..<length xs] ! i))) (filter (\<lambda>i. [TIdx i] \<notin> set S) [0..<length xs]) =
      map c (filter (\<lambda>i. [TIdx i] \<notin> set S) [0..<length xs])"
    by (rule map_cong) (auto simp: c_def)
  show ?case using 2(2-) all by (simp add: remove_list comp_def eq)
qed (simp_all add: is_dict_def is_list_def)

lemma cut_nil [simp]: "cut [] v = v"
proof (induction v rule: mtree.induct)
  case (1 d)
  then have "concat (map (\<lambda>(k, v). [(k, cut [] v)]) d) = concat (map (\<lambda>x. [x]) d)"
    by (intro arg_cong [of _ _ concat] map_cong) auto
  then show ?case by simp
next
  case (2 xs)
  then have "concat (map (\<lambda>i. [cut [] (xs ! i)]) [0..<length xs]) = map ((!) xs) [0..<length xs]"
    by (simp add: concat_map_singleton)
  then show ?case by (simp add: map_nth)
qed simp_all

lemma selected_removals_cut:
  assumes "distinct sel" "[] \<notin> set sel"
  shows "apply_selected_removals v sel = cut sel v"
proof (cases "sel = []")
  case True
  then show ?thesis by (simp add: apply_selected_removals_def)
next
  case False
  with assms residual_step [of "removal_order sel" sel v] show ?thesis
    by (simp add: apply_selected_removals_def fold_mark_marked removal_order_ordered)
qed

section \<open>The merged event\<close>

fun kept :: "(ustr \<Rightarrow> json \<Rightarrow> json option) \<Rightarrow> dict \<Rightarrow> dict" where
  "kept g [] = []"
| "kept g ((k, v) # d) = (case g k v of None \<Rightarrow> kept g d | Some v' \<Rightarrow> (k, v') # kept g d)"

definition cut_child :: "jtok list list \<Rightarrow> jtok \<Rightarrow> json \<Rightarrow> json option" where
  "cut_child S t v = (if [t] \<in> set S \<or> below t S \<noteq> [] \<and> empty_container (cut (below t S) v) then None else Some (cut (below t S) v))"

lemma cut_kept: "cut S (JDict d) = JDict (kept (\<lambda>k. cut_child S (TKey k)) d)"
proof -
  have "concat (map (\<lambda>(k, v). if [TKey k] \<in> set S then [] else let v' = cut (below (TKey k) S) v
      in if below (TKey k) S \<noteq> [] \<and> empty_container v' then [] else [(k, v')]) d) = kept (\<lambda>k. cut_child S (TKey k)) d"
    by (induction d) (auto simp: cut_child_def Let_def)
  then show ?thesis by simp
qed

lemma kept_mem: "(k, v') \<in> set (kept g d) \<longleftrightarrow> (\<exists>v. (k, v) \<in> set d \<and> g k v = Some v')"
  by (induction g d rule: kept.induct) (auto split: option.splits)

lemma kept_keys: "fst ` set (kept g d) \<subseteq> fst ` set d"
  using kept_mem [of _ _ g d] by force

lemma kept_distinct: "distinct (map fst d) \<Longrightarrow> distinct (map fst (kept g d))"
proof (induction g d rule: kept.induct)
  case (2 g k v d)
  with kept_keys [of g d] show ?case by (auto split: option.splits)
qed simp

lemma kept_get: "distinct (map fst d) \<Longrightarrow> dget (kept g d) k = Option.bind (dget d k) (g k)"
proof (induction g d rule: kept.induct)
  case (2 g j v d)
  have "j \<notin> fst ` set d \<Longrightarrow> dget (kept g d) j = None" using kept_keys [of g d] by (auto simp: map_of_eq_None_iff)
  with 2 show ?case by (auto split: option.splits)
qed simp

lemma cut_ok: "json_ok v \<Longrightarrow> json_ok (cut S v)"
proof (induction S v rule: cut.induct)
  case (1 S d)
  then have "json_ok v'" if "(k, v') \<in> set (kept (\<lambda>k. cut_child S (TKey k)) d)" for k v'
    using that by (fastforce simp: kept_mem cut_child_def split: if_splits)
  then show ?case using 1(2) unfolding cut_kept by (auto simp: kept_distinct)
next
  case (2 S xs)
  then show ?case by (auto simp: Let_def split: if_splits)
qed auto

lemma merge_into_get:
  "distinct (map fst s) \<Longrightarrow> dget (merge_into t s) k = (case (dget t k, dget s k) of
     (None, r) \<Rightarrow> r | (Some tv, None) \<Rightarrow> Some tv | (Some tv, Some v) \<Rightarrow> Some (merge_value tv v))"
proof (induction s arbitrary: t)
  case (Cons x s)
  obtain j v where x: "x = (j, v)" by fastforce
  with Cons.prems have "dget s j = None" by (simp add: map_of_eq_None_iff)
  with Cons x show ?case by (auto simp: dict_simps split: option.splits)
qed (auto split: option.splits)

lemma merge_arrays_nth:
  "length (merge_arrays t s) = max (length t) (length s) \<and>
   (i < length t \<longrightarrow> merge_arrays t s ! i = (if i < length s then merge_value (t ! i) (s ! i) else t ! i)) \<and>
   (length t \<le> i \<longrightarrow> i < length s \<longrightarrow> merge_arrays t s ! i = s ! i)"
proof (induction t arbitrary: s i)
  case Nil
  then show ?case by (cases s) auto
next
  case (Cons x t)
  then show ?case by (cases s; cases i) auto
qed

text \<open>A document that has everything another has, and possibly more.\<close>

fun extends :: "json \<Rightarrow> json \<Rightarrow> bool" where
  "extends (JDict a) r = (case r of JDict b \<Rightarrow> \<forall>(k, v) \<in> set a. case dget b k of Some v' \<Rightarrow> extends v v' | None \<Rightarrow> False | _ \<Rightarrow> False)"
| "extends (JList xs) r = (case r of
     JList ys \<Rightarrow> length xs \<le> length ys \<and> (\<forall>i \<in> set [0..<length xs]. extends (xs ! i) (ys ! i)) | _ \<Rightarrow> False)"
| "extends v r = (r = v)"

lemma extends_refl: "json_ok v \<Longrightarrow> extends v v"
  by (induction v rule: mtree.induct) fastforce+

lemma merge_extends: "json_ok t \<Longrightarrow> json_ok s \<Longrightarrow> extends t (merge_value t s)"
proof (induction t arbitrary: s rule: mtree.induct)
  case (1 a)
  show ?case
  proof (cases s)
    case (JDict b)
    have "case dget (merge_into a b) k of Some v' \<Rightarrow> extends v v' | None \<Rightarrow> False" if kv: "(k, v) \<in> set a" for k v
    proof -
      have a: "dget a k = Some v" "json_ok v" using kv 1(2) by auto
      show ?thesis
      proof (cases "dget b k")
        case None
        with a 1(3) JDict show ?thesis by (simp add: merge_into_get extends_refl)
      next
        case (Some w)
        then have "json_ok w" using 1(3) JDict json_ok_dget by blast
        with 1(1) [OF kv refl a(2)] a Some 1(3) JDict show ?thesis by (simp add: merge_into_get)
      qed
    qed
    then show ?thesis using JDict by auto
  qed (use extends_refl [OF 1(2)] in \<open>simp_all add: merge_value_other is_dict_def is_list_def del: extends.simps\<close>)
next
  case (2 xs)
  show ?case
  proof (cases s)
    case (JList ys)
    have "extends (xs ! i) (merge_arrays xs ys ! i)" if "i < length xs" for i
      using merge_arrays_nth [of xs ys i] that 2 JList extends_refl [of "xs ! i"] by (auto)
    then show ?thesis using JList merge_arrays_nth [of xs ys] by auto
  qed (use extends_refl [OF 2(2)] in \<open>simp_all add: merge_value_other is_dict_def is_list_def del: extends.simps\<close>)
qed (simp_all add: merge_value_other is_dict_def is_list_def)

lemma merge_ok:
  "json_ok t \<Longrightarrow> json_ok s \<Longrightarrow> json_ok (merge_value t s)"
  "json_ok (JDict a) \<Longrightarrow> json_ok (JDict b) \<Longrightarrow> json_ok (JDict (merge_into a b))"
  "json_ok (JList xs) \<Longrightarrow> json_ok (JList ys) \<Longrightarrow> json_ok (JList (merge_arrays xs ys))"
proof (induction t s and a b and xs ys rule: merge_value_merge_into_merge_arrays.induct)
  case (3 t k v s)
  have "json_ok (JDict (case dget t k of None \<Rightarrow> dset k v t | Some tv \<Rightarrow> dset k (merge_value tv v) t))"
  proof (cases "dget t k")
    case None
    with 3 json_ok_dset [of t v k] show ?thesis by simp
  next
    case (Some tv)
    have "json_ok (merge_value tv v)" using 3(1) [OF Some] 3(3,4) Some json_ok_dget [of t k tv] by simp
    with Some 3(3) json_ok_dset [of t "merge_value tv v" k] show ?thesis by (simp)
  qed
  with 3 show ?case by (simp)
next
  case (1 t s)
  note IH = 1(1,2)
  show ?case
  proof (cases "(is_dict t \<and> is_dict s) \<or> (is_list t \<and> is_list s)")
    case False
    with 1(3) show ?thesis by (simp add: merge_value_other)
  next
    case True
    then consider a b where "t = JDict a" "s = JDict b" | xs ys where "t = JList xs" "s = JList ys"
      by (auto simp: is_dict_def is_list_def split: json.splits)
    then show ?thesis
    proof cases
      case (1 a b)
      from IH(2) [of t s a b] \<open>json_ok t\<close> \<open>json_ok s\<close> 1 show ?thesis by (simp only: merge_value_simps)
    next
      case (2 xs ys)
      from IH(1) [of t s xs ys] \<open>json_ok t\<close> \<open>json_ok s\<close> 2 show ?thesis by (simp only: merge_value_simps)
    qed
  qed
next
  case (6 t ts s ss)
  have "json_ok t" "json_ok (JList ts)" using 6(3) by simp_all
  moreover have "json_ok s" "json_ok (JList ss)" using 6(4) by simp_all
  ultimately have "json_ok (merge_value t s)" "json_ok (JList (merge_arrays ts ss))" using 6(1,2) by blast+
  then show ?case by simp
qed simp_all

lemma selected_distinct:
  "selected_concrete_paths jp e paths sel = Inr sel' \<Longrightarrow> distinct sel \<Longrightarrow> distinct sel'"
  by (induction jp e paths sel rule: selected_concrete_paths.induct) (auto split: sum.splits list.splits)

lemma dead_child_gone: "[t] \<in> set S \<Longrightarrow> cut_child S t v = None"
  by (simp add: cut_child_def)

lemma untouched_child: "\<forall>p \<in> set S. p = [] \<or> hd p \<noteq> t \<Longrightarrow> cut_child S t v = Some v"
proof -
  assume a: "\<forall>p \<in> set S. p = [] \<or> hd p \<noteq> t"
  then have "below t S = []" by (auto simp: below_def filter_empty_conv)
  with a show ?thesis by (auto simp: cut_child_def)
qed

lemma deep_merge_ok:
  assumes "json_ok (JDict output)" "json_ok (JDict r)"
  shows "json_ok (JDict (deep_merge_pass_through output r))" "extends (JDict output) (JDict (deep_merge_pass_through output r))"
  using merge_ok(2) [OF assms] merge_extends [OF assms] by (simp_all only: deep_merge_pass_through_def merge_value_simps)

text \<open>
  C30. The pass-through keeps exactly the unmapped rest.  Removing the selected paths one by one from a copy of the event,
  in the order of the code, and pruning the emptied containers gives the reference residual \<open>cut\<close>, which looks at the
  original event once: no removal shifts the target of another, and no unrelated empty container is lost.
\<close>

theorem residual_is_cut:
  assumes "distinct sel" "[] \<notin> set sel"
  shows "apply_selected_removals v sel = cut sel v"
  using assms by (rule selected_removals_cut)

theorem residual_is_cut_witness:
  "apply_selected_removals (JDict [(u ''a'', JList [JInt 1, JDict [(u ''b'', JInt 2)], JInt 3]), (u ''c'', JDict [])])
     [[TKey (u ''a''), TIdx 0], [TKey (u ''a''), TIdx 1, TKey (u ''b'')]] =
   JDict [(u ''a'', JList [JInt 3]), (u ''c'', JDict [])]"
  by (subst residual_is_cut) (simp_all add: u_def upt_rec empty_container_def)

lemma merge_keeps_residual:
  assumes "json_ok (JDict r)" "dget output k = None"
  shows "dget (deep_merge_pass_through output r) k = dget r k"
  using assms by (simp add: deep_merge_pass_through_def merge_into_get)

lemma removals_root: "[] \<in> set sel \<Longrightarrow> apply_selected_removals v sel = JDict []"
  by (cases sel) (simp_all add: apply_selected_removals_def)

lemma pass_through_merge:
  assumes "merge_unknown_field_pass_through jp (JDict e) output paths = Inr result" "\<not> maps_whole_event paths"
  obtains sel r where "selected_concrete_paths jp (JDict e) paths [] = Inr sel" "distinct sel"
    "apply_selected_removals (JDict e) sel = JDict r" "result = deep_merge_pass_through output r"
proof -
  obtain sel where sel: "selected_concrete_paths jp (JDict e) paths [] = Inr sel"
    using assms by (auto simp: merge_unknown_field_pass_through_def build_residual_after_mapping_def is_dict_def split: sum.splits)
  then have d: "distinct sel" using selected_distinct by fastforce
  obtain r where r: "apply_selected_removals (JDict e) sel = JDict r"
  proof (cases "[] \<in> set sel")
    case True
    then show thesis using that removals_root by blast
  next
    case False
    then show thesis using that selected_removals_cut [OF d, of "JDict e"] by (simp add: cut_kept del: cut.simps)
  qed
  moreover have "result = deep_merge_pass_through output r"
    using assms sel r by (cases r) (auto simp: merge_unknown_field_pass_through_def build_residual_after_mapping_def
      is_dict_def deep_merge_pass_through_def)
  ultimately show thesis using that sel d by blast
qed

text \<open>
  C31. What pass-through promises.  The result keeps every mapped value of the output (at every depth, the output is only
  extended), it is a well-formed document, an event field that no mapping touches arrives unchanged unless the output
  has a field of that name, and an event field that a mapping consumes whole is not repeated under its old name.
\<close>

theorem pass_through_safe:
  assumes "merge_unknown_field_pass_through jp (JDict e) output paths = Inr result" "\<not> maps_whole_event paths"
    and "json_ok (JDict e)" "json_ok (JDict output)"
  shows "extends (JDict output) (JDict result) \<and> json_ok (JDict result) \<and>
    (\<exists>sel. selected_concrete_paths jp (JDict e) paths [] = Inr sel \<and>
      (\<forall>k. dget output k = None \<longrightarrow>
        ((\<forall>p \<in> set sel. p \<noteq> [] \<and> hd p \<noteq> TKey k) \<longrightarrow> dget result k = dget e k) \<and>
        ([TKey k] \<in> set sel \<longrightarrow> dget result k = None)))"
proof -
  obtain sel r where sel: "selected_concrete_paths jp (JDict e) paths [] = Inr sel" "distinct sel"
    and r: "apply_selected_removals (JDict e) sel = JDict r" and result: "result = deep_merge_pass_through output r"
    using assms(1,2) by (rule pass_through_merge)
  have ok: "json_ok (JDict r)"
  proof (cases "[] \<in> set sel")
    case True
    then show ?thesis using r removals_root [of sel "JDict e"] by simp
  next
    case False
    then show ?thesis using selected_removals_cut [OF sel(2), of "JDict e"] cut_ok [OF assms(3), of sel] r by metis
  qed
  have get: "dget r k = Option.bind (dget e k) (cut_child sel (TKey k))" if "[] \<notin> set sel" for k
    using that selected_removals_cut [OF sel(2), of "JDict e"] r assms(3) by (simp add: cut_kept kept_get del: cut.simps)
  have "dget result k = dget e k" if "\<forall>p \<in> set sel. p \<noteq> [] \<and> hd p \<noteq> TKey k" "dget output k = None" for k
  proof -
    have "cut_child sel (TKey k) v = Some v" for v using that by (intro untouched_child) auto
    then show ?thesis using that get [of k] merge_keeps_residual [OF ok that(2)] result by (cases "dget e k") auto
  qed
  moreover have "dget result k = None" if "[TKey k] \<in> set sel" "dget output k = None" for k
  proof (cases "[] \<in> set sel")
    case True
    then have "r = []" using r removals_root [of sel "JDict e"] by simp
    then show ?thesis using result merge_keeps_residual [OF ok that(2)] by simp
  next
    case False
    then show ?thesis using get [of k] dead_child_gone [OF that(1)] result merge_keeps_residual [OF ok that(2)]
      by (cases "dget e k") auto
  qed
  ultimately show ?thesis using deep_merge_ok [OF assms(4) ok] result sel(1) by blast
qed

definition demo_jsonpath :: jsonpath_env where
  "demo_jsonpath = \<lparr>jp_error = (\<lambda>p. None),
     jp_matches = (\<lambda>p v. Inr (case v of JDict d \<Rightarrow> (case dget d (drop 2 p) of Some w \<Rightarrow> [(w, [Fields_One (drop 2 p)])] | None \<Rightarrow> [])
       | _ \<Rightarrow> []))\<rparr>"

theorem pass_through_safe_witness:
  "merge_unknown_field_pass_through demo_jsonpath (JDict [(u ''a'', JInt 1), (u ''b'', JInt 2), (u ''x'', JInt 3)]) [(u ''x'', JInt 1)]
     [u ''$.a''] = Inr [(u ''x'', JInt 1), (u ''b'', JInt 2)] \<and>
   extends (JDict [(u ''x'', JInt 1)]) (JDict [(u ''x'', JInt 1), (u ''b'', JInt 2)])"
proof -
  let ?e = "JDict [(u ''a'', JInt 1), (u ''b'', JInt 2), (u ''x'', JInt 3)]"
  have sel: "selected_concrete_paths demo_jsonpath ?e [u ''$.a''] [] = Inr [[TKey (u ''a'')]]" by code_simp
  have m: "\<not> maps_whole_event [u ''$.a'']" by code_simp
  have "apply_selected_removals ?e [[TKey (u ''a'')]] = JDict [(u ''b'', JInt 2), (u ''x'', JInt 3)]"
    by (simp add: selected_removals_cut u_def empty_container_def)
  then have e: "merge_unknown_field_pass_through demo_jsonpath ?e [(u ''x'', JInt 1)] [u ''$.a''] = Inr [(u ''x'', JInt 1), (u ''b'', JInt 2)]"
    using sel m by (simp add: merge_unknown_field_pass_through_def build_residual_after_mapping_def is_dict_def
      deep_merge_pass_through_def merge_value_other is_list_def u_def)
  show ?thesis using pass_through_safe [OF e m] e by (simp add: u_def)
qed

end
