(* ===== verification/Mapping.thy ===== *)
theory Mapping
  imports Pass_Through
begin

text \<open>
  The mapping engine: \<^verbatim>\<open>app/mappers/mapper.py\<close>, \<^verbatim>\<open>full_event_mapping.py\<close>, \<^verbatim>\<open>unmapped_policy.py\<close> and
  \<^verbatim>\<open>mapping_results.py\<close>.  A mapping configuration is the dictionary of its column.  Arguments of the model are the JSONPath
  evaluation, the JSONata engine (absent when it is not installed) and the evaluation of a configured regular
  expression.  Copies of values are the values.
\<close>

section \<open>The outside engines\<close>

text \<open>
  \<open>me_jsonata\<close> evaluates an expression on an event, or gives the text of the exception; \<open>me_regex\<close> compiles a pattern,
  or gives the complaint, and searches a text for the groups of the first match.
\<close>

record mapping_env =
  me_jsonpath :: jsonpath_env
  me_jsonata :: "(ustr \<Rightarrow> json \<Rightarrow> ustr + json) option"
  me_regex :: "ustr \<Rightarrow> ustr + (ustr \<Rightarrow> ustr option list option)"

text \<open>\<open>json.dumps\<close> with compact separators, without sorting and without ASCII escapes.\<close>

definition text_char :: "nat \<Rightarrow> ustr" where
  "text_char c =
     (if c = 34 \<or> c = 92 then [92, c]
      else if c = 10 then [92, 110]
      else if c = 13 then [92, 114]
      else if c = 9 then [92, 116]
      else if c = 12 then [92, 102]
      else if c = 8 then [92, 98]
      else if c < 32 then [92, 117, 48, 48, hex_digit (c div 16), hex_digit (c mod 16)]
      else [c])"

definition text_str :: "ustr \<Rightarrow> ustr" where
  "text_str s = [34] @ concat (map text_char s) @ [34]"

fun json_text :: "json \<Rightarrow> ustr" where
  "json_text JNull = u ''null''"
| "json_text (JBool b) = (if b then u ''true'' else u ''false'')"
| "json_text (JInt i) = int_str i"
| "json_text (JFloat f) = (case f of Fin _ t \<Rightarrow> t | PosInf \<Rightarrow> u ''Infinity'' | NegInf \<Rightarrow> u ''-Infinity'' | NaN \<Rightarrow> u ''NaN'')"
| "json_text (JStr s) = text_str s"
| "json_text (JList xs) = u ''['' @ join_with (u '','') (map json_text xs) @ u '']''"
| "json_text (JDict d) = u ''{'' @ join_with (u '','') (map (\<lambda>(k, v). text_str k @ u '':'' @ json_text v) d) @ u ''}''"

definition coerce_regex_source :: "json \<Rightarrow> ustr option" where
  "coerce_regex_source v = (case v of
     JNull \<Rightarrow> None
   | JStr s \<Rightarrow> Some s
   | JList _ \<Rightarrow> Some (json_text v)
   | JDict _ \<Rightarrow> Some (json_text v)
   | _ \<Rightarrow> Some (py_str v))"

section \<open>Advanced rules of one field\<close>

record transform_result =
  tr_output_field :: ustr
  tr_mode :: ustr
  tr_rule_id :: "ustr option"
  tr_success :: bool
  tr_value :: json
  tr_recovered :: bool
  tr_warning :: "ustr option"
  tr_error_code :: "ustr option"
  tr_error_message :: "ustr option"
  tr_executed :: bool
  tr_blocked :: bool

text \<open>\<open>rule.get(a) or rule.get(b) or ...\<close>, read as stripped text.\<close>

fun first_of_keys :: "dict \<Rightarrow> ustr list \<Rightarrow> json" where
  "first_of_keys d [] = JStr []"
| "first_of_keys d (k # ks) = (if truthy (dget_none d k) then dget_none d k else first_of_keys d ks)"

definition rule_text :: "dict \<Rightarrow> string list \<Rightarrow> ustr" where
  "rule_text rule keys = strip (py_str (first_of_keys rule (map u keys)))"

definition none_if_empty :: "ustr \<Rightarrow> ustr option" where
  "none_if_empty s = (if s = [] then None else Some s)"

definition field_rule_default :: "dict \<Rightarrow> json option" where
  "field_rule_default rule = (case dget rule (u ''default_value'') of
     Some v \<Rightarrow> Some v
   | None \<Rightarrow> dget rule (u ''fallback_value''))"

definition field_rule_result_error :: "ustr \<Rightarrow> ustr \<Rightarrow> ustr option \<Rightarrow> string \<Rightarrow> ustr \<Rightarrow> transform_result" where
  "field_rule_result_error f mode rid code message =
     \<lparr>tr_output_field = f, tr_mode = mode, tr_rule_id = rid, tr_success = False, tr_value = JNull, tr_recovered = False,
      tr_warning = None, tr_error_code = Some (u code), tr_error_message = Some message, tr_executed = True, tr_blocked = False\<rparr>"

definition field_rule_result_ok :: "ustr \<Rightarrow> ustr \<Rightarrow> ustr option \<Rightarrow> json \<Rightarrow> ustr option \<Rightarrow> transform_result" where
  "field_rule_result_ok f mode rid v recovered =
     \<lparr>tr_output_field = f, tr_mode = mode, tr_rule_id = rid, tr_success = True, tr_value = v, tr_recovered = (recovered \<noteq> None),
      tr_warning = recovered, tr_error_code = None, tr_error_message = None, tr_executed = True, tr_blocked = False\<rparr>"

definition nth_group :: "ustr option list option \<Rightarrow> int \<Rightarrow> ustr option" where
  "nth_group m i = (case m of
     None \<Rightarrow> None
   | Some groups \<Rightarrow> if i \<le> int (length groups) then groups ! nat (i - 1) else None)"

definition eval_jsonata_rule ::
  "mapping_env \<Rightarrow> json \<Rightarrow> dict \<Rightarrow> ustr \<Rightarrow> ustr \<Rightarrow> ustr option \<Rightarrow> transform_result" where
  "eval_jsonata_rule env event rule f mode rid =
     (let expression = rule_text rule [''expression'']
      in if expression = [] then field_rule_result_error f mode rid ''JSONATA_EXPRESSION_REQUIRED'' (f @ u '': JSONata expression is required.'')
         else case me_jsonata env of
           None \<Rightarrow> field_rule_result_error f mode rid ''TRANSFORM_ENGINE_UNAVAILABLE''
                     (u ''JSONata engine is not installed in the runtime environment.'')
         | Some evaluate \<Rightarrow> (case evaluate expression event of
             Inl msg \<Rightarrow> field_rule_result_error f mode rid ''JSONATA_EVALUATION_FAILED'' (f @ u '': JSONata evaluation failed: '' @ msg)
           | Inr v \<Rightarrow> (case (v, field_rule_default rule) of
               (JNull, Some dv) \<Rightarrow> field_rule_result_ok f mode rid dv
                 (Some (f @ u '': JSONata produced null/missing output; used default.''))
             | _ \<Rightarrow> field_rule_result_ok f mode rid v None)))"

definition rule_group :: "dict \<Rightarrow> string \<Rightarrow> string \<Rightarrow> json" where
  "rule_group rule a b = dget_default rule (u a) (dget_default rule (u b) (JInt 1))"

definition eval_regex_rule ::
  "mapping_env \<Rightarrow> json \<Rightarrow> dict \<Rightarrow> ustr \<Rightarrow> ustr \<Rightarrow> ustr option \<Rightarrow> stage_exc + transform_result" where
  "eval_regex_rule env event rule f mode rid =
     (let source_path = rule_text rule [''source_path'', ''path'']; pattern = rule_text rule [''pattern'']
      in if source_path = [] \<or> pattern = [] then Inr (field_rule_result_error f mode rid ''REGEX_RULE_INVALID''
           (f @ u '': source_path and pattern are required.''))
         else case py_int (rule_group rule ''group'' ''capture_group'') of
           Inl (OverflowError m) \<Rightarrow> Inl (StageFailure (OverflowError m))
         | grp \<Rightarrow>
           (let group_idx = (case grp of Inr i \<Rightarrow> i | Inl _ \<Rightarrow> -1)
            in if group_idx < 1 then Inr (field_rule_result_error f mode rid ''REGEX_GROUP_INVALID''
                 (f @ u '': capture group must be a positive integer.''))
               else case extract_one (me_jsonpath env) event source_path of
                 Inl x \<Rightarrow> Inl x
               | Inr raw \<Rightarrow> (case coerce_regex_source raw of
                   None \<Rightarrow> Inr (case field_rule_default rule of
                     Some dv \<Rightarrow> field_rule_result_ok f mode rid dv (Some (f @ u '': regex source missing; used default.''))
                   | None \<Rightarrow> field_rule_result_error f mode rid ''REGEX_SOURCE_MISSING''
                       (f @ u '': source at '' @ source_path @ u '' is missing.''))
                 | Some source_text \<Rightarrow> Inr (case me_regex env pattern of
                     Inl msg \<Rightarrow> field_rule_result_error f mode rid ''REGEX_PATTERN_INVALID''
                       (f @ u '': invalid regex pattern ('' @ msg @ u '').'')
                   | Inr search \<Rightarrow> (case nth_group (search source_text) group_idx of
                       Some captured \<Rightarrow> field_rule_result_ok f mode rid (JStr captured) None
                     | None \<Rightarrow> (case field_rule_default rule of
                         Some dv \<Rightarrow> field_rule_result_ok f mode rid dv (Some (f @ u '': regex did not match; used default.''))
                       | None \<Rightarrow> field_rule_result_error f mode rid ''REGEX_NO_MATCH''
                           (f @ u '': regex pattern did not match.'')))))))"

definition evaluate_field_transform_rule :: "mapping_env \<Rightarrow> json \<Rightarrow> dict \<Rightarrow> stage_exc + transform_result" where
  "evaluate_field_transform_rule env event rule =
     (let mode = lower (rule_text rule [''mode'', ''type'']);
          f = rule_text rule [''output_field'', ''field'', ''target_field''];
          rid = none_if_empty (rule_text rule [''rule_id'', ''id''])
      in if f = [] then Inr (field_rule_result_error [] mode rid ''TRANSFORM_OUTPUT_FIELD_REQUIRED''
           (u ''Advanced transform output field is required.''))
         else if mode = u ''jsonata'' then Inr (eval_jsonata_rule env event rule f mode rid)
         else if mode = u ''regex_extract'' then eval_regex_rule env event rule f mode rid
         else Inr (field_rule_result_error f mode rid ''TRANSFORM_MODE_UNSUPPORTED''
           (f @ u '': unsupported advanced transform mode '' @ repr_str mode @ u ''.'')))"

fun dicts_of :: "json list \<Rightarrow> dict list" where
  "dicts_of [] = []"
| "dicts_of (v # vs) = (case v of JDict d \<Rightarrow> d # dicts_of vs | _ \<Rightarrow> dicts_of vs)"

definition extract_field_transform_rules :: "dict \<Rightarrow> ustr \<Rightarrow> dict list" where
  "extract_field_transform_rules config key = (case dget config key of Some (JList raw) \<Rightarrow> dicts_of raw | _ \<Rightarrow> [])"

fun transform_rules_loop ::
  "mapping_env \<Rightarrow> dict list \<Rightarrow> dict \<Rightarrow> dict \<Rightarrow> stage_exc + (dict \<times> transform_result list)" where
  "transform_rules_loop env [] output context = Inr (output, [])"
| "transform_rules_loop env (rule # rules) output context = (case evaluate_field_transform_rule env (JDict context) rule of
     Inl x \<Rightarrow> Inl x
   | Inr r \<Rightarrow>
       (case (if tr_success r \<and> tr_output_field r \<noteq> []
              then transform_rules_loop env rules (dset (tr_output_field r) (tr_value r) output)
                     (dset (tr_output_field r) (tr_value r) context)
              else transform_rules_loop env rules output context) of
          Inl x \<Rightarrow> Inl x
        | Inr (out, rs) \<Rightarrow> Inr (out, r # rs)))"

definition apply_field_transform_rules ::
  "mapping_env \<Rightarrow> dict \<Rightarrow> dict list \<Rightarrow> dict \<Rightarrow> stage_exc + (dict \<times> transform_result list)" where
  "apply_field_transform_rules env event rules initial =
     transform_rules_loop env rules initial (foldl (\<lambda>c (k, v). dset k v c) event initial)"

section \<open>Full-event modes\<close>

definition get_mapping_mode :: "dict \<Rightarrow> ustr option" where
  "get_mapping_mode fm = (case dget_none fm (u ''mapping_mode'') of
     JNull \<Rightarrow> None
   | raw \<Rightarrow> none_if_empty (lower (strip (py_str raw))))"

definition FULL_EVENT_JSONATA :: ustr where "FULL_EVENT_JSONATA = u ''full_event_jsonata''"

definition FULL_EVENT_REGEX :: ustr where "FULL_EVENT_REGEX = u ''full_event_regex''"

definition is_full_event_mapping :: "dict \<Rightarrow> bool" where
  "is_full_event_mapping fm \<longleftrightarrow> get_mapping_mode fm = Some FULL_EVENT_JSONATA \<or> get_mapping_mode fm = Some FULL_EVENT_REGEX"

definition parse_regex_rules :: "dict \<Rightarrow> dict list" where
  "parse_regex_rules fm = (case dget fm (u ''regex_rules'') of Some (JList raw) \<Rightarrow> dicts_of raw | _ \<Rightarrow> [])"

text \<open>One rule of the regex mode: the event so far, the errors and the warnings.\<close>

type_synonym full_result = "dict \<times> ustr list \<times> ustr list"

definition full_default :: "dict \<Rightarrow> json" where
  "full_default rule = dget_default rule (u ''default_value'') (dget_none rule (u ''default''))"

definition full_fallback :: "dict \<Rightarrow> ustr \<Rightarrow> ustr \<Rightarrow> ustr \<Rightarrow> full_result \<Rightarrow> full_result" where
  "full_fallback rule f warning error acc = (case acc of (base, errors, warnings) \<Rightarrow>
     (case full_default rule of
        JNull \<Rightarrow> (base, errors @ [error], warnings)
      | dv \<Rightarrow> (dset f dv base, errors, warnings @ [warning])))"

definition full_regex_rule :: "mapping_env \<Rightarrow> json \<Rightarrow> nat \<Rightarrow> dict \<Rightarrow> full_result \<Rightarrow> stage_exc + full_result" where
  "full_regex_rule env event index rule acc = (case acc of (base, errors, warnings) \<Rightarrow>
     (let f = rule_text rule [''output_field'', ''field'']; source_path = rule_text rule [''source_path'', ''path''];
          pattern = rule_text rule [''pattern'']; here = u ''regex_rules['' @ nat_str index @ u '']''
      in if f = [] \<or> source_path = [] \<or> pattern = []
         then Inr (base, errors @ [here @ u '': output_field, source_path, and pattern are required''], warnings)
         else case py_int (rule_group rule ''capture_group'' ''group'') of
           Inl (OverflowError m) \<Rightarrow> Inl (StageFailure (OverflowError m))
         | Inl _ \<Rightarrow> Inr (base, errors @ [here @ u '': group must be an integer''], warnings)
         | Inr group_idx \<Rightarrow>
           if group_idx < 0 then Inr (base, errors @ [here @ u '': group must be non-negative''], warnings)
           else case extract_one (me_jsonpath env) event source_path of
             Inl x \<Rightarrow> Inl x
           | Inr raw \<Rightarrow> (case coerce_regex_source raw of
               None \<Rightarrow> Inr (full_fallback rule f (f @ u '': source missing; used default'')
                 (f @ u '': source at '' @ source_path @ u '' is missing'') acc)
             | Some source_text \<Rightarrow> (case me_regex env pattern of
                 Inl msg \<Rightarrow> Inr (base, errors @ [f @ u '': invalid pattern ('' @ msg @ u '')''], warnings)
               | Inr search \<Rightarrow> (case nth_group (search source_text) (if group_idx > 0 then group_idx else 1) of
                   Some captured \<Rightarrow> Inr (dset f (JStr captured) base, errors, warnings)
                 | None \<Rightarrow> Inr (full_fallback rule f (f @ u '': no match; used default'') (f @ u '': pattern did not match'') acc))))))"

fun full_regex_loop :: "mapping_env \<Rightarrow> json \<Rightarrow> nat \<Rightarrow> dict list \<Rightarrow> full_result \<Rightarrow> stage_exc + full_result" where
  "full_regex_loop env event index [] acc = Inr acc"
| "full_regex_loop env event index (rule # rules) acc = (case full_regex_rule env event index rule acc of
     Inl x \<Rightarrow> Inl x | Inr acc' \<Rightarrow> full_regex_loop env event (Suc index) rules acc')"

definition apply_full_event_regex_mapping :: "mapping_env \<Rightarrow> dict \<Rightarrow> dict \<Rightarrow> stage_exc + full_result" where
  "apply_full_event_regex_mapping env event fm =
     (let base = (if dget fm (u ''preserve_source_fields'') = Some (JBool True) then event else []); rules = parse_regex_rules fm
      in if rules = []
         then Inr (base, [u ''Full-event regex mapping requires a non-empty '' @ [34] @ u ''regex_rules'' @ [34] @ u '' array.''], [])
         else full_regex_loop env (JDict event) 0 rules (base, [], []))"

definition apply_full_event_jsonata_mapping :: "mapping_env \<Rightarrow> dict \<Rightarrow> dict \<Rightarrow> stage_exc + full_result" where
  "apply_full_event_jsonata_mapping env event fm =
     (let expression = rule_text fm [''jsonata_expression'']
      in if expression = [] then Inr ([], [u ''Full-event JSONata mapping requires a non-empty jsonata_expression.''], [])
         else case me_jsonata env of
           None \<Rightarrow> Inl (MappingError (u ''JSONata engine is not installed; add jsonata-python to the runtime environment.''))
         | Some evaluate \<Rightarrow> (case evaluate expression (JDict event) of
             Inl msg \<Rightarrow> Inr ([], [u ''JSONata evaluation failed: '' @ msg], [])
           | Inr (JDict d) \<Rightarrow> Inr (d, [], [])
           | Inr _ \<Rightarrow> Inr ([], [u ''JSONata must return a JSON object (not a string, number, boolean, array, or null).''], [])))"

definition apply_full_event_mapping :: "mapping_env \<Rightarrow> json \<Rightarrow> dict \<Rightarrow> stage_exc + full_result" where
  "apply_full_event_mapping env event fm = (case event of
     JDict e \<Rightarrow>
       if get_mapping_mode fm = Some FULL_EVENT_JSONATA then apply_full_event_jsonata_mapping env e fm
       else if get_mapping_mode fm = Some FULL_EVENT_REGEX then apply_full_event_regex_mapping env e fm
       else Inl (MappingError (u ''Unsupported full-event mapping mode: '' @
              (case get_mapping_mode fm of None \<Rightarrow> u ''None'' | Some m \<Rightarrow> repr_str m)))
   | _ \<Rightarrow> Inl (MappingError (u ''apply_full_event_mapping expects dict event, got '' @ type_name event)))"

section \<open>Basic mapping\<close>

definition FIELD_MAPPINGS_META_KEYS :: "ustr list" where
  "FIELD_MAPPINGS_META_KEYS = map u [''transform_rules'', ''advanced_fields'', ''mapping_mode'', ''jsonata_expression'',
     ''regex_rules'', ''preserve_source_fields'', ''unmapped_fields_policy'']"

fun extract_basic_jsonpath_mappings :: "dict \<Rightarrow> (ustr \<times> ustr) list" where
  "extract_basic_jsonpath_mappings [] = []"
| "extract_basic_jsonpath_mappings ((key, v) # fm) =
     (if key \<in> set FIELD_MAPPINGS_META_KEYS \<or> startswith key (u ''_'') then extract_basic_jsonpath_mappings fm
      else case v of
        JStr s \<Rightarrow> if strip s = [] then extract_basic_jsonpath_mappings fm else (key, strip s) # extract_basic_jsonpath_mappings fm
      | _ \<Rightarrow> extract_basic_jsonpath_mappings fm)"

definition get_unmapped_fields_policy :: "dict \<Rightarrow> ustr" where
  "get_unmapped_fields_policy fm =
     (let value = (case dget_default fm (u ''unmapped_fields_policy'') (JStr (u ''pass_through'')) of JNull \<Rightarrow> [] | raw \<Rightarrow> strip (py_str raw))
      in if value = u ''pass_through'' \<or> value = u ''drop_unmapped'' then value else u ''pass_through'')"

definition should_pass_through_unmapped :: "dict \<Rightarrow> bool" where
  "should_pass_through_unmapped fm \<longleftrightarrow> get_unmapped_fields_policy fm = u ''pass_through''"

fun compile_mappings :: "jsonpath_env \<Rightarrow> (ustr \<times> ustr) list \<Rightarrow> stage_exc + (ustr \<times> ustr) list" where
  "compile_mappings jp [] = Inr []"
| "compile_mappings jp ((out_field, path) # fm) = (case compile_jsonpath jp path of
     Inl _ \<Rightarrow> Inl (MappingError (u ''Invalid JSONPath for output field '' @ repr_str out_field @ u '': '' @ repr_str path))
   | Inr p \<Rightarrow> (case compile_mappings jp fm of Inl x \<Rightarrow> Inl x | Inr c \<Rightarrow> Inr ((out_field, p) # c)))"

fun extract_fields :: "jsonpath_env \<Rightarrow> json \<Rightarrow> (ustr \<times> ustr) list \<Rightarrow> stage_exc + dict" where
  "extract_fields jp event [] = Inr []"
| "extract_fields jp event ((out_field, p) # c) = (case extract_one_compiled jp p event of
     Inl x \<Rightarrow> Inl x
   | Inr v \<Rightarrow> (case extract_fields jp event c of Inl x \<Rightarrow> Inl x | Inr output \<Rightarrow> Inr ((out_field, v) # output)))"

definition apply_compiled_mapping ::
  "jsonpath_env \<Rightarrow> json \<Rightarrow> (ustr \<times> ustr) list \<Rightarrow> ustr list option \<Rightarrow> stage_exc + dict" where
  "apply_compiled_mapping jp event compiled paths = (case event of
     JDict e \<Rightarrow>
       if compiled = [] then Inr e
       else (case extract_fields jp event compiled of
         Inl x \<Rightarrow> Inl x
       | Inr output \<Rightarrow> (case paths of
           Some ps \<Rightarrow> merge_unknown_field_pass_through jp event output ps
         | None \<Rightarrow> Inr output))
   | _ \<Rightarrow> Inl (MappingError (u ''apply_compiled_mapping expects dict event, got '' @ type_name event)))"

fun emap :: "('a \<Rightarrow> 'e + 'b) \<Rightarrow> 'a list \<Rightarrow> 'e + 'b list" where
  "emap f [] = Inr []"
| "emap f (x # xs) = (case f x of Inl e \<Rightarrow> Inl e | Inr y \<Rightarrow> (case emap f xs of Inl e \<Rightarrow> Inl e | Inr ys \<Rightarrow> Inr (y # ys)))"

definition apply_compiled_mappings ::
  "jsonpath_env \<Rightarrow> json list \<Rightarrow> (ustr \<times> ustr) list \<Rightarrow> ustr list option \<Rightarrow> stage_exc + dict list" where
  "apply_compiled_mappings jp events compiled paths = emap (\<lambda>e. apply_compiled_mapping jp e compiled paths) events"

definition source_paths :: "dict \<Rightarrow> ustr list option" where
  "source_paths fm = (if should_pass_through_unmapped fm then Some (map snd (extract_basic_jsonpath_mappings fm)) else None)"

section \<open>Entry points\<close>

definition apply_mapping_with_transform_results ::
  "mapping_env \<Rightarrow> json \<Rightarrow> dict \<Rightarrow> stage_exc + (dict \<times> transform_result list)" where
  "apply_mapping_with_transform_results env event fm = (case event of
     JDict e \<Rightarrow>
       if fm = [] then Inr (e, [])
       else if is_full_event_mapping fm then
         (case apply_full_event_mapping env event fm of
            Inl x \<Rightarrow> Inl x
          | Inr (mapped, [], ws) \<Rightarrow> Inr (mapped, [])
          | Inr (mapped, err # errs, ws) \<Rightarrow> Inl (MappingError err))
       else (case compile_mappings (me_jsonpath env) (extract_basic_jsonpath_mappings fm) of
         Inl x \<Rightarrow> Inl x
       | Inr compiled \<Rightarrow> (case apply_compiled_mapping (me_jsonpath env) event compiled (source_paths fm) of
           Inl x \<Rightarrow> Inl x
         | Inr mapped \<Rightarrow>
             (let rules = extract_field_transform_rules fm (u ''transform_rules'')
              in if rules = [] then Inr (mapped, []) else apply_field_transform_rules env e rules mapped)))
   | _ \<Rightarrow> Inl (MappingError (u ''apply_mapping expects dict event, got '' @ type_name event)))"

definition or_text :: "ustr option \<Rightarrow> ustr \<Rightarrow> ustr" where
  "or_text a b = (case a of None \<Rightarrow> b | Some s \<Rightarrow> if s = [] then b else s)"

definition apply_mapping :: "mapping_env \<Rightarrow> json \<Rightarrow> dict \<Rightarrow> stage_exc + dict" where
  "apply_mapping env event fm = (case apply_mapping_with_transform_results env event fm of
     Inl x \<Rightarrow> Inl x
   | Inr (mapped, results) \<Rightarrow> (case find (\<lambda>r. \<not> tr_success r) results of
       Some r \<Rightarrow> Inl (MappingError (or_text (tr_error_message r) (or_text (tr_error_code r) (u ''Advanced transform failed''))))
     | None \<Rightarrow> Inr mapped))"

definition apply_mappings :: "mapping_env \<Rightarrow> json list \<Rightarrow> dict \<Rightarrow> stage_exc + dict list" where
  "apply_mappings env events fm =
     (if is_full_event_mapping fm \<or> extract_field_transform_rules fm (u ''transform_rules'') \<noteq> []
      then emap (\<lambda>e. apply_mapping env e fm) events
      else case compile_mappings (me_jsonpath env) (extract_basic_jsonpath_mappings fm) of
        Inl x \<Rightarrow> Inl x
      | Inr compiled \<Rightarrow> apply_compiled_mappings (me_jsonpath env) events compiled (source_paths fm))"

record field_error =
  fe_rule_id :: "ustr option"
  fe_output_field :: ustr
  fe_code :: ustr
  fe_message :: ustr

record mapping_apply_result =
  ma_event :: dict
  ma_field_errors :: "field_error list"
  ma_event_error :: "(ustr \<times> ustr) option"

definition event_failed :: "string \<Rightarrow> ustr \<Rightarrow> mapping_apply_result" where
  "event_failed code message = \<lparr>ma_event = [], ma_field_errors = [], ma_event_error = Some (u code, message)\<rparr>"

definition not_an_event :: "json \<Rightarrow> mapping_apply_result" where
  "not_an_event event = event_failed ''MAPPING_EVENT_INVALID'' (u ''apply_mapping expects dict event, got '' @ type_name event)"

definition full_event_result :: "mapping_env \<Rightarrow> dict \<Rightarrow> json \<Rightarrow> stage_exc + mapping_apply_result" where
  "full_event_result env fm event =
     (if \<not> is_dict event then Inr (not_an_event event)
      else case apply_full_event_mapping env event fm of
        Inl (MappingError msg) \<Rightarrow> Inr (event_failed ''MAPPING_FAILED'' msg)
      | Inl x \<Rightarrow> Inl x
      | Inr (mapped, err # errs, ws) \<Rightarrow> Inr (event_failed ''MAPPING_FAILED'' err)
      | Inr (mapped, [], ws) \<Rightarrow> Inr \<lparr>ma_event = mapped,
          ma_field_errors = map (\<lambda>w. \<lparr>fe_rule_id = None, fe_output_field = [], fe_code = u ''MAPPING_FIELD_WARNING'', fe_message = w\<rparr>) ws,
          ma_event_error = None\<rparr>)"

definition transform_errors :: "transform_result list \<Rightarrow> field_error list" where
  "transform_errors results = map (\<lambda>r. \<lparr>fe_rule_id = tr_rule_id r, fe_output_field = tr_output_field r,
       fe_code = or_text (tr_error_code r) (u ''ADVANCED_TRANSFORM_FAILED''),
       fe_message = or_text (tr_error_message r) (u ''Advanced transform failed'')\<rparr>)
     (filter (\<lambda>r. \<not> tr_success r) results)"

definition basic_result ::
  "mapping_env \<Rightarrow> (ustr \<times> ustr) list \<Rightarrow> ustr list option \<Rightarrow> dict list \<Rightarrow> json \<Rightarrow> stage_exc + mapping_apply_result" where
  "basic_result env compiled paths rules event = (case event of
     JDict e \<Rightarrow> (case apply_compiled_mapping (me_jsonpath env) event compiled paths of
       Inl x \<Rightarrow> Inl x
     | Inr mapped \<Rightarrow> (case (if rules = [] then Inr (mapped, []) else apply_field_transform_rules env e rules mapped) of
         Inl x \<Rightarrow> Inl x
       | Inr (mapped', results) \<Rightarrow> Inr \<lparr>ma_event = mapped', ma_field_errors = transform_errors results, ma_event_error = None\<rparr>))
   | _ \<Rightarrow> Inr (not_an_event event))"

definition apply_mappings_with_results :: "mapping_env \<Rightarrow> json list \<Rightarrow> dict \<Rightarrow> stage_exc + mapping_apply_result list" where
  "apply_mappings_with_results env events fm =
     (if is_full_event_mapping fm then emap (full_event_result env fm) events
      else case compile_mappings (me_jsonpath env) (extract_basic_jsonpath_mappings fm) of
        Inl x \<Rightarrow> Inl x
      | Inr compiled \<Rightarrow> emap (basic_result env compiled (source_paths fm)
          (extract_field_transform_rules fm (u ''transform_rules''))) events)"

section \<open>Batches\<close>

lemma emap_cases:
  "case emap f xs of Inl x \<Rightarrow> \<exists>e \<in> set xs. f e = Inl x | Inr ys \<Rightarrow> list_all2 (\<lambda>x y. f x = Inr y) xs ys"
  by (induction xs) (auto split: sum.splits)

lemma emap_Inr: "emap f xs = Inr ys \<Longrightarrow> list_all2 (\<lambda>x y. f x = Inr y) xs ys"
  using emap_cases [where f = f and xs = xs] by simp

lemma emap_member: "emap f xs = Inr ys \<Longrightarrow> y \<in> set ys \<Longrightarrow> \<exists>x \<in> set xs. f x = Inr y"
  by (induction xs arbitrary: ys) (auto split: sum.splits)

lemma emap_all: "emap f xs = Inr ys \<Longrightarrow> (\<And>x y. x \<in> set xs \<Longrightarrow> f x = Inr y \<Longrightarrow> Q y) \<Longrightarrow> \<forall>y \<in> set ys. Q y"
  using emap_member by metis

lemma emap_agrees:
  assumes "\<And>x e. f x = Inl e \<Longrightarrow> g x = Inl e" "\<And>x y. f x = Inr y \<Longrightarrow> R x y"
  shows "case emap f xs of Inl x \<Rightarrow> \<exists>e \<in> set xs. g e = Inl x | Inr ys \<Rightarrow> list_all2 R xs ys"
proof (cases "emap f xs")
  case (Inl x)
  then show ?thesis using emap_cases [where f = f and xs = xs] assms(1) by fastforce
next
  case (Inr ys)
  then show ?thesis using emap_cases [where f = f and xs = xs] assms(2) by (auto elim: list_all2_mono)
qed

lemma field_rule_error_message:
  "evaluate_field_transform_rule env e rule = Inr r \<Longrightarrow> \<not> tr_success r \<Longrightarrow> \<exists>m. tr_error_message r = Some m \<and> m \<noteq> []"
  by (auto simp: evaluate_field_transform_rule_def eval_jsonata_rule_def eval_regex_rule_def field_rule_result_error_def field_rule_result_ok_def Let_def u_def split: if_splits sum.splits option.splits json.splits pyexc.splits)

lemma transform_results_messages:
  "transform_rules_loop env rules acc ctx = Inr (out, rs) \<Longrightarrow> r \<in> set rs \<Longrightarrow> \<not> tr_success r \<Longrightarrow>
     \<exists>m. tr_error_message r = Some m \<and> m \<noteq> []"
proof (induction env rules acc ctx arbitrary: out rs rule: transform_rules_loop.induct)
  case (2 env rl rules acc ctx)
  then show ?case by (auto split: sum.splits if_splits dest: field_rule_error_message)
qed simp

lemma first_error_message:
  assumes "\<forall>r \<in> set rs. \<not> tr_success r \<longrightarrow> (\<exists>m. tr_error_message r = Some m \<and> m \<noteq> [])"
  shows "(case find (\<lambda>r. \<not> tr_success r) rs of
      Some r \<Rightarrow> Inl (MappingError (or_text (tr_error_message r) (or_text (tr_error_code r) (u ''Advanced transform failed''))))
    | None \<Rightarrow> Inr mapped) =
    (if transform_errors rs = [] then Inr mapped else Inl (MappingError (fe_message (hd (transform_errors rs)))))"
  using assms by (induction rs) (auto simp: transform_errors_def or_text_def)

definition single_outcome :: "dict \<Rightarrow> mapping_apply_result \<Rightarrow> stage_exc + dict" where
  "single_outcome fm r = (case ma_event_error r of
     Some (code, msg) \<Rightarrow> Inl (MappingError msg)
   | None \<Rightarrow> if is_full_event_mapping fm \<or> ma_field_errors r = [] then Inr (ma_event r)
             else Inl (MappingError (fe_message (hd (ma_field_errors r)))))"

lemma full_mapping_nonempty: "is_full_event_mapping fm \<Longrightarrow> fm \<noteq> []"
  by (auto simp: is_full_event_mapping_def get_mapping_mode_def dget_none_def)

lemma full_event_agrees:
  assumes "is_full_event_mapping fm"
  shows "full_event_result env fm e = Inl x \<Longrightarrow> apply_mapping env e fm = Inl x"
    and "full_event_result env fm e = Inr r \<Longrightarrow> apply_mapping env e fm = single_outcome fm r"
  using assms full_mapping_nonempty [OF assms]
  by (auto simp: full_event_result_def apply_mapping_def apply_mapping_with_transform_results_def single_outcome_def
      not_an_event_def event_failed_def is_dict_def split: json.splits sum.splits stage_exc.splits list.splits)

lemma basic_agrees:
  assumes "\<not> is_full_event_mapping fm" "compile_mappings (me_jsonpath env) (extract_basic_jsonpath_mappings fm) = Inr compiled"
  defines "f \<equiv> basic_result env compiled (source_paths fm) (extract_field_transform_rules fm (u ''transform_rules''))"
  shows "f e = Inl x \<Longrightarrow> apply_mapping env e fm = Inl x"
    and "f e = Inr r \<Longrightarrow> apply_mapping env e fm = single_outcome fm r"
proof -
  let ?rules = "extract_field_transform_rules fm (u ''transform_rules'')"
  let ?step = "\<lambda>d mapped. if ?rules = [] then Inr (mapped, []) else apply_field_transform_rules env d ?rules mapped"
  have m: "apply_mapping_with_transform_results env (JDict d) fm = (case apply_compiled_mapping (me_jsonpath env) (JDict d) compiled (source_paths fm) of
      Inl x \<Rightarrow> Inl x | Inr mapped \<Rightarrow> ?step d mapped)" for d
    using assms(1,2) by (cases "fm = []") (auto simp: apply_mapping_with_transform_results_def apply_compiled_mapping_def
      extract_field_transform_rules_def Let_def split: sum.splits)
  have msg: "\<forall>r \<in> set rs. \<not> tr_success r \<longrightarrow> (\<exists>m. tr_error_message r = Some m \<and> m \<noteq> [])" if "?step d mapped = Inr (out, rs)" for d mapped out rs
    using that by (auto simp: apply_field_transform_rules_def split: if_splits dest: transform_results_messages)
  show "apply_mapping env e fm = Inl x" if "f e = Inl x"
    using that by (auto simp: f_def basic_result_def apply_mapping_def m split: json.splits sum.splits)
  show "apply_mapping env e fm = single_outcome fm r" if r: "f e = Inr r"
  proof (cases e)
    case (JDict d)
    with r obtain mapped out rs where s: "apply_compiled_mapping (me_jsonpath env) (JDict d) compiled (source_paths fm) = Inr mapped"
      "?step d mapped = Inr (out, rs)" "r = \<lparr>ma_event = out, ma_field_errors = transform_errors rs, ma_event_error = None\<rparr>"
      by (auto simp: f_def basic_result_def split: sum.splits)
    with JDict m [of d] first_error_message [OF msg [OF s(2)], of out] assms(1) show ?thesis
      by (simp add: apply_mapping_def single_outcome_def)
  qed (use r in \<open>auto simp: f_def basic_result_def apply_mapping_def apply_mapping_with_transform_results_def single_outcome_def
      not_an_event_def event_failed_def\<close>)
qed

lemma batch_agrees:
  "case apply_mappings_with_results env events fm of
     Inl x \<Rightarrow> compile_mappings (me_jsonpath env) (extract_basic_jsonpath_mappings fm) = Inl x \<or> (\<exists>e \<in> set events. apply_mapping env e fm = Inl x)
   | Inr rs \<Rightarrow> list_all2 (\<lambda>e r. apply_mapping env e fm = single_outcome fm r) events rs"
proof (cases "is_full_event_mapping fm")
  case True
  then show ?thesis using emap_agrees [where f = "full_event_result env fm" and g = "\<lambda>e. apply_mapping env e fm" and xs = events
      and R = "\<lambda>e r. apply_mapping env e fm = single_outcome fm r"] full_event_agrees [OF True, of env]
    by (auto simp: apply_mappings_with_results_def split: sum.splits)
next
  case False
  show ?thesis
  proof (cases "compile_mappings (me_jsonpath env) (extract_basic_jsonpath_mappings fm)")
    case (Inr compiled)
    then show ?thesis
      using emap_agrees [where f = "basic_result env compiled (source_paths fm) (extract_field_transform_rules fm (u ''transform_rules''))"
          and g = "\<lambda>e. apply_mapping env e fm" and xs = events and R = "\<lambda>e r. apply_mapping env e fm = single_outcome fm r"]
        basic_agrees [OF False Inr] False
      by (auto simp: apply_mappings_with_results_def split: sum.splits)
  qed (use False in \<open>simp add: apply_mappings_with_results_def\<close>)
qed

text \<open>
  C29. Preview and runtime map alike.  The batch entry point of the runtime gives one result per event, in the order of the
  events, and each agrees with the single-event entry point: an event error or a failed field rule is what the
  single-event call raises, and otherwise both return the same mapped event.  When the batch raises, the configured paths
  do not compile or the single-event call raises the same on some event.
\<close>

theorem batch_mapping_agrees:
  "case apply_mappings_with_results env events fm of
     Inl x \<Rightarrow> compile_mappings (me_jsonpath env) (extract_basic_jsonpath_mappings fm) = Inl x \<or> (\<exists>e \<in> set events. apply_mapping env e fm = Inl x)
   | Inr rs \<Rightarrow> list_all2 (\<lambda>e r. apply_mapping env e fm = single_outcome fm r) events rs"
  by (rule batch_agrees)

text \<open>
  A rule whose source path does not parse is no field error: it raises out of the batch, whatever the other events are.
\<close>

lemma bad_rule_path_aborts_batch:
  assumes "jp_error (me_jsonpath env) (u ''$['') = Some msg"
  shows "\<exists>m. apply_mappings_with_results env (JDict e # es) [(u ''transform_rules'', JList [JDict
     [(u ''mode'', JStr (u ''regex_extract'')), (u ''output_field'', JStr (u ''x'')), (u ''source_path'', JStr (u ''$['')),
      (u ''pattern'', JStr (u ''(a)''))]])] = Inl (ParserError m)"
proof -
  let ?rule = "[(u ''mode'', JStr (u ''regex_extract'')), (u ''output_field'', JStr (u ''x'')), (u ''source_path'', JStr (u ''$['')),
      (u ''pattern'', JStr (u ''(a)''))]"
  let ?fm = "[(u ''transform_rules'', JList [JDict ?rule])]"
  have t: "rule_text ?rule [''mode'', ''type''] = u ''regex_extract''" "lower (u ''regex_extract'') = u ''regex_extract''"
      "rule_text ?rule [''output_field'', ''field'', ''target_field''] = u ''x''"
      "rule_text ?rule [''source_path'', ''path''] = u ''$[''" "rule_text ?rule [''pattern''] = u ''(a)''"
      "rule_group ?rule ''group'' ''capture_group'' = JInt 1" "normalize_jsonpath (u ''$['') = u ''$[''"
    by (simp_all add: rule_text_def rule_group_def dget_none_def dget_default_def truthy_def u_def py_str_def strip_def is_space_def
        lower_def ch_lower_def normalize_jsonpath_def)
  have n: "u ''x'' \<noteq> []" "u ''regex_extract'' \<noteq> u ''jsonata''" "u ''$['' \<noteq> []" "u ''(a)'' \<noteq> []" "u ''$['' \<noteq> u ''$''"
    by (simp_all add: u_def)
  have "\<exists>m. evaluate_field_transform_rule env (JDict v) ?rule = Inl (ParserError m)" for v
    using assms n by (simp add: evaluate_field_transform_rule_def eval_regex_rule_def t py_int_def extract_one_def
        find_values_def compile_jsonpath_def Let_def is_dict_def)
  then obtain m where "evaluate_field_transform_rule env (JDict (foldl (\<lambda>c (k, v). dset k v c) e e)) ?rule = Inl (ParserError m)"
    by blast
  then have m: "apply_field_transform_rules env e [?rule] e = Inl (ParserError m)"
    by (simp add: apply_field_transform_rules_def)
  have "\<not> is_full_event_mapping ?fm" by (simp add: is_full_event_mapping_def get_mapping_mode_def dget_none_def)
  moreover have "extract_basic_jsonpath_mappings ?fm = []" by (simp add: FIELD_MAPPINGS_META_KEYS_def)
  moreover have "extract_field_transform_rules ?fm (u ''transform_rules'') = [?rule]" by (simp add: extract_field_transform_rules_def)
  ultimately show ?thesis using m by (simp add: apply_mappings_with_results_def basic_result_def apply_compiled_mapping_def)
qed

section \<open>Well-formed results\<close>

text \<open>What the outside engines may be assumed to return: documents whose dictionaries have distinct keys.\<close>

definition mapping_env_ok :: "mapping_env \<Rightarrow> bool" where
  "mapping_env_ok env \<longleftrightarrow>
     (\<forall>p v ms m. json_ok v \<longrightarrow> jp_matches (me_jsonpath env) p v = Inr ms \<longrightarrow> m \<in> set ms \<longrightarrow> json_ok (fst m)) \<and>
     (\<forall>f x v w. me_jsonata env = Some f \<longrightarrow> json_ok v \<longrightarrow> f x v = Inr w \<longrightarrow> json_ok w)"

lemma json_ok_empty [simp]: "json_ok (JDict [])"
  by simp

named_theorems map_wf "what the mapping engine keeps of well-formedness"

lemma extract_one_compiled_ok [map_wf]:
  "mapping_env_ok env \<Longrightarrow> json_ok v \<Longrightarrow> extract_one_compiled (me_jsonpath env) p v = Inr w \<Longrightarrow> json_ok w"
  by (fastforce simp: extract_one_compiled_def find_matches_compiled_def mapping_env_ok_def split: if_splits sum.splits list.splits pyexc.splits)

lemma extract_one_ok [map_wf]:
  "mapping_env_ok env \<Longrightarrow> json_ok v \<Longrightarrow> extract_one (me_jsonpath env) v path = Inr w \<Longrightarrow> json_ok w"
  by (fastforce simp: extract_one_def find_values_def find_matches_compiled_def mapping_env_ok_def
      split: if_splits sum.splits list.splits pyexc.splits)

lemma field_rule_default_ok [map_wf]: "json_ok (JDict rule) \<Longrightarrow> field_rule_default rule = Some v \<Longrightarrow> json_ok v"
  by (auto simp: field_rule_default_def split: option.splits dest: json_ok_dget)

lemma result_value [simp]:
  "tr_value (field_rule_result_error f mode rid code msg) = JNull" "tr_value (field_rule_result_ok f mode rid v rec) = v"
  by (simp_all add: field_rule_result_error_def field_rule_result_ok_def)

lemma jsonata_rule_value:
  "tr_value (eval_jsonata_rule env v rule f mode rid) = w \<Longrightarrow> w = JNull \<or> field_rule_default rule = Some w \<or>
     (\<exists>g x. me_jsonata env = Some g \<and> g x v = Inr w)"
  unfolding eval_jsonata_rule_def Let_def by (auto split: if_splits option.splits sum.splits json.splits)

lemma jsonata_rule_ok:
  assumes "mapping_env_ok env" "json_ok v" "json_ok (JDict rule)"
  shows "json_ok (tr_value (eval_jsonata_rule env v rule f mode rid))"
  using jsonata_rule_value [OF refl, of env v rule f mode rid]
proof (elim disjE exE)
  fix g x
  assume "me_jsonata env = Some g \<and> g x v = Inr (tr_value (eval_jsonata_rule env v rule f mode rid))"
  then show ?thesis using assms(1,2) unfolding mapping_env_ok_def by blast
qed (use field_rule_default_ok [OF assms(3)] in \<open>auto simp del: json_ok.simps(2)\<close>)

lemma regex_rule_ok:
  assumes "json_ok (JDict rule)" "eval_regex_rule env v rule f mode rid = Inr r"
  shows "json_ok (tr_value r)"
proof -
  have "json_ok w" if "field_rule_default rule = Some w" for w using assms(1) that by (rule field_rule_default_ok)
  then show ?thesis using assms(2) by (auto simp: eval_regex_rule_def Let_def split: if_splits option.splits sum.splits pyexc.splits)
qed

lemma rule_value_ok:
  assumes "mapping_env_ok env" "json_ok v" "json_ok (JDict rule)" "evaluate_field_transform_rule env v rule = Inr r"
  shows "json_ok (tr_value r)"
  using assms(4) jsonata_rule_ok [OF assms(1-3)] regex_rule_ok [OF assms(3)]
  by (auto simp: evaluate_field_transform_rule_def Let_def simp del: json_ok.simps(2) split: if_splits)

lemma transform_loop_ok:
  "transform_rules_loop env rules acc ctx = Inr (out, rs) \<Longrightarrow> mapping_env_ok env \<Longrightarrow> \<forall>rl \<in> set rules. json_ok (JDict rl) \<Longrightarrow>
     json_ok (JDict acc) \<Longrightarrow> json_ok (JDict ctx) \<Longrightarrow> json_ok (JDict out)"
proof (induction env rules acc ctx arbitrary: out rs rule: transform_rules_loop.induct)
  case (2 env rl rules acc ctx)
  then obtain r where r: "evaluate_field_transform_rule env (JDict ctx) rl = Inr r" by (auto split: sum.splits)
  have v: "json_ok (tr_value r)" using rule_value_ok [OF 2(4) 2(7) _ r] 2(5) by simp
  show ?case
  proof (cases "tr_success r \<and> tr_output_field r \<noteq> []")
    case True
    with 2(1) [OF r True] 2(3-) r show ?thesis
      using json_ok_dset [OF 2(6) v] json_ok_dset [OF 2(7) v] by (auto split: sum.splits simp del: json_ok.simps)
  next
    case False
    with 2(2) [OF r False] 2(3-) r show ?thesis by (auto split: sum.splits simp del: json_ok.simps)
  qed
qed simp

lemma foldl_dset_ok:
  "json_ok (JDict e) \<Longrightarrow> json_ok (JDict d) \<Longrightarrow> json_ok (JDict (foldl (\<lambda>c (k, v). dset k v c) e d))"
proof (induction d arbitrary: e)
  case (Cons x d)
  have "json_ok (snd x)" "json_ok (JDict d)" using Cons(3) by auto
  with Cons(1) [of "dset (fst x) (snd x) e"] json_ok_dset [OF Cons(2)] show ?case by (simp add: case_prod_unfold del: json_ok.simps)
qed simp

lemma apply_field_transform_rules_ok [map_wf]:
  "apply_field_transform_rules env e rules d = Inr (out, rs) \<Longrightarrow> mapping_env_ok env \<Longrightarrow> \<forall>rl \<in> set rules. json_ok (JDict rl) \<Longrightarrow>
     json_ok (JDict e) \<Longrightarrow> json_ok (JDict d) \<Longrightarrow> json_ok (JDict out)"
  unfolding apply_field_transform_rules_def by (blast intro: transform_loop_ok foldl_dset_ok)

lemma dicts_of_set: "d \<in> set (dicts_of vs) \<longleftrightarrow> JDict d \<in> set vs"
  by (induction vs) (auto split: json.splits)

lemma transform_rules_ok [map_wf]:
  assumes "json_ok (JDict fm)"
  shows "\<forall>rl \<in> set (extract_field_transform_rules fm key). json_ok (JDict rl)"
proof (cases "dget fm key")
  case (Some v)
  then have "json_ok v" using assms by (rule json_ok_dget [rotated])
  with Some show ?thesis by (auto simp: extract_field_transform_rules_def dicts_of_set split: json.splits simp del: json_ok.simps(2))
qed (simp add: extract_field_transform_rules_def)

lemma full_default_ok: "json_ok (JDict rl) \<Longrightarrow> json_ok (full_default rl)"
  by (auto simp: full_default_def dget_default_def dget_none_def split: option.splits dest: json_ok_dget simp del: json_ok.simps(2))

lemma full_fallback_ok:
  assumes "json_ok (JDict rl)" "json_ok (JDict (fst acc))"
  shows "json_ok (JDict (fst (full_fallback rl f w e acc)))"
  using assms(2) json_ok_dset [OF assms(2) full_default_ok [OF assms(1)]]
  by (auto simp: full_fallback_def case_prod_unfold simp del: json_ok.simps(2) split: json.splits)

lemma full_regex_rule_value:
  assumes "full_regex_rule env v i rl acc = Inr acc'"
  shows "fst acc' = fst acc \<or> (\<exists>f w e. acc' = full_fallback rl f w e acc) \<or> (\<exists>f c. fst acc' = dset f (JStr c) (fst acc))"
proof -
  obtain base es ws where acc: "acc = (base, es, ws)" by (cases acc)
  obtain base' es' ws' where acc': "acc' = (base', es', ws')" by (cases acc')
  show ?thesis using assms unfolding full_regex_rule_def Let_def acc acc' prod.case fst_conv
    by (simp split: if_split_asm sum.splits pyexc.splits option.splits) metis+
qed

lemma full_regex_rule_ok:
  assumes "json_ok (JDict rl)" "json_ok (JDict (fst acc))" "full_regex_rule env v i rl acc = Inr acc'"
  shows "json_ok (JDict (fst acc'))"
  using full_regex_rule_value [OF assms(3)] full_fallback_ok [OF assms(1,2)] assms(2) json_ok_dset [OF assms(2), of "JStr _"]
  by (auto simp del: json_ok.simps(2))

lemma full_regex_loop_ok:
  "full_regex_loop env v i rules acc = Inr acc' \<Longrightarrow> \<forall>rl \<in> set rules. json_ok (JDict rl) \<Longrightarrow> json_ok (JDict (fst acc)) \<Longrightarrow>
     json_ok (JDict (fst acc'))"
  by (induction env v i rules acc rule: full_regex_loop.induct)
    (auto split: sum.splits dest: full_regex_rule_ok simp del: json_ok.simps(2))

lemma apply_full_event_mapping_ok [map_wf]:
  assumes "mapping_env_ok env" "json_ok v" "json_ok (JDict fm)" "apply_full_event_mapping env v fm = Inr res"
  shows "json_ok (JDict (fst res))"
proof -
  obtain e where e: "v = JDict e" using assms(4) by (auto simp: apply_full_event_mapping_def split: json.splits)
  have rules: "\<forall>rl \<in> set (parse_regex_rules fm). json_ok (JDict rl)"
    using transform_rules_ok [OF assms(3), of "u ''regex_rules''"] by (simp add: parse_regex_rules_def extract_field_transform_rules_def del: json_ok.simps(2))
  have "json_ok (JDict (fst res))" if "apply_full_event_regex_mapping env e fm = Inr res"
  proof -
    let ?base = "if dget fm (u ''preserve_source_fields'') = Some (JBool True) then e else []"
    have base: "json_ok (JDict ?base)" using assms(2) e by simp
    have "fst res = ?base \<or> full_regex_loop env (JDict e) 0 (parse_regex_rules fm) (?base, [], []) = Inr res"
      using that by (auto simp: apply_full_event_regex_mapping_def Let_def split: if_splits)
    then show ?thesis
    proof
      assume "fst res = ?base"
      then show ?thesis using base by (simp only:)
    next
      assume "full_regex_loop env (JDict e) 0 (parse_regex_rules fm) (?base, [], []) = Inr res"
      then show ?thesis by (rule full_regex_loop_ok [OF _ rules]) (simp only: fst_conv base)
    qed
  qed
  moreover have "json_ok (JDict (fst res))" if "apply_full_event_jsonata_mapping env e fm = Inr res"
  proof -
    have "json_ok w" if "me_jsonata env = Some g" "g x (JDict e) = Inr w" for g x w
      using assms(1,2) e that unfolding mapping_env_ok_def by blast
    with that show ?thesis unfolding apply_full_event_jsonata_mapping_def Let_def
      by (auto split: if_splits option.splits sum.splits json.splits simp del: json_ok.simps(2))
  qed
  ultimately show ?thesis using assms(4) e by (auto simp: apply_full_event_mapping_def split: if_splits)
qed

lemma extract_fields_keys: "extract_fields jp v c = Inr d \<Longrightarrow> map fst d = map fst c"
  by (induction jp v c arbitrary: d rule: extract_fields.induct) (auto split: sum.splits)

lemma extract_fields_get:
  "extract_fields jp v c = Inr d \<Longrightarrow> distinct (map fst c) \<Longrightarrow> (f, p) \<in> set c \<Longrightarrow>
     \<exists>w. extract_one_compiled jp p v = Inr w \<and> dget d f = Some w"
  by (induction jp v c arbitrary: d rule: extract_fields.induct) (force split: sum.splits)+

lemma extract_fields_values:
  "extract_fields jp v c = Inr d \<Longrightarrow> (f, w) \<in> set d \<Longrightarrow> \<exists>p. extract_one_compiled jp p v = Inr w"
  by (induction jp v c arbitrary: d rule: extract_fields.induct) (auto split: sum.splits)

lemma extract_fields_ok:
  assumes "mapping_env_ok env" "json_ok v" "distinct (map fst c)" "extract_fields (me_jsonpath env) v c = Inr d"
  shows "json_ok (JDict d)"
  using extract_fields_keys [OF assms(4)] extract_fields_values [OF assms(4)] extract_one_compiled_ok [OF assms(1,2)] assms(3) by fastforce

lemma selected_removals_json_ok:
  assumes "json_ok v" "distinct sel"
  shows "json_ok (apply_selected_removals v sel)"
  using removals_root [of sel v] selected_removals_cut [OF assms(2), of v] cut_ok [OF assms(1), of sel]
  by (cases "[] \<in> set sel") simp_all

lemma pass_through_ok:
  assumes "json_ok (JDict e)" "json_ok (JDict d)" "merge_unknown_field_pass_through jp (JDict e) d paths = Inr out"
  shows "json_ok (JDict out) \<and> extends (JDict d) (JDict out)"
proof (cases "maps_whole_event paths")
  case True
  with assms show ?thesis by (simp add: merge_unknown_field_pass_through_def is_dict_def extends_refl del: json_ok.simps extends.simps)
next
  case False
  with assms(3) obtain sel r where "distinct sel" "apply_selected_removals (JDict e) sel = JDict r" "out = deep_merge_pass_through d r"
    by (rule pass_through_merge)
  then show ?thesis using deep_merge_ok [OF assms(2)] selected_removals_json_ok [OF assms(1)] by metis
qed

lemma apply_compiled_mapping_ok [map_wf]:
  assumes "mapping_env_ok env" "json_ok v" "distinct (map fst c)" "apply_compiled_mapping (me_jsonpath env) v c paths = Inr out"
  shows "json_ok (JDict out)"
proof -
  obtain e where e: "v = JDict e" using assms(4) by (auto simp: apply_compiled_mapping_def split: json.splits)
  show ?thesis using assms(4) e assms(2) extract_fields_ok [OF assms(1-3)] pass_through_ok [of e]
    by (auto simp: apply_compiled_mapping_def simp del: json_ok.simps(2) split: if_splits sum.splits option.splits)
qed

lemma basic_mappings_keys: "set (extract_basic_jsonpath_mappings fm) \<subseteq> {(k, p). k \<in> fst ` set fm}"
proof (induction fm)
  case (Cons x fm)
  then show ?case by (cases x) (auto split: if_splits json.splits)
qed simp

lemma basic_mappings_distinct: "distinct (map fst fm) \<Longrightarrow> distinct (map fst (extract_basic_jsonpath_mappings fm))"
proof (induction fm rule: extract_basic_jsonpath_mappings.induct)
  case (2 key v fm)
  with basic_mappings_keys [of fm] show ?case by (force split: json.splits)
qed simp

lemma compile_mappings_keys: "compile_mappings jp fm = Inr c \<Longrightarrow> c = map (\<lambda>(f, p). (f, normalize_jsonpath p)) fm"
  by (induction jp fm arbitrary: c rule: compile_mappings.induct) (auto simp: compile_jsonpath_def Let_def split: sum.splits option.splits)

lemma mapping_results_ok [map_wf]:
  assumes "mapping_env_ok env" "\<forall>e \<in> set events. json_ok e" "json_ok (JDict fm)" "apply_mappings_with_results env events fm = Inr rs"
  shows "\<forall>r \<in> set rs. json_ok (JDict (ma_event r))"
proof (cases "is_full_event_mapping fm")
  case True
  have "json_ok (JDict (ma_event r))" if "json_ok e" "full_event_result env fm e = Inr r" for e r
  proof (cases "apply_full_event_mapping env e fm")
    case (Inr res)
    with that(2) apply_full_event_mapping_ok [OF assms(1) that(1) assms(3) Inr] show ?thesis
      by (cases res) (auto simp: full_event_result_def not_an_event_def event_failed_def split: if_splits list.splits)
  qed (use that(2) in \<open>auto simp: full_event_result_def not_an_event_def event_failed_def split: if_splits stage_exc.splits\<close>)
  moreover have "emap (full_event_result env fm) events = Inr rs"
    using True assms(4) by (simp add: apply_mappings_with_results_def)
  ultimately show ?thesis using assms(2) by (intro emap_all) blast+
next
  case False
  with assms(4) obtain compiled where c: "compile_mappings (me_jsonpath env) (extract_basic_jsonpath_mappings fm) = Inr compiled"
    by (auto simp: apply_mappings_with_results_def split: sum.splits)
  have "distinct (map fst compiled)" using compile_mappings_keys [OF c] assms(3) basic_mappings_distinct [of fm]
    by (simp add: case_prod_unfold comp_def)
  note m = apply_compiled_mapping_ok [OF assms(1) _ this]
  have "json_ok (JDict (ma_event r))" if "json_ok e"
    "basic_result env compiled (source_paths fm) (extract_field_transform_rules fm (u ''transform_rules'')) e = Inr r" for e r
  proof (cases e)
    case (JDict d)
    note h = that
    from JDict obtain mapped where mapped: "apply_compiled_mapping (me_jsonpath env) e compiled (source_paths fm) = Inr mapped"
      using h(2) by (auto simp: basic_result_def split: sum.splits)
    let ?rules = "extract_field_transform_rules fm (u ''transform_rules'')"
    from mapped h(2) JDict have "ma_event r = mapped \<or> (\<exists>rs. apply_field_transform_rules env d ?rules mapped = Inr (ma_event r, rs))"
      by (auto simp: basic_result_def split: if_splits sum.splits)
    then show ?thesis
      using m [OF h(1) mapped] apply_field_transform_rules_ok [OF _ assms(1) transform_rules_ok [OF assms(3)]] h(1) JDict by blast
  qed (use that(2) in \<open>auto simp: basic_result_def not_an_event_def event_failed_def\<close>)
  moreover have "emap (basic_result env compiled (source_paths fm) (extract_field_transform_rules fm (u ''transform_rules''))) events = Inr rs"
    using False c assms(4) by (simp add: apply_mappings_with_results_def)
  ultimately show ?thesis using assms(2) by (intro emap_all) blast+
qed

section \<open>Delivered fields\<close>

lemma basic_mapping_value:
  assumes "apply_mapping env (JDict e) fm = Inr out" "\<not> is_full_event_mapping fm"
    and "extract_field_transform_rules fm (u ''transform_rules'') = []"
    and "mapping_env_ok env" "json_ok (JDict e)" "json_ok (JDict fm)" "(f, path) \<in> set (extract_basic_jsonpath_mappings fm)"
  shows "\<exists>v w. extract_one_compiled (me_jsonpath env) (normalize_jsonpath path) (JDict e) = Inr v \<and> dget out f = Some w \<and> extends v w \<and>
    (\<not> should_pass_through_unmapped fm \<longrightarrow> w = v \<and> map fst out = map fst (extract_basic_jsonpath_mappings fm))"
proof -
  have "fm \<noteq> []" using assms(7) by auto
  then obtain compiled where c: "compile_mappings (me_jsonpath env) (extract_basic_jsonpath_mappings fm) = Inr compiled"
    and out: "apply_compiled_mapping (me_jsonpath env) (JDict e) compiled (source_paths fm) = Inr out"
    using assms(1-3) by (auto simp: apply_mapping_def apply_mapping_with_transform_results_def Let_def split: sum.splits option.splits)
  note k = compile_mappings_keys [OF c]
  have d: "distinct (map fst compiled)" using k assms(6) basic_mappings_distinct [of fm] by (simp add: case_prod_unfold comp_def)
  have mem: "(f, normalize_jsonpath path) \<in> set compiled" using assms(7) k by force
  then obtain fields where fields: "extract_fields (me_jsonpath env) (JDict e) compiled = Inr fields"
    and rest: "case source_paths fm of Some ps \<Rightarrow> merge_unknown_field_pass_through (me_jsonpath env) (JDict e) fields ps = Inr out
      | None \<Rightarrow> fields = out"
    using out by (auto simp: apply_compiled_mapping_def split: if_splits sum.splits option.splits)
  obtain v where v: "extract_one_compiled (me_jsonpath env) (normalize_jsonpath path) (JDict e) = Inr v" "dget fields f = Some v"
    using extract_fields_get [OF fields d mem] by blast
  have ok: "json_ok (JDict fields)" using extract_fields_ok [OF assms(4,5) d fields] .
  have keys: "map fst fields = map fst (extract_basic_jsonpath_mappings fm)"
    using extract_fields_keys [OF fields] k by (simp add: case_prod_unfold comp_def)
  have "extends (JDict fields) (JDict out)"
    using rest pass_through_ok [OF assms(5) ok] extends_refl [OF ok] by (auto split: option.splits simp del: extends.simps json_ok.simps)
  then obtain w where "dget out f = Some w" "extends v w" using map_of_SomeD [OF v(2)] by (fastforce split: option.splits)
  then show ?thesis using v rest keys by (auto simp: source_paths_def split: option.splits if_splits)
qed

text \<open>
  A mapped field is delivered.  With basic mapping and no advanced rule, every configured output field is in the mapped
  event: it holds the first match of its path (null without a match), to which pass-through may only add members.
  Under \<open>drop_unmapped\<close> the mapped event consists of exactly the configured fields, in their order, with exactly these values.
\<close>

lemma mapped_fields_delivered:
  assumes "apply_mapping env (JDict e) fm = Inr out" "\<not> is_full_event_mapping fm"
    and "extract_field_transform_rules fm (u ''transform_rules'') = []"
    and "mapping_env_ok env" "json_ok (JDict e)" "json_ok (JDict fm)" "(f, path) \<in> set (extract_basic_jsonpath_mappings fm)"
  shows "\<exists>v w. extract_one_compiled (me_jsonpath env) (normalize_jsonpath path) (JDict e) = Inr v \<and> dget out f = Some w \<and> extends v w \<and>
    (\<not> should_pass_through_unmapped fm \<longrightarrow> w = v \<and> map fst out = map fst (extract_basic_jsonpath_mappings fm))"
  using assms by (rule basic_mapping_value)

definition demo_mapping_env :: mapping_env where
  "demo_mapping_env = \<lparr>me_jsonpath = demo_jsonpath, me_jsonata = None, me_regex = (\<lambda>p. Inl p)\<rparr>"

lemma demo_mapping_env_ok: "mapping_env_ok demo_mapping_env"
  by (auto simp: mapping_env_ok_def demo_mapping_env_def demo_jsonpath_def split: json.splits option.splits
      intro: json_ok_dget simp del: json_ok.simps(2))

definition demo_fields :: dict where
  "demo_fields = [(u ''x'', JStr (u ''$.a'')), (u ''unmapped_fields_policy'', JStr (u ''drop_unmapped''))]"

definition demo_record :: dict where
  "demo_record = [(u ''a'', JInt 1), (u ''b'', JInt 2)]"

lemma demo_fields_basic:
  "\<not> is_full_event_mapping demo_fields" "extract_field_transform_rules demo_fields (u ''transform_rules'') = []"
  "extract_basic_jsonpath_mappings demo_fields = [(u ''x'', u ''$.a'')]" "\<not> should_pass_through_unmapped demo_fields"
  "normalize_jsonpath (u ''$.a'') = u ''$.a''" "json_ok (JDict demo_fields)" "json_ok (JDict demo_record)"
proof -
  have s: "strip (u ''$.a'') = u ''$.a''" "strip (u ''drop_unmapped'') = u ''drop_unmapped''" "u ''$.a'' \<noteq> []"
    by (simp_all add: strip_def u_def is_space_def)
  show "\<not> is_full_event_mapping demo_fields" by (simp add: is_full_event_mapping_def get_mapping_mode_def dget_none_def demo_fields_def)
  show "extract_field_transform_rules demo_fields (u ''transform_rules'') = []" by (simp add: extract_field_transform_rules_def demo_fields_def)
  have "u ''x'' \<notin> set FIELD_MAPPINGS_META_KEYS" "\<not> startswith (u ''x'') (u ''_'')" "u ''unmapped_fields_policy'' \<in> set FIELD_MAPPINGS_META_KEYS"
    by (simp_all add: FIELD_MAPPINGS_META_KEYS_def startswith_def)
  then show "extract_basic_jsonpath_mappings demo_fields = [(u ''x'', u ''$.a'')]" using s by (simp add: demo_fields_def)
  show "\<not> should_pass_through_unmapped demo_fields"
    by (simp add: should_pass_through_unmapped_def get_unmapped_fields_policy_def dget_default_def py_str_def s Let_def demo_fields_def)
  show "normalize_jsonpath (u ''$.a'') = u ''$.a''" using s by (simp add: normalize_jsonpath_def)
  show "json_ok (JDict demo_fields)" "json_ok (JDict demo_record)" by (simp_all add: demo_fields_def demo_record_def)
qed

lemma demo_fields_compile:
  "compile_mappings demo_jsonpath (extract_basic_jsonpath_mappings demo_fields) = Inr [(u ''x'', u ''$.a'')]"
  "apply_compiled_mapping demo_jsonpath (JDict demo_record) [(u ''x'', u ''$.a'')] (source_paths demo_fields) = Inr [(u ''x'', JInt 1)]"
proof -
  have "extract_one_compiled demo_jsonpath (u ''$.a'') (JDict demo_record) = Inr (JInt 1)"
    by (simp add: extract_one_compiled_def is_dict_def find_matches_compiled_def demo_jsonpath_def demo_record_def) (simp add: u_def)
  then show "apply_compiled_mapping demo_jsonpath (JDict demo_record) [(u ''x'', u ''$.a'')] (source_paths demo_fields) = Inr [(u ''x'', JInt 1)]"
    using demo_fields_basic(4) by (simp add: apply_compiled_mapping_def source_paths_def)
  show "compile_mappings demo_jsonpath (extract_basic_jsonpath_mappings demo_fields) = Inr [(u ''x'', u ''$.a'')]"
    using demo_fields_basic(3,5) by (simp add: compile_jsonpath_def demo_jsonpath_def)
qed

lemma mapped_fields_delivered_witness:
  "\<exists>v w. extract_one_compiled demo_jsonpath (u ''$.a'') (JDict demo_record) = Inr v \<and> dget [(u ''x'', JInt 1)] (u ''x'') = Some w \<and> extends v w"
proof -
  have "demo_fields \<noteq> []" by (simp add: demo_fields_def)
  then have "apply_mapping demo_mapping_env (JDict demo_record) demo_fields = Inr [(u ''x'', JInt 1)]"
    using demo_fields_basic(1,2) demo_fields_compile
    by (simp add: apply_mapping_def apply_mapping_with_transform_results_def demo_mapping_env_def)
  from mapped_fields_delivered [OF this demo_fields_basic(1,2) demo_mapping_env_ok demo_fields_basic(7,6), of "u ''x''" "u ''$.a''"] demo_fields_basic(3,5)
  show ?thesis by (auto simp: demo_mapping_env_def)
qed

end
