(* ===== verification/Expressions.thy ===== *)
theory Expressions
  imports Prelude
begin

text \<open>
  Calculated enrichment expressions: \<^verbatim>\<open>app/enrichers/expression_evaluator.py\<close> and the dotted field paths of
  \<^verbatim>\<open>app/enrichers/field_paths.py\<close>.  The regular expressions of the code are sequences of quantified character classes;
  \<open>rx_match\<close> matches such a sequence with backtracking, in the order Python tries.  Arguments are the clock (as its ISO text) and
  the reading of a decimal literal as a float.  Digits and letter case are ASCII.  The two loops whose end is not evident,
  the search of the next call and the recursion through nested conditionals, are partial functions, and are proved to return.
\<close>

section \<open>Dotted field paths\<close>

definition get_field_parts :: "dict \<Rightarrow> ustr list \<Rightarrow> json" where
  "get_field_parts event parts = foldl (\<lambda>cur part. case cur of JDict d \<Rightarrow> dget_none d part | _ \<Rightarrow> JNull) (JDict event) parts"

definition get_field_value :: "dict \<Rightarrow> ustr \<Rightarrow> json" where
  "get_field_value event path =
     (let key = strip path
      in if key = [] then JNull
         else if 46 \<notin> set key then dget_none event key
         else get_field_parts event (split_on 46 key))"

fun has_parts :: "json \<Rightarrow> ustr list \<Rightarrow> bool" where
  "has_parts cur [] = True"
| "has_parts cur (p # ps) = (case cur of
     JDict d \<Rightarrow> (case dget d p of Some v \<Rightarrow> has_parts v ps | None \<Rightarrow> False)
   | _ \<Rightarrow> False)"

definition has_field_value :: "dict \<Rightarrow> ustr \<Rightarrow> bool" where
  "has_field_value event path =
     (let key = strip path
      in if key = [] then False
         else if 46 \<notin> set key then dget event key \<noteq> None
         else has_parts (JDict event) (split_on 46 key))"

definition name_start :: "nat \<Rightarrow> bool" where
  "name_start c \<longleftrightarrow> 65 \<le> c \<and> c \<le> 90 \<or> 97 \<le> c \<and> c \<le> 122 \<or> c = 95"

definition name_char :: "nat \<Rightarrow> bool" where
  "name_char c \<longleftrightarrow> name_start c \<or> is_digit c"

definition is_name :: "ustr \<Rightarrow> bool" where
  "is_name s = (case s of [] \<Rightarrow> False | c # cs \<Rightarrow> name_start c \<and> list_all name_char cs)"

definition is_valid_field_path :: "ustr \<Rightarrow> bool" where
  "is_valid_field_path path =
     (let key = strip path
      in if key = [] \<or> startswith key (u ''__'') then False else list_all is_name (split_on 46 key))"

fun set_parts :: "ustr list \<Rightarrow> json \<Rightarrow> dict \<Rightarrow> dict" where
  "set_parts [] v d = d"
| "set_parts [p] v d = dset p v d"
| "set_parts (p # ps) v d = dset p (JDict (set_parts ps v (case dget d p of Some (JDict c) \<Rightarrow> c | _ \<Rightarrow> []))) d"

text \<open>\<open>None\<close> stands for the answer false, after which the event is as it was.\<close>

definition set_field_value :: "dict \<Rightarrow> ustr \<Rightarrow> json \<Rightarrow> dict option" where
  "set_field_value event path v =
     (let key = strip path
      in if key = [] \<or> \<not> is_valid_field_path key then None else Some (set_parts (split_on 46 key) v event))"

section \<open>Regular expressions\<close>

datatype rx = Rx "nat \<Rightarrow> bool" nat "nat option" bool | Rx_Lit ustr

fun rx_spans :: "rx \<Rightarrow> ustr \<Rightarrow> nat list" where
  "rx_spans (Rx cls lo hi lazy) s =
     (let n = length (takeWhile cls s); m = (case hi of None \<Rightarrow> n | Some h \<Rightarrow> min h n); ks = [lo..<Suc m]
      in if lazy then ks else rev ks)"
| "rx_spans (Rx_Lit p) s = (if startswith s p then [length p] else [])"

fun first_some :: "('a \<Rightarrow> 'b option) \<Rightarrow> 'a list \<Rightarrow> 'b option" where
  "first_some f [] = None"
| "first_some f (x # xs) = (case f x of Some y \<Rightarrow> Some y | None \<Rightarrow> first_some f xs)"

lemma first_some_cong [fundef_cong]:
  "xs = ys \<Longrightarrow> (\<And>x. x \<in> set ys \<Longrightarrow> f x = g x) \<Longrightarrow> first_some f xs = first_some g ys"
  by (induction ys arbitrary: xs) (auto split: option.splits)

text \<open>The texts the items take, for the first way to match up to the end (or a final line feed).\<close>

fun rx_match :: "rx list \<Rightarrow> ustr \<Rightarrow> ustr list option" where
  "rx_match [] s = (if s = [] \<or> s = [10] then Some [] else None)"
| "rx_match (r # rs) s = first_some (\<lambda>k. map_option (\<lambda>ts. take k s # ts) (rx_match rs (drop k s))) (rx_spans r s)"

definition rx_ws :: rx where "rx_ws = Rx is_space 0 None False"

definition is_quote :: "nat \<Rightarrow> bool" where "is_quote c \<longleftrightarrow> c = 39 \<or> c = 34"

definition rx_quote :: rx where "rx_quote = Rx is_quote 1 (Some 1) False"

definition rx_quote_opt :: rx where "rx_quote_opt = Rx is_quote 0 (Some 1) False"

definition rx_unquoted :: "nat \<Rightarrow> rx" where "rx_unquoted lo = Rx (\<lambda>c. \<not> is_quote c) lo None False"

definition rx_ident :: "rx list" where
  "rx_ident = [Rx name_start 1 (Some 1) False, Rx (\<lambda>c. name_char c \<or> c = 46) 0 None False]"

definition is_ident :: "ustr \<Rightarrow> bool" where
  "is_ident s = (case s of [] \<Rightarrow> False | c # cs \<Rightarrow> name_start c \<and> list_all (\<lambda>c. name_char c \<or> c = 46) cs)"

text \<open>Python's \<open>p in s\<close> and \<open>s.find(p, start)\<close>.\<close>

definition has_sub :: "ustr \<Rightarrow> ustr \<Rightarrow> bool" where
  "has_sub s p = list_ex (\<lambda>i. startswith (drop i s) p) [0..<Suc (length s)]"

lemma has_subI: "startswith (drop i s) p \<Longrightarrow> i \<le> length s \<Longrightarrow> has_sub s p"
  unfolding has_sub_def list_ex_iff set_upt by (rule bexI) (simp_all add: less_Suc_eq_le)

definition find_sub :: "ustr \<Rightarrow> ustr \<Rightarrow> nat \<Rightarrow> nat option" where
  "find_sub s p start = find (\<lambda>i. startswith (drop i s) p) [start..<Suc (length s)]"

section \<open>Literals and functions\<close>

record expr_env =
  xe_now :: ustr
  xe_float :: "ustr \<Rightarrow> pyfloat"

definition coerce_str :: "json \<Rightarrow> ustr" where
  "coerce_str v = (case v of JNull \<Rightarrow> [] | _ \<Rightarrow> py_str v)"

fun split_args_loop :: "int \<Rightarrow> bool \<Rightarrow> bool \<Rightarrow> ustr \<Rightarrow> ustr \<Rightarrow> ustr list" where
  "split_args_loop depth sq dq cur [] = (if strip cur = [] then [] else [strip cur])"
| "split_args_loop depth sq dq cur (c # cs) =
     (if c = 39 \<and> \<not> dq then split_args_loop depth (\<not> sq) dq (cur @ [c]) cs
      else if c = 34 \<and> \<not> sq then split_args_loop depth sq (\<not> dq) (cur @ [c]) cs
      else if \<not> sq \<and> \<not> dq \<and> c = 40 then split_args_loop (depth + 1) sq dq (cur @ [c]) cs
      else if \<not> sq \<and> \<not> dq \<and> c = 41 then split_args_loop (depth - 1) sq dq (cur @ [c]) cs
      else if \<not> sq \<and> \<not> dq \<and> c = 44 \<and> depth = 0 then strip cur # split_args_loop depth sq dq [] cs
      else split_args_loop depth sq dq (cur @ [c]) cs)"

definition split_args :: "ustr \<Rightarrow> ustr list" where
  "split_args blob = split_args_loop 0 False False [] blob"

definition is_quoted :: "nat \<Rightarrow> ustr \<Rightarrow> bool" where
  "is_quoted q t \<longleftrightarrow> t \<noteq> [] \<and> hd t = q \<and> last t = q"

definition all_digits :: "ustr \<Rightarrow> bool" where
  "all_digits s \<longleftrightarrow> s \<noteq> [] \<and> list_all is_digit s"

definition unsigned :: "ustr \<Rightarrow> ustr" where
  "unsigned t = (case t of [] \<Rightarrow> [] | c # cs \<Rightarrow> if c = 45 then cs else t)"

definition field_or_key :: "dict \<Rightarrow> ustr \<Rightarrow> json" where
  "field_or_key event t = (case get_field_value event t of JNull \<Rightarrow> dget_none event t | v \<Rightarrow> v)"

definition parse_literal :: "expr_env \<Rightarrow> dict \<Rightarrow> ustr \<Rightarrow> ustr + json" where
  "parse_literal env event token =
     (let t = strip token
      in if t = [] then Inr (JStr [])
         else if is_quoted 39 t \<or> is_quoted 34 t then Inr (JStr (butlast (tl t)))
         else if lower t = u ''true'' \<or> lower t = u ''false'' then Inr (JBool (lower t = u ''true''))
         else if all_digits (unsigned t) then Inr (JInt (case int_of_text t of Some i \<Rightarrow> i | None \<Rightarrow> 0))
         else if (case split_on 46 (unsigned t) of [a, b] \<Rightarrow> all_digits a \<and> all_digits b | _ \<Rightarrow> False) then Inr (JFloat (xe_float env t))
         else if is_ident t then Inr (field_or_key event t)
         else Inl (u ''Unsupported token '' @ repr_str t))"

fun parse_all :: "expr_env \<Rightarrow> dict \<Rightarrow> ustr list \<Rightarrow> ustr + json list" where
  "parse_all env event [] = Inr []"
| "parse_all env event (a # as) = (case parse_literal env event a of
     Inl e \<Rightarrow> Inl e
   | Inr v \<Rightarrow> (case parse_all env event as of Inl e \<Rightarrow> Inl e | Inr vs \<Rightarrow> Inr (v # vs)))"

definition evaluate_function :: "expr_env \<Rightarrow> dict \<Rightarrow> ustr \<Rightarrow> ustr \<Rightarrow> ustr + json" where
  "evaluate_function env event fn blob = (case parse_all env event (split_args blob) of
     Inl e \<Rightarrow> Inl e
   | Inr args \<Rightarrow>
       if fn = u ''concat'' then Inr (JStr (concat (map coerce_str args)))
       else if fn = u ''upper'' then (case args of [a] \<Rightarrow> Inr (JStr (upper (coerce_str a)))
         | _ \<Rightarrow> Inl (u ''upper() expects exactly one argument''))
       else if fn = u ''lower'' then (case args of [a] \<Rightarrow> Inr (JStr (lower (coerce_str a)))
         | _ \<Rightarrow> Inl (u ''lower() expects exactly one argument''))
       else if fn = u ''coalesce'' then
         (case find (\<lambda>a. a \<noteq> JNull \<and> coerce_str a \<noteq> []) args of
            Some a \<Rightarrow> Inr a
          | None \<Rightarrow> Inr (if args = [] then JStr [] else last args))
       else if fn = u ''now_utc'' then Inr (JStr (xe_now env))
       else Inl (u ''Unsupported function '' @ repr_str fn))"

section \<open>Function expressions\<close>

definition ref_text :: "dict \<Rightarrow> ustr \<Rightarrow> ustr" where
  "ref_text event path = (case field_or_key event path of
     JStr s \<Rightarrow> repr_str s | JNull \<Rightarrow> u [CHR 39, CHR 39] | v \<Rightarrow> repr_str (py_str v))"

text \<open>A reference is \<open>{{\<close>, at least one character that is no closing brace, and \<open>}}\<close>.\<close>

function substitute_field_refs :: "dict \<Rightarrow> ustr \<Rightarrow> ustr" where
  "substitute_field_refs event s = (case s of
     [] \<Rightarrow> []
   | c # cs \<Rightarrow>
       (let body = takeWhile (\<lambda>c. c \<noteq> 125) (drop 2 s); after = drop (length body) (drop 2 s)
        in if take 2 s = [123, 123] \<and> body \<noteq> [] \<and> take 2 after = [125, 125]
           then ref_text event (strip body) @ substitute_field_refs event (drop 2 after)
           else c # substitute_field_refs event cs))"
  by pat_completeness auto
termination
  by (relation "measure (\<lambda>(e, s). length s)") auto

declare substitute_field_refs.simps [simp del]

definition FUNCTION_NAMES :: "ustr list" where
  "FUNCTION_NAMES = map u [''concat'', ''upper'', ''lower'', ''coalesce'', ''now_utc'']"

text \<open>The number of characters up to and including the parenthesis that closes the open ones.\<close>

fun scan_close :: "nat \<Rightarrow> bool \<Rightarrow> bool \<Rightarrow> ustr \<Rightarrow> nat option" where
  "scan_close 0 sq dq s = Some 0"
| "scan_close (Suc d) sq dq [] = None"
| "scan_close (Suc d) sq dq (c # cs) = map_option Suc
     (if c = 39 \<and> \<not> dq then scan_close (Suc d) (\<not> sq) dq cs
      else if c = 34 \<and> \<not> sq then scan_close (Suc d) sq (\<not> dq) cs
      else if \<not> sq \<and> \<not> dq \<and> c = 40 then scan_close (Suc (Suc d)) sq dq cs
      else if \<not> sq \<and> \<not> dq \<and> c = 41 then scan_close d sq dq cs
      else scan_close (Suc d) sq dq cs)"

text \<open>
  The search for a call of one function whose arguments hold no parenthesis: \<open>Inr None\<close> when there is none,
  \<open>Inr (Some expr)\<close> with the call replaced by the printed result.
\<close>

partial_function (option) replace_call ::
  "expr_env \<Rightarrow> dict \<Rightarrow> ustr \<Rightarrow> ustr \<Rightarrow> nat \<Rightarrow> (ustr + ustr option) option" where
  "replace_call env event fn expr search_from = (case find_sub (lower expr) (fn @ [40]) search_from of
     None \<Rightarrow> Some (Inr None)
   | Some idx \<Rightarrow>
       (let open_paren = idx + length fn
        in case scan_close 1 False False (drop (Suc open_paren) expr) of
             None \<Rightarrow> Some (Inr None)
           | Some n \<Rightarrow>
               (let blob = take (n - 1) (drop (Suc open_paren) expr)
                in if 40 \<in> set blob then replace_call env event fn expr (Suc open_paren)
                   else Some (case evaluate_function env event fn blob of
                     Inl e \<Rightarrow> Inl e
                   | Inr v \<Rightarrow> Inr (Some (take idx expr @ py_repr v @ drop (Suc open_paren + n) expr))))))"

declare replace_call.simps [code]

fun replace_first :: "expr_env \<Rightarrow> dict \<Rightarrow> ustr \<Rightarrow> ustr list \<Rightarrow> (ustr + ustr option) option" where
  "replace_first env event expr [] = Some (Inr None)"
| "replace_first env event expr (fn # fns) = (case replace_call env event fn expr 0 of
     Some (Inr None) \<Rightarrow> replace_first env event expr fns
   | r \<Rightarrow> r)"

definition replace_innermost_function :: "expr_env \<Rightarrow> dict \<Rightarrow> ustr \<Rightarrow> (ustr + ustr option) option" where
  "replace_innermost_function env event expr = replace_first env event expr FUNCTION_NAMES"

fun eval_rounds :: "nat \<Rightarrow> expr_env \<Rightarrow> dict \<Rightarrow> ustr \<Rightarrow> (ustr + json) option" where
  "eval_rounds 0 env event expr = Some (Inl (u ''Expression too complex''))"
| "eval_rounds (Suc n) env event expr = (case replace_innermost_function env event expr of
     None \<Rightarrow> None
   | Some (Inl e) \<Rightarrow> Some (Inl e)
   | Some (Inr None) \<Rightarrow> Some (parse_literal env event expr)
   | Some (Inr (Some expr')) \<Rightarrow> eval_rounds n env event expr')"

lemma rounds_step:
  "0 < n \<Longrightarrow> replace_innermost_function env event expr = Some (Inr None) \<Longrightarrow> eval_rounds n env event expr = Some (parse_literal env event expr)"
  "0 < n \<Longrightarrow> replace_innermost_function env event expr = Some (Inr (Some expr')) \<Longrightarrow> eval_rounds n env event expr = eval_rounds (n - 1) env event expr'"
  by (cases n; simp)+

definition evaluate_function_expression :: "expr_env \<Rightarrow> dict \<Rightarrow> ustr \<Rightarrow> (ustr + json) option" where
  "evaluate_function_expression env event expression =
     (let expr = strip expression in if expr = [] then Some (Inl (u ''Empty expression'')) else eval_rounds 64 env event expr)"

section \<open>Legacy conditionals\<close>

definition eval_cond :: "dict \<Rightarrow> ustr \<Rightarrow> ustr + bool" where
  "eval_cond event cond =
     (let c = strip cond
      in case rx_match (rx_ident @ [rx_ws, Rx_Lit (u ''.includes''), rx_ws, Rx_Lit (u ''(''), rx_ws, rx_quote, rx_unquoted 0, rx_quote, rx_ws,
             Rx_Lit (u '')''), rx_ws]) c of
        Some ts \<Rightarrow> Inr (has_sub (coerce_str (field_or_key event (ts ! 0 @ ts ! 1))) (ts ! 8))
      | None \<Rightarrow> (case rx_match (rx_ident @ [rx_ws, Rx_Lit (u ''===''), rx_ws, rx_quote, rx_unquoted 0, rx_quote, rx_ws]) c of
          Some ts \<Rightarrow> Inr (coerce_str (field_or_key event (ts ! 0 @ ts ! 1)) = ts ! 6)
        | None \<Rightarrow> (case rx_match (rx_ident @ [rx_ws, Rx_Lit (u ''==''), rx_ws, rx_quote_opt, rx_unquoted 1, rx_quote_opt, rx_ws]) c of
            Some ts \<Rightarrow> Inr (coerce_str (field_or_key event (ts ! 0 @ ts ! 1)) = ts ! 6)
          | None \<Rightarrow> Inl (u ''Unsupported legacy condition '' @ repr_str c))))"

fun split_ternary_loop :: "nat \<Rightarrow> int \<Rightarrow> nat option \<Rightarrow> bool \<Rightarrow> bool \<Rightarrow> ustr \<Rightarrow> (nat \<times> nat) option" where
  "split_ternary_loop i depth q sq dq [] = None"
| "split_ternary_loop i depth q sq dq (c # cs) =
     (if c = 39 \<and> \<not> dq then split_ternary_loop (Suc i) depth q (\<not> sq) dq cs
      else if c = 34 \<and> \<not> sq then split_ternary_loop (Suc i) depth q sq (\<not> dq) cs
      else if \<not> sq \<and> \<not> dq \<and> c = 63 then split_ternary_loop (Suc i) (depth + 1) (if depth = 0 then Some i else q) sq dq cs
      else if \<not> sq \<and> \<not> dq \<and> c = 58 then
        (case (depth = 1, q) of
           (True, Some j) \<Rightarrow> Some (j, i)
         | _ \<Rightarrow> split_ternary_loop (Suc i) (depth - 1) q sq dq cs)
      else split_ternary_loop (Suc i) depth q sq dq cs)"

definition split_ternary :: "ustr \<Rightarrow> (ustr \<times> ustr \<times> ustr) option" where
  "split_ternary s = (case split_ternary_loop 0 0 None False False s of
     None \<Rightarrow> None
   | Some (q, i) \<Rightarrow> Some (strip (take q s), strip (take (i - Suc q) (drop (Suc q) s)), strip (drop (Suc i) s)))"

partial_function (option) evaluate_legacy_ternary :: "expr_env \<Rightarrow> dict \<Rightarrow> ustr \<Rightarrow> (ustr + json) option" where
  "evaluate_legacy_ternary env event expression =
     (let expr = strip expression
      in if 63 \<notin> set expr then Some (Inl (u ''Not a legacy ternary expression''))
         else case split_ternary expr of
           None \<Rightarrow> Some (Inl (u ''Malformed ternary expression''))
         | Some (cond, true_branch, false_branch) \<Rightarrow> (case eval_cond event cond of
             Inl e \<Rightarrow> Some (Inl e)
           | Inr b \<Rightarrow>
               (let branch = strip (if b then true_branch else false_branch)
                in if 63 \<in> set branch \<and> has_sub branch (u ''.includes'') then evaluate_legacy_ternary env event branch
                   else Some (parse_literal env event branch))))"

declare evaluate_legacy_ternary.simps [code]

definition has_function_call :: "ustr \<Rightarrow> bool" where
  "has_function_call raw = list_ex (\<lambda>fn. has_sub (lower raw) (fn @ [40])) FUNCTION_NAMES"

definition evaluate_calculated_expression :: "expr_env \<Rightarrow> dict \<Rightarrow> ustr \<Rightarrow> (ustr + json) option" where
  "evaluate_calculated_expression env event expression =
     (let raw = strip expression
      in if raw = [] then Some (Inl (u ''Empty expression''))
         else if has_sub raw [123, 123] \<or> has_function_call raw
         then evaluate_function_expression env event (substitute_field_refs event raw)
         else if 63 \<in> set raw \<and> (has_sub raw (u ''.includes'') \<or> has_sub raw (u ''==='') \<or> has_sub raw (u ''==''))
         then evaluate_legacy_ternary env event raw
         else if is_ident raw then Some (Inr (field_or_key event raw))
         else evaluate_function_expression env event raw)"

section \<open>Every evaluation returns\<close>

lemma find_Some_member: "find P xs = Some x \<Longrightarrow> x \<in> set xs \<and> P x"
  by (induction xs) (auto split: if_splits)

lemma find_sub_bounds:
  assumes "find_sub s p start = Some i" "p \<noteq> []"
  shows "start \<le> i" "i < length s" "startswith (drop i s) p"
proof -
  have i: "start \<le> i" "i \<le> length s" "startswith (drop i s) p" using find_Some_member [OF assms(1) [unfolded find_sub_def]] by auto
  then show "start \<le> i" "startswith (drop i s) p" by simp_all
  show "i < length s" using i assms(2) by (cases "i = length s") (auto simp: startswith_def)
qed

lemma length_lower [simp]: "length (lower s) = length s"
  by (simp add: lower_def)

lemma length_strip: "length (strip s) \<le> length s"
  unfolding strip_def by (metis length_dropWhile_le length_rev order_trans)

lemma replace_call_returns: "\<exists>r. replace_call env event fn expr start = Some r"
proof (induction "Suc (length expr) - start" arbitrary: start rule: less_induct)
  case less
  show ?case
  proof (cases "find_sub (lower expr) (fn @ [40]) start")
    case (Some i)
    have "start \<le> i" "i < length expr" using find_sub_bounds [OF Some] by simp_all
    then have "Suc (length expr) - Suc (i + length fn) < Suc (length expr) - start" by simp
    from less [OF this] Some show ?thesis by (subst replace_call.simps) (auto simp: Let_def split: option.splits)
  qed (subst replace_call.simps, simp)
qed

lemma replace_first_returns: "\<exists>r. replace_first env event expr fns = Some r"
proof (induction fns)
  case (Cons fn fns)
  then show ?case using replace_call_returns [of env event fn expr 0] by (auto split: sum.splits option.splits)
qed simp

lemma eval_rounds_returns: "\<exists>r. eval_rounds n env event expr = Some r"
proof (induction n arbitrary: expr)
  case (Suc n)
  obtain r where "replace_innermost_function env event expr = Some r"
    using replace_first_returns [of env event expr FUNCTION_NAMES] by (auto simp: replace_innermost_function_def)
  with Suc show ?case by (auto split: sum.splits option.splits)
qed simp

lemma split_ternary_bounds:
  "split_ternary_loop i depth q sq dq s = Some (j, k) \<Longrightarrow> (\<forall>j'. q = Some j' \<longrightarrow> j' < i) \<Longrightarrow> j < k \<and> i \<le> k \<and> k < i + length s"
proof (induction s arbitrary: i depth q sq dq)
  case (Cons c cs)
  from Cons.prems(1) consider "q = Some j" "k = i" |
    depth' q' sq' dq' where "split_ternary_loop (Suc i) depth' q' sq' dq' cs = Some (j, k)" "q' = q \<or> q' = Some i"
    by (cases "depth = 1") (auto split: if_splits option.splits)
  then show ?case
  proof cases
    case 1
    with Cons.prems(2) show ?thesis by simp
  next
    case 2
    then have "\<forall>j'. q' = Some j' \<longrightarrow> j' < Suc i" using Cons.prems(2) less_Suc_eq by auto
    with Cons.IH [OF 2(1)] show ?thesis by simp
  qed
qed simp

lemma split_ternary_shorter:
  assumes "split_ternary s = Some (c, a, b)"
  shows "length a < length s" "length b < length s"
proof -
  obtain q i where q: "split_ternary_loop 0 0 None False False s = Some (q, i)"
    and ab: "a = strip (take (i - Suc q) (drop (Suc q) s))" "b = strip (drop (Suc i) s)"
    using assms by (auto simp: split_ternary_def split: option.splits)
  have "q < i" "i < length s" using split_ternary_bounds [OF q] by simp_all
  then show "length a < length s" "length b < length s"
    using length_strip [of "take (i - Suc q) (drop (Suc q) s)"] length_strip [of "drop (Suc i) s"] unfolding ab by auto
qed

lemma legacy_ternary_returns: "\<exists>r. evaluate_legacy_ternary env event expr = Some r"
proof (induction "length expr" arbitrary: expr rule: less_induct)
  case less
  let ?e = "strip expr"
  have "\<exists>r. evaluate_legacy_ternary env event (strip x) = Some r" if "split_ternary ?e = Some (c, a, b)" "x = a \<or> x = b" for c a b x
  proof (rule less)
    show "length (strip x) < length expr"
      using split_ternary_shorter [OF that(1)] that(2) length_strip [of x] length_strip [of expr] by auto
  qed
  then show ?case by (subst evaluate_legacy_ternary.simps) (auto simp: Let_def split: option.splits sum.splits)
qed

text \<open>
  C35. Calculated expressions terminate.  Whatever the expression and the event are, the evaluation returns a value or an
  evaluation error: the search for the next call always moves forward, a nested conditional is evaluated on shorter text,
  and the number of replacements is bounded.
\<close>

theorem expression_evaluation_terminates: "\<exists>r. evaluate_calculated_expression env event expression = Some r"
  using eval_rounds_returns [of 64 env event] legacy_ternary_returns [of env event]
  by (simp add: evaluate_calculated_expression_def evaluate_function_expression_def Let_def)

section \<open>Functions of a referenced field\<close>

text \<open>Printable ASCII without single quotes and backslashes: what \<open>repr\<close> prints as it is.\<close>

definition plain_char :: "nat \<Rightarrow> bool" where
  "plain_char c \<longleftrightarrow> 32 \<le> c \<and> c \<le> 126 \<and> c \<noteq> 39 \<and> c \<noteq> 92"

definition quoted :: "ustr \<Rightarrow> ustr" where
  "quoted s = [39] @ s @ [39]"

lemma repr_plain: "list_all plain_char s \<Longrightarrow> repr_str s = quoted s"
proof -
  assume a: "list_all plain_char s"
  then have "concat (map (repr_char 39) s) = s" by (induction s) (auto simp: repr_char_def plain_char_def)
  moreover have "39 \<notin> set s" using a by (auto simp: list_all_iff plain_char_def)
  ultimately show ?thesis by (simp add: repr_str_def quoted_def Let_def)
qed

lemma plain_no_quote: "list_all plain_char s \<Longrightarrow> 39 \<notin> set s"
  by (auto simp: list_all_iff plain_char_def)

lemma plain_case: "list_all plain_char s \<Longrightarrow> list_all plain_char (upper s) \<and> list_all plain_char (lower s)"
  by (auto simp: list_all_iff plain_char_def upper_def lower_def ch_upper_def ch_lower_def)

lemma strip_ends: "s \<noteq> [] \<Longrightarrow> \<not> is_space (hd s) \<Longrightarrow> \<not> is_space (last s) \<Longrightarrow> strip s = s"
proof -
  assume a: "s \<noteq> []" "\<not> is_space (hd s)" "\<not> is_space (last s)"
  have "dropWhile is_space s = s" using a by (cases s) auto
  moreover have "dropWhile is_space (rev s) = rev s" using a by (cases s rule: rev_cases) auto
  ultimately show ?thesis by (simp add: strip_def)
qed

lemma strip_quoted: "strip (quoted s) = quoted s"
  by (rule strip_ends) (auto simp: quoted_def is_space_def)

lemma parse_quoted: "parse_literal env event (quoted s) = Inr (JStr s)"
  unfolding parse_literal_def Let_def strip_quoted by (simp add: quoted_def is_quoted_def)

lemma scan_quoted:
  "39 \<notin> set s \<Longrightarrow> scan_close (Suc d) True False (s @ 39 # t) = map_option ((+) (Suc (length s))) (scan_close (Suc d) False False t)"
  by (induction s) (auto simp: option.map_comp comp_def intro!: option.map_cong)

lemma split_quoted:
  "39 \<notin> set s \<Longrightarrow> split_args_loop 0 True False cur (s @ 39 # t) = split_args_loop 0 False False (cur @ s @ [39]) t"
  by (induction s arbitrary: cur) auto

lemma split_args_quoted: "39 \<notin> set s \<Longrightarrow> split_args (quoted s) = [quoted s]"
  using split_quoted [of s "[39]" "[]"] strip_quoted [of s] by (simp add: split_args_def quoted_def)

definition call_text :: "ustr \<Rightarrow> ustr \<Rightarrow> ustr" where
  "call_text fn s = fn @ [40] @ quoted s @ [41]"

lemma find_sub_paren:
  assumes "find_sub s (p @ [40]) start = Some i"
  shows "i + length p < length s \<and> s ! (i + length p) = 40 \<and> take (length p) (drop i s) = p"
proof -
  note b = find_sub_bounds [OF assms]
  have t: "take (Suc (length p)) (drop i s) = p @ [40]" using b(3) by (simp add: startswith_def)
  then have len: "Suc (length p) \<le> length (drop i s)" by (metis length_append_singleton length_take min.absorb_iff2 min.commute)
  then have "take (length p) (drop i s) @ [drop i s ! length p] = p @ [40]" using t by (simp add: take_Suc_conv_app_nth)
  then show ?thesis using len by simp
qed

lemma find_sub_no_paren: "40 \<notin> set s \<Longrightarrow> find_sub s (p @ [40]) start = None"
proof (cases "find_sub s (p @ [40]) start")
  case (Some i)
  assume "40 \<notin> set s"
  with find_sub_paren [OF Some] show ?thesis by (metis nth_mem)
qed

lemma lower_paren: "40 \<in> set (lower s) \<longleftrightarrow> 40 \<in> set s"
  by (auto simp: lower_def ch_lower_def image_iff split: if_splits)

lemma replace_call_none: "find_sub (lower expr) (fn @ [40]) start = None \<Longrightarrow> replace_call env event fn expr start = Some (Inr None)"
  by (subst replace_call.simps) simp

lemma no_call_replaced:
  assumes "40 \<notin> set expr"
  shows "replace_innermost_function env event expr = Some (Inr None)"
proof -
  have "replace_call env event fn expr 0 = Some (Inr None)" for fn
    using find_sub_no_paren [of "lower expr" fn 0] assms by (intro replace_call_none) (simp add: lower_paren)
  then have "replace_first env event expr fns = Some (Inr None)" for fns by (induction fns) auto
  then show ?thesis by (simp add: replace_innermost_function_def)
qed

definition apply_named :: "ustr \<Rightarrow> ustr \<Rightarrow> ustr" where
  "apply_named fn s = (if fn = u ''upper'' then upper s else if fn = u ''lower'' then lower s else s)"

definition UNARY :: "ustr list" where
  "UNARY = map u [''concat'', ''upper'', ''lower'', ''coalesce'']"

lemma evaluate_quoted:
  assumes "fn \<in> set UNARY" "39 \<notin> set s"
  shows "evaluate_function env event fn (quoted s) = Inr (JStr (apply_named fn s))"
  using assms(1) split_args_quoted [OF assms(2)] parse_quoted [of env event s]
  by (auto simp: UNARY_def evaluate_function_def apply_named_def coerce_str_def py_str_def)

text \<open>No function name ends in another one.\<close>

lemma names_suffix_free:
  "fn \<in> set UNARY \<Longrightarrow> g \<in> set FUNCTION_NAMES \<Longrightarrow> g \<noteq> fn \<Longrightarrow> length g \<le> length fn \<Longrightarrow> drop (length fn - length g) fn \<noteq> g"
  by (auto simp: UNARY_def FUNCTION_NAMES_def u_def)

lemma lower_name: "fn \<in> set UNARY \<Longrightarrow> lower fn = fn \<and> 40 \<notin> set fn"
  by (auto simp: UNARY_def u_def lower_def ch_lower_def)

lemma lower_call: "fn \<in> set UNARY \<Longrightarrow> lower (call_text fn s) = call_text fn (lower s)"
  using lower_name by (simp add: call_text_def quoted_def lower_def ch_lower_def)

lemma call_text_paren:
  assumes "i < length (call_text fn s)" "call_text fn s ! i = 40" "40 \<notin> set fn" "40 \<notin> set s"
  shows "i = length fn"
proof -
  have "40 \<notin> set (quoted s @ [41])" using assms(4) by (simp add: quoted_def)
  then show ?thesis using assms(1-3) by (auto simp: call_text_def nth_append nth_Cons' split: if_splits) (metis nth_mem | force)+
qed

lemma find_call:
  assumes "fn \<in> set UNARY" "40 \<notin> set s"
  shows "find_sub (call_text fn s) (fn @ [40]) 0 = Some 0"
    and "g \<in> set FUNCTION_NAMES \<Longrightarrow> g \<noteq> fn \<Longrightarrow> find_sub (call_text fn s) (g @ [40]) 0 = None"
proof -
  show "find_sub (call_text fn s) (fn @ [40]) 0 = Some 0"
    by (simp only: find_sub_def upt_conv_Cons zero_less_Suc) (simp add: startswith_def call_text_def)
  assume g: "g \<in> set FUNCTION_NAMES" "g \<noteq> fn"
  show "find_sub (call_text fn s) (g @ [40]) 0 = None"
  proof (cases "find_sub (call_text fn s) (g @ [40]) 0")
    case (Some i)
    note f = find_sub_paren [OF Some]
    then have i: "i + length g = length fn" using call_text_paren [of "i + length g" fn s] lower_name [OF assms(1)] assms(2) by simp
    then have "drop (length fn - length g) fn = g" using f by (simp add: call_text_def flip: i)
    then show ?thesis using names_suffix_free [OF assms(1) g] i by simp
  qed
qed

lemma call_replaced:
  assumes "fn \<in> set UNARY" "list_all plain_char s" "40 \<notin> set s"
  shows "replace_innermost_function env event (call_text fn s) = Some (Inr (Some (quoted (apply_named fn s))))"
proof -
  have l: "40 \<notin> set (lower s)" using assms(3) by (simp add: lower_paren)
  note q = plain_no_quote [OF assms(2)]
  have "scan_close 1 False False (quoted s @ [41]) = Some (length s + 3)"
    using scan_quoted [OF q, of 0 "[41]"] by (simp add: quoted_def)
  moreover have "drop (Suc (length fn)) (call_text fn s) = quoted s @ [41]" by (simp add: call_text_def)
  moreover have "py_repr (JStr (apply_named fn s)) = quoted (apply_named fn s)"
    using repr_plain plain_case [OF assms(2)] assms(2) by (simp add: apply_named_def)
  ultimately have fn: "replace_call env event fn (call_text fn s) 0 = Some (Inr (Some (quoted (apply_named fn s))))"
    using evaluate_quoted [OF assms(1) q, of env event] assms(3)
    by (subst replace_call.simps, simp only: lower_call [OF assms(1)] find_call(1) [OF assms(1) l] option.case Let_def add_0)
      (simp add: quoted_def call_text_def)
  have other: "replace_call env event g (call_text fn s) 0 = Some (Inr None)" if "g \<in> set FUNCTION_NAMES" "g \<noteq> fn" for g
    using find_call(2) [OF assms(1) l that] by (subst replace_call.simps) (simp add: lower_call [OF assms(1)])
  have "replace_first env event (call_text fn s) gs = Some (Inr (Some (quoted (apply_named fn s))))"
    if "fn \<in> set gs" "set gs \<subseteq> set FUNCTION_NAMES" for gs
    using that by (induction gs) (use fn other in \<open>force+\<close>)
  moreover have "fn \<in> set FUNCTION_NAMES" using assms(1) by (auto simp: UNARY_def FUNCTION_NAMES_def)
  ultimately show ?thesis by (simp add: replace_innermost_function_def)
qed

lemma subst_skip: "123 \<notin> set p \<Longrightarrow> substitute_field_refs event (p @ t) = p @ substitute_field_refs event t"
  by (induction p) (auto simp: substitute_field_refs.simps [of event "_ # _"] Let_def)

lemma subst_ref:
  assumes "f \<noteq> []" "125 \<notin> set f"
  shows "substitute_field_refs event ([123, 123] @ f @ [125, 125] @ t) = ref_text event (strip f) @ substitute_field_refs event t"
proof -
  have "takeWhile (\<lambda>c. c \<noteq> 125) (f @ 125 # 125 # t) = f" using assms(2) by (induction f) auto
  then show ?thesis using assms(1) by (simp add: substitute_field_refs.simps [of event "123 # _"] Let_def)
qed

lemma name_chars: "is_name f \<Longrightarrow> f \<noteq> [] \<and> (\<forall>c \<in> set f. name_char c)"
  by (cases f) (auto simp: is_name_def name_char_def list_all_iff)

lemma ident_char_not: "name_char c \<Longrightarrow> c \<noteq> 46 \<and> c \<noteq> 123 \<and> c \<noteq> 125 \<and> \<not> is_space c"
  by (auto simp: name_char_def name_start_def is_digit_def is_space_def)

lemma strip_name: "is_name f \<Longrightarrow> strip f = f"
proof -
  assume "is_name f"
  then have f: "f \<noteq> []" "\<forall>c \<in> set f. \<not> is_space c" using name_chars ident_char_not by blast+
  then show ?thesis using strip_ends [of f] hd_in_set [of f] last_in_set [of f] by blast
qed

lemma ref_name:
  assumes "is_name f" "dget event f = Some (JStr s)" "list_all plain_char s"
  shows "ref_text event f = quoted s"
  using assms name_chars [OF assms(1)] ident_char_not repr_plain strip_name [OF assms(1)]
  by (auto simp: ref_text_def field_or_key_def get_field_value_def dget_none_def)

lemma strip_call: "fn \<in> set UNARY \<Longrightarrow> strip (fn @ t @ [41]) = fn @ t @ [41]"
  by (rule strip_ends) (auto simp: UNARY_def u_def is_space_def)

text \<open>
  Functions of a field.  For the one-argument use of concat, upper, lower and coalesce on a reference to a top-level
  text field, the calculated value is the function of the field's text, provided that text is printable ASCII
  without single quotes, backslashes and opening parentheses.
\<close>

lemma reference_function_value:
  assumes "fn \<in> set UNARY" "is_name f" "dget event f = Some (JStr s)" "list_all plain_char s" "40 \<notin> set s"
  shows "evaluate_calculated_expression env event (fn @ u ''({{'' @ f @ u ''}})'') = Some (Inr (JStr (apply_named fn s)))"
proof -
  have t: "u ''({{'' = [40] @ [123, 123]" "u ''}})'' = [125, 125] @ [41]" by (simp_all add: u_def)
  let ?raw = "fn @ u ''({{'' @ f @ u ''}})''"
  have raw: "strip ?raw = ?raw" using strip_call [OF assms(1), of "u ''({{'' @ f @ [125, 125]"] by (simp add: t)
  have fn: "123 \<notin> set fn" "fn \<noteq> []" using assms(1) by (auto simp: UNARY_def u_def)
  have f: "f \<noteq> []" "125 \<notin> set f" using name_chars [OF assms(2)] ident_char_not by auto
  have sub: "substitute_field_refs event ?raw = call_text fn s"
    using subst_skip [of "fn @ [40]" event "[123, 123] @ f @ [125, 125] @ [41]"] subst_ref [OF f, of event "[41]"] subst_skip [of "[41]" event "[]"]
      fn(1) ref_name [OF assms(2-4)] strip_name [OF assms(2)]
    by (simp add: t call_text_def quoted_def substitute_field_refs.simps [of event "[]"])
  have at_ref: "startswith (drop (Suc (length fn)) ?raw) [123, 123]" "Suc (length fn) < Suc (length ?raw)" by (simp_all add: t startswith_def)
  then have has: "has_sub ?raw [123, 123]" by (rule has_subI [OF _ less_Suc_eq_le [THEN iffD1]])
  have pl: "list_all plain_char (apply_named fn s)" using plain_case [OF assms(4)] assms(4) by (simp add: apply_named_def)
  have "40 \<notin> set (quoted (apply_named fn s))"
    using assms(5) lower_paren [of s] by (auto simp: quoted_def apply_named_def upper_def ch_upper_def split: if_splits)
  note second = no_call_replaced [OF this, of env event]
  have "eval_rounds 64 env event (call_text fn s) = Some (Inr (JStr (apply_named fn s)))"
    using rounds_step(2) [OF _ call_replaced [OF assms(1,4,5), of env event], of 64] rounds_step(1) [OF _ second, of 63]
      parse_quoted [of env event] by simp
  moreover have "strip (call_text fn s) = call_text fn s" "call_text fn s \<noteq> []"
    using strip_call [OF assms(1), of "[40] @ quoted s"] by (simp_all add: call_text_def)
  ultimately show ?thesis using raw has fn(2) sub
    by (simp add: evaluate_calculated_expression_def evaluate_function_expression_def Let_def)
qed

definition demo_expr_env :: expr_env where
  "demo_expr_env = \<lparr>xe_now = u ''2024-01-01T00:00:00Z'', xe_float = (\<lambda>t. Fin 0 t)\<rparr>"

lemma reference_function_value_witness:
  "evaluate_calculated_expression demo_expr_env [(u ''user'', JStr (u ''bob''))] (u ''upper'' @ u ''({{'' @ u ''user'' @ u ''}})'') =
     Some (Inr (JStr (u ''BOB'')))"
proof -
  have "apply_named (u ''upper'') (u ''bob'') = u ''BOB''" by (simp add: apply_named_def upper_def ch_upper_def u_def)
  moreover have "u ''upper'' \<in> set UNARY" by (simp add: UNARY_def)
  moreover have "is_name (u ''user'')" by (simp add: u_def is_name_def name_start_def name_char_def)
  moreover have "list_all plain_char (u ''bob'')" "40 \<notin> set (u ''bob'')" by (simp_all add: u_def plain_char_def)
  ultimately show ?thesis using reference_function_value [of "u ''upper''" "u ''user''" "[(u ''user'', JStr (u ''bob''))]" "u ''bob''" demo_expr_env]
    by simp
qed

lemma upper_of_paren:
  "evaluate_calculated_expression demo_expr_env [(u ''a'', JStr (u ''x (y)''))] (u ''upper({{a}})'') =
     Some (Inl (u ''Unsupported token '' @ repr_str (call_text (u ''upper'') (u ''x (y)''))))"
proof -
  let ?ev = "[(u ''a'', JStr (u ''x (y)''))]"
  let ?c = "call_text (u ''upper'') (u ''x (y)'')"
  have sub: "substitute_field_refs ?ev (u ''upper({{a}})'') = ?c"
    by (simp add: u_def substitute_field_refs.simps [of _ "_ # _"] substitute_field_refs.simps [of _ "[]"] ref_text_def field_or_key_def
        get_field_value_def strip_def is_space_def dget_none_def repr_str_def repr_char_def call_text_def quoted_def)
  have none: "replace_call demo_expr_env ?ev (u ''upper'') ?c (Suc (Suc (Suc (Suc (Suc (Suc 0)))))) = Some (Inr None)"
    by (subst replace_call.simps) (simp add: u_def call_text_def quoted_def find_sub_def startswith_def lower_def ch_lower_def upt_rec)
  have "replace_call demo_expr_env ?ev (u ''upper'') ?c 0 = Some (Inr None)"
    using none by (subst replace_call.simps) (simp add: u_def call_text_def quoted_def find_sub_def startswith_def lower_def ch_lower_def upt_rec)
  moreover have f: "find_sub (lower ?c) (u ''concat'' @ [40]) 0 = None" "find_sub (lower ?c) (u ''lower'' @ [40]) 0 = None"
    "find_sub (lower ?c) (u ''coalesce'' @ [40]) 0 = None" "find_sub (lower ?c) (u ''now_utc'' @ [40]) 0 = None"
    by (simp_all add: u_def call_text_def quoted_def find_sub_def startswith_def lower_def ch_lower_def upt_rec)
  moreover note f [THEN replace_call_none, of demo_expr_env ?ev]
  ultimately have "replace_innermost_function demo_expr_env ?ev ?c = Some (Inr None)"
    by (simp add: replace_innermost_function_def FUNCTION_NAMES_def)
  then have "eval_rounds 64 demo_expr_env ?ev ?c = Some (parse_literal demo_expr_env ?ev ?c)" by (intro rounds_step) simp_all
  moreover have "parse_literal demo_expr_env ?ev ?c = Inl (u ''Unsupported token '' @ repr_str ?c)"
    by (simp add: parse_literal_def Let_def call_text_def quoted_def u_def strip_def is_space_def is_quoted_def lower_def ch_lower_def all_digits_def
        unsigned_def is_digit_def is_ident_def name_char_def name_start_def)
  moreover have "strip ?c = ?c" "?c \<noteq> []" by (simp_all add: call_text_def quoted_def u_def strip_def is_space_def)
  moreover have "strip (u ''upper({{a}})'') = u ''upper({{a}})''" "u ''upper({{a}})'' \<noteq> []" by (simp_all add: u_def strip_def is_space_def)
  moreover have "has_sub (u ''upper({{a}})'') [123, 123]" by (simp add: has_sub_def u_def startswith_def upt_rec)
  ultimately show ?thesis using sub
    by (simp add: evaluate_calculated_expression_def evaluate_function_expression_def Let_def)
qed

lemma concat_of_call:
  "evaluate_calculated_expression demo_expr_env [(u ''a'', JStr (u ''upper(b)'')), (u ''b'', JStr (u ''key''))] (u ''concat({{a}})'') =
     Some (Inr (JStr (quoted (u ''KEY''))))"
proof -
  let ?ev = "[(u ''a'', JStr (u ''upper(b)'')), (u ''b'', JStr (u ''key''))]"
  let ?c = "call_text (u ''concat'') (u ''upper(b)'')"
  let ?d = "call_text (u ''concat'') (quoted (u ''KEY''))"
  have sub: "substitute_field_refs ?ev (u ''concat({{a}})'') = ?c"
    by (simp add: u_def substitute_field_refs.simps [of _ "_ # _"] substitute_field_refs.simps [of _ "[]"] ref_text_def field_or_key_def
        get_field_value_def strip_def is_space_def dget_none_def repr_str_def repr_char_def call_text_def quoted_def)
  have none: "replace_call demo_expr_env ?ev (u ''concat'') ?c (Suc (Suc (Suc (Suc (Suc (Suc (Suc 0))))))) = Some (Inr None)"
    by (rule replace_call_none) (simp add: u_def call_text_def quoted_def find_sub_def startswith_def lower_def ch_lower_def upt_rec)
  have "replace_call demo_expr_env ?ev (u ''concat'') ?c 0 = Some (Inr None)"
    using none by (subst replace_call.simps) (simp add: u_def call_text_def quoted_def find_sub_def startswith_def lower_def ch_lower_def upt_rec)
  moreover have "evaluate_function demo_expr_env ?ev (u ''upper'') (u ''b'') = Inr (JStr (u ''KEY''))"
    by (simp add: evaluate_function_def split_args_def parse_literal_def Let_def u_def strip_def is_space_def is_quoted_def lower_def ch_lower_def
        all_digits_def unsigned_def is_digit_def is_ident_def name_char_def name_start_def field_or_key_def get_field_value_def dget_none_def
        coerce_str_def py_str_def upper_def ch_upper_def)
  then have "replace_call demo_expr_env ?ev (u ''upper'') ?c 0 = Some (Inr (Some ?d))"
    by (subst replace_call.simps) (simp add: u_def call_text_def quoted_def find_sub_def startswith_def lower_def ch_lower_def upt_rec
        repr_str_def repr_char_def)
  ultimately have r1: "replace_innermost_function demo_expr_env ?ev ?c = Some (Inr (Some ?d))"
    by (simp add: replace_innermost_function_def FUNCTION_NAMES_def)
  have "evaluate_function demo_expr_env ?ev (u ''concat'') (quoted (quoted (u ''KEY''))) = Inr (JStr (quoted (u ''KEY'')))"
    by (simp add: evaluate_function_def split_args_def parse_literal_def Let_def u_def quoted_def strip_def is_space_def is_quoted_def
        coerce_str_def py_str_def)
  then have "replace_call demo_expr_env ?ev (u ''concat'') ?d 0 = Some (Inr (Some ([34] @ quoted (u ''KEY'') @ [34])))"
    by (subst replace_call.simps) (simp add: u_def call_text_def quoted_def find_sub_def startswith_def lower_def ch_lower_def upt_rec
        repr_str_def repr_char_def)
  then have r2: "replace_innermost_function demo_expr_env ?ev ?d = Some (Inr (Some ([34] @ quoted (u ''KEY'') @ [34])))"
    by (simp add: replace_innermost_function_def FUNCTION_NAMES_def)
  have r3: "replace_innermost_function demo_expr_env ?ev ([34] @ quoted (u ''KEY'') @ [34]) = Some (Inr None)"
    by (rule no_call_replaced) (simp add: quoted_def u_def)
  have "parse_literal demo_expr_env ?ev ([34] @ quoted (u ''KEY'') @ [34]) = Inr (JStr (quoted (u ''KEY'')))"
    by (simp add: parse_literal_def Let_def u_def quoted_def strip_def is_space_def is_quoted_def)
  then have "eval_rounds 64 demo_expr_env ?ev ?c = Some (Inr (JStr (quoted (u ''KEY''))))"
    using rounds_step(2) [OF _ r1, of 64] rounds_step(2) [OF _ r2, of 63] rounds_step(1) [OF _ r3, of 62] by simp
  moreover have "strip ?c = ?c" "?c \<noteq> []" by (simp_all add: call_text_def quoted_def u_def strip_def is_space_def)
  moreover have "strip (u ''concat({{a}})'') = u ''concat({{a}})''" "u ''concat({{a}})'' \<noteq> []" by (simp_all add: u_def strip_def is_space_def)
  moreover have "has_sub (u ''concat({{a}})'') [123, 123]" by (simp add: has_sub_def u_def startswith_def upt_rec)
  ultimately show ?thesis using sub
    by (simp add: evaluate_calculated_expression_def evaluate_function_expression_def Let_def)
qed

text \<open>
  The text of an event is read as program text.  An opening parenthesis in the referenced value makes the function
  call unreadable, so the rule fails on it; and a value that looks like a call is evaluated as one, so that a field under the
  control of the event's sender is replaced by a function of another field.
\<close>

lemma event_text_is_program_text:
  "evaluate_calculated_expression demo_expr_env [(u ''a'', JStr (u ''x (y)''))] (u ''upper({{a}})'') =
     Some (Inl (u ''Unsupported token '' @ repr_str (call_text (u ''upper'') (u ''x (y)'')))) \<and>
   evaluate_calculated_expression demo_expr_env [(u ''a'', JStr (u ''upper(b)'')), (u ''b'', JStr (u ''key''))] (u ''concat({{a}})'') =
     Some (Inr (JStr (quoted (u ''KEY''))))"
  using upper_of_paren concat_of_call by simp

end
