(* ===== verification/Enrichment.thy ===== *)
theory Enrichment
  imports Mapping Expressions
begin

text \<open>
  The enrichment engine: \<^verbatim>\<open>app/enrichers/rule_executor.py\<close>, \<^verbatim>\<open>enrichment_engine.py\<close>, \<^verbatim>\<open>lookup_tables.py\<close> and
  \<^verbatim>\<open>payload_safety.py\<close>.  An enrichment configuration is the dictionary of its column.  The code changes the event in place and
  appends to lists of warnings and errors; the model returns the event and what is appended.  Arguments are the engines of the
  mapping, the clock and the reading of dates.  Every value of the model is JSON, so the check for other values never
  fires.  Durations and log lines are left out.
\<close>

record enrich_env =
  en_map :: mapping_env
  en_expr :: expr_env
  en_iso :: "json \<Rightarrow> ustr result"

section \<open>Lookup tables\<close>

definition AWS_REGIONS :: "(ustr \<times> ustr) list" where
  "AWS_REGIONS = map (\<lambda>(k, v). (u k, u v))
     [(''us-east-1'', ''US East (N. Virginia)''), (''us-east-2'', ''US East (Ohio)''), (''us-west-1'', ''US West (N. California)''),
      (''us-west-2'', ''US West (Oregon)''), (''eu-west-1'', ''EU (Ireland)''), (''eu-central-1'', ''EU (Frankfurt)''),
      (''ap-southeast-1'', ''Asia Pacific (Singapore)''), (''ap-northeast-1'', ''Asia Pacific (Tokyo)'')]"

definition SEVERITY_LABELS :: "(ustr \<times> ustr) list" where
  "SEVERITY_LABELS = map (\<lambda>(k, v). (u k, u v))
     [(''1'', ''low''), (''2'', ''medium''), (''3'', ''high''), (''4'', ''critical''), (''low'', ''low''), (''medium'', ''medium''),
      (''high'', ''high''), (''critical'', ''critical'')]"

definition TABLES :: "(ustr \<times> (ustr \<times> ustr) list) list" where
  "TABLES = [(u ''aws_regions'', AWS_REGIONS), (u ''aws-regions'', AWS_REGIONS), (u ''severity_labels'', SEVERITY_LABELS),
     (u ''severity-labels'', SEVERITY_LABELS), (u ''severity_mapping'', SEVERITY_LABELS)]"

definition normalize_table_name :: "ustr \<Rightarrow> ustr" where
  "normalize_table_name name = map (\<lambda>c. if c = 45 then 95 else c) (lower (strip name))"

definition lookup_value :: "ustr \<Rightarrow> ustr \<Rightarrow> ustr option" where
  "lookup_value table_name key =
     (let raw = strip table_name; k = strip key
      in case (case dget TABLES raw of Some t \<Rightarrow> Some t | None \<Rightarrow> dget TABLES (normalize_table_name raw)) of
           None \<Rightarrow> None
         | Some t \<Rightarrow> (case dget t k of Some v \<Rightarrow> Some v | None \<Rightarrow> dget t (lower k)))"

section \<open>Payload safety\<close>

definition internal_key :: "ustr \<Rightarrow> bool" where
  "internal_key k \<longleftrightarrow> startswith k (u ''__'')"

fun strip_internal_nested :: "json \<Rightarrow> json" where
  "strip_internal_nested (JDict d) = JDict (map (\<lambda>(k, v). (k, strip_internal_nested v)) (filter (\<lambda>(k, v). \<not> internal_key k) d))"
| "strip_internal_nested (JList xs) = JList (map strip_internal_nested xs)"
| "strip_internal_nested v = v"

definition RESERVED_EVENT_KEYS :: "ustr list" where
  "RESERVED_EVENT_KEYS = map u [''__rules'', ''__computed'', ''__preview'', ''__enrichment_meta'', ''__enrichment_warnings'', ''__validation'']"

definition sanitize_delivery_event :: "dict \<Rightarrow> json" where
  "sanitize_delivery_event event =
     strip_internal_nested (JDict (filter (\<lambda>(k, v). \<not> (k \<in> set RESERVED_EVENT_KEYS \<or> internal_key k)) event))"

section \<open>The plan of an enrichment\<close>

record enrich_warning =
  ew_code :: ustr
  ew_message :: ustr
  ew_rule_type :: "ustr option"
  ew_target :: "ustr option"

definition warn :: "string \<Rightarrow> ustr \<Rightarrow> string \<Rightarrow> ustr \<Rightarrow> enrich_warning" where
  "warn code msg ty target = \<lparr>ew_code = u code, ew_message = msg, ew_rule_type = Some (u ty), ew_target = Some target\<rparr>"

definition KEEP_EXISTING :: ustr where "KEEP_EXISTING = u ''KEEP_EXISTING''"

definition FORCE_OVERRIDE :: ustr where "FORCE_OVERRIDE = u ''OVERRIDE''"

definition ERROR_ON_CONFLICT :: ustr where "ERROR_ON_CONFLICT = u ''ERROR_ON_CONFLICT''"

definition validate_policy :: "ustr \<Rightarrow> stage_exc option" where
  "validate_policy policy =
     (if policy \<in> {KEEP_EXISTING, FORCE_OVERRIDE, ERROR_ON_CONFLICT} then None
      else Some (EnrichmentError (u ''Unknown override_policy '' @ repr_str policy @ u ''; expected one of '' @
        py_repr (JList [JStr ERROR_ON_CONFLICT, JStr KEEP_EXISTING, JStr FORCE_OVERRIDE]))))"

definition RULE_TYPES :: "ustr list" where
  "RULE_TYPES = map u [''static'', ''calculated'', ''lookup'', ''conditional'', ''normalize'', ''jsonata'', ''regex_extract'']"

definition RESERVED_KEYS :: "ustr list" where
  "RESERVED_KEYS = map u [''__rules'', ''__computed'', ''advanced_fields'']"

definition resolve_static_template :: "enrich_env \<Rightarrow> json \<Rightarrow> json" where
  "resolve_static_template env v = (case v of
     JStr s \<Rightarrow> if lower (filter (\<lambda>c. c \<noteq> 32) (strip s)) = u ''{{now_utc}}'' then JStr (xe_now (en_expr env)) else v
   | _ \<Rightarrow> v)"

definition normalize_rule_dict :: "dict \<Rightarrow> ustr \<Rightarrow> dict option" where
  "normalize_rule_dict rule default_target =
     (let rule_type = lower (rule_text rule [''type'', ''mode'']);
          v = first_of_keys rule (map u [''target_field'', ''fieldName'', ''field_name'']);
          target = strip (py_str (if truthy v then v else JStr default_target))
      in if rule_type \<notin> set RULE_TYPES \<or> target = [] \<or> dget rule (u ''enabled'') = Some (JBool False) then None
         else Some (dset (u ''target_field'') (JStr target) (dset (u ''type'') (JStr rule_type) rule)))"

definition opt_list :: "'a option \<Rightarrow> 'a list" where
  "opt_list x = (case x of None \<Rightarrow> [] | Some y \<Rightarrow> [y])"

definition listed_rule :: "ustr \<Rightarrow> json \<Rightarrow> dict list" where
  "listed_rule key item = (case item of
     JDict d \<Rightarrow>
       (let key_type = lower (strip key);
            merged = (if key_type \<in> set RULE_TYPES \<and> dget d (u ''type'') = None then dset (u ''type'') (JStr key_type) d else d)
        in opt_list (normalize_rule_dict merged []))
   | _ \<Rightarrow> [])"

definition rules_of_entry :: "ustr \<Rightarrow> json \<Rightarrow> dict list" where
  "rules_of_entry key v = (case v of
     JDict d \<Rightarrow> if dget d (u ''type'') \<noteq> None then opt_list (normalize_rule_dict d key) else []
   | JList items \<Rightarrow> concat (map (listed_rule key) items)
   | _ \<Rightarrow> [])"

definition computed_rule :: "ustr \<Rightarrow> json \<Rightarrow> dict list" where
  "computed_rule key v = (case v of
     JDict d \<Rightarrow> (case dget d (u ''expression'') of
       Some (JStr e) \<Rightarrow> [[(u ''type'', JStr (u ''calculated'')), (u ''target_field'', JStr key), (u ''expression'', JStr e), (u ''enabled'', JBool True)]]
     | _ \<Rightarrow> [])
   | _ \<Rightarrow> [])"

definition advanced_rule :: "json \<Rightarrow> dict list" where
  "advanced_rule item = (case item of
     JDict d \<Rightarrow>
       (let mode = lower (rule_text d [''mode''])
        in if mode = u ''jsonata'' \<or> mode = u ''regex_extract''
           then opt_list (normalize_rule_dict (dset (u ''target_field'') (JStr (rule_text d [''target_field'', ''output_field'', ''field'']))
                  (dset (u ''type'') (JStr mode) d)) [])
           else [])
   | _ \<Rightarrow> [])"

definition iter_advanced_rules :: "dict \<Rightarrow> dict list" where
  "iter_advanced_rules enrichment =
     (case dget enrichment (u ''__rules'') of Some (JDict d) \<Rightarrow> concat (map (\<lambda>(k, v). rules_of_entry k v) d) | _ \<Rightarrow> []) @
     (case dget enrichment (u ''__computed'') of Some (JDict d) \<Rightarrow> concat (map (\<lambda>(k, v). computed_rule k v) d) | _ \<Rightarrow> []) @
     (case dget enrichment (u ''advanced_fields'') of Some (JList xs) \<Rightarrow> concat (map advanced_rule xs) | _ \<Rightarrow> [])"

definition has_type :: "json \<Rightarrow> bool" where
  "has_type v = (case v of JDict d \<Rightarrow> dget d (u ''type'') \<noteq> None | _ \<Rightarrow> False)"

definition split_static_fields :: "enrich_env \<Rightarrow> dict \<Rightarrow> dict" where
  "split_static_fields env enrichment = map (\<lambda>(k, v). (k, resolve_static_template env v))
     (filter (\<lambda>(k, v). k \<notin> set RESERVED_KEYS \<and> \<not> has_type v) enrichment)"

definition should_apply :: "ustr \<Rightarrow> dict \<Rightarrow> ustr \<Rightarrow> stage_exc + bool" where
  "should_apply target event policy =
     (if policy = FORCE_OVERRIDE then Inr True
      else if has_field_value event target then
        if policy = ERROR_ON_CONFLICT
        then Inl (EnrichmentError (u ''Enrichment field '' @ repr_str target @ u '' conflicts with existing event field (override_policy='' @
               policy @ u '')''))
        else Inr False
      else Inr True)"

fun apply_static_fields :: "ustr \<Rightarrow> dict \<Rightarrow> dict \<Rightarrow> stage_exc + dict" where
  "apply_static_fields policy [] base = Inr base"
| "apply_static_fields policy ((key, v) # rest) base =
     (let target = strip key
      in if target = [] then apply_static_fields policy rest base
         else case should_apply target base policy of
           Inl x \<Rightarrow> Inl x
         | Inr False \<Rightarrow> apply_static_fields policy rest base
         | Inr True \<Rightarrow>
             if \<not> is_valid_field_path target then apply_static_fields policy rest base
             else if 46 \<in> set target then
               (case set_field_value base target v of
                  Some base' \<Rightarrow> apply_static_fields policy rest base'
                | None \<Rightarrow> apply_static_fields policy rest base)
             else apply_static_fields policy rest (dset target v base))"

section \<open>Conditions\<close>

datatype cond_op = Op_Exists | Op_Contains | Op_Equals | Op_Not_Equals

text \<open>Python's \<open>partition\<close>, without the separator, and \<open>strip\<close> of both kinds of quotes.\<close>

definition partition_on :: "ustr \<Rightarrow> ustr \<Rightarrow> ustr \<times> ustr" where
  "partition_on s sep = (case find_sub s sep 0 of None \<Rightarrow> (s, []) | Some i \<Rightarrow> (take i s, drop (i + length sep) s))"

definition strip_quotes :: "ustr \<Rightarrow> ustr" where
  "strip_quotes s = rev (dropWhile is_quote (rev (dropWhile is_quote s)))"

definition rx_lazy_any :: rx where "rx_lazy_any = Rx (\<lambda>c. c \<noteq> 10) 1 None True"

definition rx_compare :: "string \<Rightarrow> rx list" where
  "rx_compare oper = [rx_lazy_any, rx_ws, Rx_Lit (u oper), rx_ws, rx_quote, rx_unquoted 0, rx_quote, rx_ws]"

definition rx_compare_loose :: "string \<Rightarrow> rx list" where
  "rx_compare_loose oper = [rx_lazy_any, rx_ws, Rx_Lit (u oper), rx_ws, rx_quote_opt, rx_unquoted 1, rx_quote_opt, rx_ws]"

definition rx_includes :: "rx list" where
  "rx_includes = rx_ident @ [rx_ws, Rx_Lit (u ''.includes''), rx_ws, Rx_Lit (u ''(''), rx_ws, rx_quote, rx_unquoted 0, rx_quote, rx_ws,
     Rx_Lit (u '')''), rx_ws]"

definition parse_condition :: "ustr \<Rightarrow> (cond_op \<times> ustr \<times> ustr) option" where
  "parse_condition when_text =
     (let text = strip when_text
      in if text = [] then None
         else if startswith (lower text) (u ''exists '') then Some (Op_Exists, strip (drop 7 text), [])
         else if has_sub (lower text) (u '' contains '') then
           (case partition_on text (u '' contains '') of (f, operand) \<Rightarrow> Some (Op_Contains, strip f, strip_quotes (strip operand)))
         else case rx_match (rx_compare ''==='') text of
           Some ts \<Rightarrow> Some (Op_Equals, strip (ts ! 0), ts ! 5)
         | None \<Rightarrow> (case rx_match (rx_compare ''!=='') text of
             Some ts \<Rightarrow> Some (Op_Not_Equals, strip (ts ! 0), ts ! 5)
           | None \<Rightarrow> (case rx_match (rx_compare_loose ''=='') text of
               Some ts \<Rightarrow> Some (Op_Equals, strip (ts ! 0), ts ! 5)
             | None \<Rightarrow> (case rx_match (rx_compare_loose ''!='') text of
                 Some ts \<Rightarrow> Some (Op_Not_Equals, strip (ts ! 0), ts ! 5)
               | None \<Rightarrow> (case rx_match rx_includes text of
                   Some ts \<Rightarrow> Some (Op_Contains, ts ! 0 @ ts ! 1, ts ! 8)
                 | None \<Rightarrow> None)))))"

definition evaluate_condition :: "ustr \<Rightarrow> dict \<Rightarrow> bool" where
  "evaluate_condition when_text event = (case parse_condition when_text of
     None \<Rightarrow> False
   | Some (oper, f, operand) \<Rightarrow>
       (let v = field_or_key event f
        in case oper of
             Op_Exists \<Rightarrow> v \<noteq> JNull \<and> py_str v \<noteq> []
           | Op_Equals \<Rightarrow> py_str v = operand
           | Op_Not_Equals \<Rightarrow> py_str v \<noteq> operand
           | Op_Contains \<Rightarrow> has_sub (str_or_empty v) operand))"

section \<open>Rules\<close>

type_synonym rule_effect = "dict \<times> enrich_warning list"

definition or_unchanged :: "dict option \<Rightarrow> dict \<Rightarrow> dict" where
  "or_unchanged new event = (case new of Some e \<Rightarrow> e | None \<Rightarrow> event)"

text \<open>The evaluation of an expression always returns, so the last case does not occur.\<close>

definition calculated_value :: "enrich_env \<Rightarrow> dict \<Rightarrow> ustr \<Rightarrow> ustr + json" where
  "calculated_value env event expression = (case evaluate_calculated_expression (en_expr env) event expression of
     Some r \<Rightarrow> r | None \<Rightarrow> Inl [])"

definition apply_calculated :: "enrich_env \<Rightarrow> ustr \<Rightarrow> dict \<Rightarrow> dict \<Rightarrow> stage_exc + rule_effect" where
  "apply_calculated env policy rule event =
     (let target = py_str (dget_none rule (u ''target_field'')); expression = str_or_empty (dget_none rule (u ''expression''))
      in case should_apply target event policy of
           Inl x \<Rightarrow> Inl x
         | Inr False \<Rightarrow> Inr (event, [])
         | Inr True \<Rightarrow> (case calculated_value env event expression of
             Inl msg \<Rightarrow> Inr (event, [warn ''calculated_expression_failed'' msg ''calculated'' target])
           | Inr v \<Rightarrow> (case set_field_value event target v of
               Some event' \<Rightarrow> Inr (event', [])
             | None \<Rightarrow> Inr (event, [warn ''invalid_field_path'' (u ''Could not write calculated field '' @ repr_str target) ''calculated'' target]))))"

definition apply_lookup :: "ustr \<Rightarrow> dict \<Rightarrow> dict \<Rightarrow> stage_exc + rule_effect" where
  "apply_lookup policy rule event =
     (let target = py_str (dget_none rule (u ''target_field'')); table = py_str (first_of_keys rule (map u [''lookup_table'', ''lookupTable'']));
          key_field = rule_text rule [''key_field'', ''lookup_key_field'', ''lookupKeyField'']
      in if table = [] \<or> key_field = []
         then Inr (event, [warn ''invalid_rule_definition'' (u ''Lookup rule requires lookup_table and key_field'') ''lookup'' target])
         else case should_apply target event policy of
           Inl x \<Rightarrow> Inl x
         | Inr False \<Rightarrow> Inr (event, [])
         | Inr True \<Rightarrow>
             (let raw_key = field_or_key event key_field
              in if raw_key = JNull \<or> strip (py_str raw_key) = []
                 then Inr (event, [warn ''lookup_key_missing'' (u ''Lookup key field '' @ repr_str key_field @ u '' is missing on event'') ''lookup'' target])
                 else case lookup_value table (py_str raw_key) of
                   None \<Rightarrow> Inr (event, [warn ''lookup_miss'' (u ''No lookup value for key '' @ py_repr raw_key @ u '' in table '' @ repr_str table)
                     ''lookup'' target])
                 | Some v \<Rightarrow> Inr (or_unchanged (set_field_value event target (JStr v)) event, [])))"

text \<open>The conditions of a rule: the value of the first that holds, and the warnings on the way.\<close>

fun match_conditions :: "dict \<Rightarrow> ustr \<Rightarrow> json list \<Rightarrow> json option \<times> enrich_warning list" where
  "match_conditions event target [] = (None, [])"
| "match_conditions event target (item # items) = (case item of
     JDict d \<Rightarrow>
       (let when_text = str_or_empty (dget_none d (u ''when''))
        in if when_text \<noteq> [] \<and> evaluate_condition when_text event then (Some (dget_default d (u ''then'') (JStr [])), [])
           else case match_conditions event target items of (v, ws) \<Rightarrow>
             (v, (if strip when_text \<noteq> [] \<and> parse_condition when_text = None
                  then [warn ''conditional_invalid'' (u ''Unrecognized condition syntax: '' @ repr_str when_text) ''conditional'' target] else []) @ ws))
   | _ \<Rightarrow> match_conditions event target items)"

definition apply_conditional :: "ustr \<Rightarrow> dict \<Rightarrow> dict \<Rightarrow> stage_exc + rule_effect" where
  "apply_conditional policy rule event =
     (let target = py_str (dget_none rule (u ''target_field''))
      in case should_apply target event policy of
           Inl x \<Rightarrow> Inl x
         | Inr False \<Rightarrow> Inr (event, [])
         | Inr True \<Rightarrow> (case dget_none rule (u ''conditions'') of
             JList conditions \<Rightarrow>
               (let (found, ws) = match_conditions event target conditions;
                    default_value = first_of_keys rule (map u [''default'', ''conditionalDefault'']);
                    v = (case found of Some v \<Rightarrow> v | None \<Rightarrow> default_value);
                    ws' = (if found = None \<and> strip (py_str v) = []
                           then [warn ''conditional_invalid'' (u ''No condition matched and default is empty'') ''conditional'' target] else [])
                in Inr (or_unchanged (set_field_value event target v) event, ws @ ws'))
           | _ \<Rightarrow> Inr (event, [warn ''conditional_invalid'' (u ''Conditional rule requires conditions list'') ''conditional'' target])))"

definition normalize_value :: "enrich_env \<Rightarrow> json \<Rightarrow> ustr \<Rightarrow> ustr result" where
  "normalize_value env raw fmt =
     (let text = coerce_str raw; fmt_key = lower (strip fmt)
      in if fmt_key = u ''lowercase'' then Inr (lower text)
         else if fmt_key = u ''uppercase'' then Inr (upper text)
         else if fmt_key = u ''trim'' then Inr (strip text)
         else if fmt_key = u ''iso8601'' \<or> fmt_key = u ''iso_8601'' then
           (case en_iso env raw of Inl (TypeError m) \<Rightarrow> Inl (ValueError m) | r \<Rightarrow> r)
         else Inl (ValueError (u ''Unsupported normalize format '' @ repr_str fmt)))"

definition apply_normalize :: "enrich_env \<Rightarrow> ustr \<Rightarrow> dict \<Rightarrow> dict \<Rightarrow> stage_exc + rule_effect" where
  "apply_normalize env policy rule event =
     (let target = py_str (dget_none rule (u ''target_field''));
          source = rule_text rule [''source_field'', ''normalizeSourceField'', ''sourceField''];
          f = first_of_keys rule (map u [''format'', ''normalizeFormat'']);
          fmt = (if truthy f then py_str f else u ''iso8601'')
      in if source = [] then Inr (event, [warn ''invalid_rule_definition'' (u ''Normalize rule requires source_field'') ''normalize'' target])
         else case should_apply target event policy of
           Inl x \<Rightarrow> Inl x
         | Inr False \<Rightarrow> Inr (event, [])
         | Inr True \<Rightarrow> (case normalize_value env (field_or_key event source) fmt of
             Inl (ValueError m) \<Rightarrow> Inr (event, [warn ''normalize_failed'' m ''normalize'' target])
           | Inl e \<Rightarrow> Inl (StageFailure e)
           | Inr v \<Rightarrow> Inr (or_unchanged (set_field_value event target (JStr v)) event, [])))"

record step_effect =
  so_event :: dict
  so_warnings :: "enrich_warning list"
  so_errors :: "field_error list"
  so_results :: "transform_result list"

definition plain_effect :: "stage_exc + rule_effect \<Rightarrow> stage_exc + step_effect" where
  "plain_effect r = (case r of
     Inl x \<Rightarrow> Inl x
   | Inr (e, ws) \<Rightarrow> Inr \<lparr>so_event = e, so_warnings = ws, so_errors = [], so_results = []\<rparr>)"

definition failed_step :: "dict \<Rightarrow> transform_result \<Rightarrow> ustr \<Rightarrow> step_effect" where
  "failed_step event r f = \<lparr>so_event = event, so_warnings = [],
     so_errors = [\<lparr>fe_rule_id = tr_rule_id r, fe_output_field = f, fe_code = or_text (tr_error_code r) (u ''ADVANCED_TRANSFORM_FAILED''),
       fe_message = or_text (tr_error_message r) (u ''Advanced transform failed'')\<rparr>],
     so_results = [r]\<rparr>"

definition apply_transform_step :: "enrich_env \<Rightarrow> ustr \<Rightarrow> ustr \<Rightarrow> dict \<Rightarrow> dict \<Rightarrow> stage_exc + step_effect" where
  "apply_transform_step env policy rule_type rule event =
     (let rid = none_if_empty (rule_text rule [''rule_id'', ''id'']); target = rule_text rule [''target_field'', ''output_field'', ''field'']
      in if target = [] then Inr (failed_step event (field_rule_result_error [] rule_type rid ''TRANSFORM_OUTPUT_FIELD_REQUIRED''
           (u ''Advanced transform output field is required.'')) [])
         else case should_apply target event policy of
           Inl x \<Rightarrow> Inl x
         | Inr False \<Rightarrow> Inr \<lparr>so_event = event, so_warnings = [], so_errors = [],
             so_results = [(field_rule_result_ok target rule_type rid (if has_field_value event target then get_field_value event target else JNull) None)
               \<lparr>tr_warning := Some (target @ u '': existing value kept by override policy.''), tr_executed := False, tr_blocked := True\<rparr>]\<rparr>
         | Inr True \<Rightarrow> (case evaluate_field_transform_rule (en_map env) (JDict event) rule of
             Inl x \<Rightarrow> Inl x
           | Inr r \<Rightarrow>
               if \<not> tr_success r then Inr (failed_step event r (tr_output_field r))
               else case set_field_value event target (tr_value r) of
                 None \<Rightarrow> Inr (failed_step event (r\<lparr>tr_output_field := target, tr_success := False, tr_error_code := Some (u ''INVALID_FIELD_PATH''),
                     tr_error_message := Some (u ''Could not write advanced transform field '' @ repr_str target), tr_executed := True, tr_blocked := False\<rparr>) target)
               | Some event' \<Rightarrow> Inr \<lparr>so_event = event',
                   so_warnings = (if tr_recovered r then [\<lparr>ew_code = u ''transform_default_used'',
                     ew_message = or_text (tr_warning r) (target @ u '': used default value''), ew_rule_type = Some rule_type, ew_target = Some target\<rparr>] else []),
                   so_errors = [], so_results = [r]\<rparr>))"

definition apply_advanced_rule :: "enrich_env \<Rightarrow> ustr \<Rightarrow> dict \<Rightarrow> dict \<Rightarrow> stage_exc + step_effect" where
  "apply_advanced_rule env policy rule event =
     (let rule_type = py_str (first_of_keys rule (map u [''type'', ''mode'']))
      in if rule_type = u ''calculated'' then plain_effect (apply_calculated env policy rule event)
         else if rule_type = u ''lookup'' then plain_effect (apply_lookup policy rule event)
         else if rule_type = u ''conditional'' then plain_effect (apply_conditional policy rule event)
         else if rule_type = u ''normalize'' then plain_effect (apply_normalize env policy rule event)
         else if rule_type = u ''jsonata'' \<or> rule_type = u ''regex_extract'' then apply_transform_step env policy rule_type rule event
         else plain_effect (Inr (event, [\<lparr>ew_code = u ''invalid_rule_definition'', ew_message = u ''Unsupported rule type '' @ repr_str rule_type,
           ew_rule_type = Some rule_type, ew_target = Some (str_or_empty (dget_none rule (u ''target_field'')))\<rparr>])))"

section \<open>Execution\<close>

fun apply_advanced_rules :: "enrich_env \<Rightarrow> ustr \<Rightarrow> dict list \<Rightarrow> dict \<Rightarrow> stage_exc + step_effect" where
  "apply_advanced_rules env policy [] event = Inr \<lparr>so_event = event, so_warnings = [], so_errors = [], so_results = []\<rparr>"
| "apply_advanced_rules env policy (rule # rules) event = (case apply_advanced_rule env policy rule event of
     Inl x \<Rightarrow> Inl x
   | Inr s \<Rightarrow> (case apply_advanced_rules env policy rules (so_event s) of
       Inl x \<Rightarrow> Inl x
     | Inr t \<Rightarrow> Inr \<lparr>so_event = so_event t, so_warnings = so_warnings s @ so_warnings t, so_errors = so_errors s @ so_errors t,
                      so_results = so_results s @ so_results t\<rparr>))"

record enrich_result =
  er_event :: json
  er_warnings :: "enrich_warning list"
  er_errors :: "field_error list"
  er_results :: "transform_result list"

definition execute_enrichment :: "enrich_env \<Rightarrow> ustr \<Rightarrow> dict \<Rightarrow> json \<Rightarrow> stage_exc + enrich_result" where
  "execute_enrichment env policy enrichment event = (case validate_policy policy of
     Some x \<Rightarrow> Inl x
   | None \<Rightarrow> (case event of
       JDict e \<Rightarrow>
         if enrichment = [] then Inr \<lparr>er_event = sanitize_delivery_event e, er_warnings = [], er_errors = [], er_results = []\<rparr>
         else (case apply_static_fields policy (split_static_fields env enrichment) e of
           Inl x \<Rightarrow> Inl x
         | Inr base \<Rightarrow> (case apply_advanced_rules env policy (iter_advanced_rules enrichment) base of
             Inl x \<Rightarrow> Inl x
           | Inr s \<Rightarrow> Inr \<lparr>er_event = sanitize_delivery_event (so_event s), er_warnings = so_warnings s, er_errors = so_errors s,
                            er_results = so_results s\<rparr>))
     | _ \<Rightarrow> Inl (EnrichmentError (u ''execute_enrichment expects dict event, got '' @ type_name event))))"

text \<open>The first warning of each code, target and message.\<close>

definition warning_key :: "enrich_warning \<Rightarrow> ustr \<times> ustr option \<times> ustr" where
  "warning_key w = (ew_code w, ew_target w, ew_message w)"

fun dedupe_loop :: "(ustr \<times> ustr option \<times> ustr) list \<Rightarrow> enrich_warning list \<Rightarrow> enrich_warning list" where
  "dedupe_loop seen [] = []"
| "dedupe_loop seen (w # ws) =
     (if warning_key w \<in> set seen then dedupe_loop seen ws else w # dedupe_loop (warning_key w # seen) ws)"

definition dedupe_warnings :: "enrich_warning list \<Rightarrow> enrich_warning list" where
  "dedupe_warnings ws = dedupe_loop [] ws"

record enrich_batch =
  eb_events :: "json list"
  eb_warnings :: "enrich_warning list"
  eb_errors :: "field_error list"

definition execute_enrichments_batch :: "enrich_env \<Rightarrow> ustr \<Rightarrow> dict \<Rightarrow> json list \<Rightarrow> stage_exc + enrich_batch" where
  "execute_enrichments_batch env policy enrichment events = (case emap (execute_enrichment env policy enrichment) events of
     Inl x \<Rightarrow> Inl x
   | Inr rs \<Rightarrow> Inr \<lparr>eb_events = map er_event rs, eb_warnings = dedupe_warnings (concat (map er_warnings rs)),
                     eb_errors = concat (map er_errors rs)\<rparr>)"

definition apply_enrichment :: "enrich_env \<Rightarrow> ustr \<Rightarrow> dict \<Rightarrow> json \<Rightarrow> stage_exc + json" where
  "apply_enrichment env policy enrichment event = (case execute_enrichment env policy enrichment event of
     Inl x \<Rightarrow> Inl x | Inr r \<Rightarrow> Inr (er_event r))"

definition apply_enrichments :: "enrich_env \<Rightarrow> ustr \<Rightarrow> dict \<Rightarrow> json list \<Rightarrow> stage_exc + json list" where
  "apply_enrichments env policy enrichment events = (case execute_enrichments_batch env policy enrichment events of
     Inl x \<Rightarrow> Inl x | Inr b \<Rightarrow> Inr (eb_events b))"

section \<open>The trace of an enrichment\<close>

datatype plan_step = Static_Step ustr json | Rule_Step dict

definition step_target :: "plan_step \<Rightarrow> ustr" where
  "step_target p = (case p of Static_Step t _ \<Rightarrow> t | Rule_Step r \<Rightarrow> str_or_empty (dget_none r (u ''target_field'')))"

definition step_type :: "plan_step \<Rightarrow> ustr" where
  "step_type p = (case p of Static_Step _ _ \<Rightarrow> u ''static'' | Rule_Step r \<Rightarrow> str_or_empty (dget_none r (u ''type'')))"

definition enrichment_plan :: "enrich_env \<Rightarrow> dict \<Rightarrow> plan_step list" where
  "enrichment_plan env enrichment =
     map (\<lambda>(k, v). Static_Step k v) (split_static_fields env enrichment) @ map Rule_Step (iter_advanced_rules enrichment)"

record trace_step =
  ts_index :: nat
  ts_rule_type :: ustr
  ts_target :: ustr
  ts_executed :: bool
  ts_blocked :: bool
  ts_before :: "json option"
  ts_after :: "json option"
  ts_changed :: bool
  ts_warnings :: "enrich_warning list"
  ts_error :: "ustr option"

definition trace_value :: "dict \<Rightarrow> ustr \<Rightarrow> json option" where
  "trace_value event target = (if has_field_value event target then Some (get_field_value event target) else None)"

text \<open>
  One step of the plan.  A rule of type \<open>static\<close> takes the way of the static fields with the rule itself as the value.
\<close>

definition run_step :: "enrich_env \<Rightarrow> ustr \<Rightarrow> plan_step \<Rightarrow> dict \<Rightarrow> stage_exc + step_effect" where
  "run_step env policy p event = (case p of
     Static_Step k v \<Rightarrow> (case apply_static_fields policy [(k, v)] event of
       Inl x \<Rightarrow> Inl x | Inr e \<Rightarrow> plain_effect (Inr (e, [])))
   | Rule_Step r \<Rightarrow>
       if step_type p = u ''static'' then (case apply_static_fields policy [(step_target p, JDict r)] event of
         Inl x \<Rightarrow> Inl x | Inr e \<Rightarrow> plain_effect (Inr (e, [])))
       else apply_advanced_rule env policy r event)"

definition blocked_step :: "nat \<Rightarrow> plan_step \<Rightarrow> trace_step" where
  "blocked_step i p = \<lparr>ts_index = i, ts_rule_type = step_type p, ts_target = step_target p, ts_executed = False, ts_blocked = True,
     ts_before = None, ts_after = None, ts_changed = False, ts_warnings = [], ts_error = None\<rparr>"

definition describe_step :: "ustr \<Rightarrow> nat \<Rightarrow> plan_step \<Rightarrow> dict \<Rightarrow> step_effect \<Rightarrow> ustr option \<Rightarrow> trace_step" where
  "describe_step policy i p event s error =
     (let before = trace_value event (step_target p); after = trace_value (so_event s) (step_target p);
          inferred = so_results s = [] \<and> policy = KEEP_EXISTING \<and> before \<noteq> None \<and> error = None \<and> so_errors s = [] \<and> so_warnings s = [] \<and> before = after;
          blocked = (if so_results s = [] then inferred else tr_blocked (last (so_results s)))
      in \<lparr>ts_index = i, ts_rule_type = step_type p, ts_target = step_target p,
          ts_executed = (if so_results s = [] then \<not> blocked else tr_executed (last (so_results s))), ts_blocked = blocked,
          ts_before = before, ts_after = after, ts_changed = (before \<noteq> after), ts_warnings = so_warnings s, ts_error = error\<rparr>)"

fun trace_loop ::
  "enrich_env \<Rightarrow> ustr \<Rightarrow> int option \<Rightarrow> nat \<Rightarrow> bool \<Rightarrow> plan_step list \<Rightarrow> dict \<Rightarrow> stage_exc + (dict \<times> trace_step list)" where
  "trace_loop env policy through i failed [] event = Inr (event, [])"
| "trace_loop env policy through i failed (p # ps) event =
     (if (case through of Some n \<Rightarrow> n < int i | None \<Rightarrow> False) then Inr (event, [])
      else if failed then (case trace_loop env policy through (Suc i) True ps event of
        Inl x \<Rightarrow> Inl x | Inr (e, ts) \<Rightarrow> Inr (e, blocked_step i p # ts))
      else case (case run_step env policy p event of
          Inl (EnrichmentError m) \<Rightarrow> Inr (\<lparr>so_event = event, so_warnings = [], so_errors = [], so_results = []\<rparr>, Some m)
        | Inl x \<Rightarrow> Inl x
        | Inr s \<Rightarrow> Inr (s, (case so_errors s of [] \<Rightarrow> None | e # _ \<Rightarrow> Some (fe_message e)))) of
          Inl x \<Rightarrow> Inl x
        | Inr (s, error) \<Rightarrow> (case trace_loop env policy through (Suc i) (error \<noteq> None) ps (so_event s) of
            Inl x \<Rightarrow> Inl x
          | Inr (e, ts) \<Rightarrow> Inr (e, describe_step policy i p event s error # ts)))"

definition execute_enrichment_trace ::
  "enrich_env \<Rightarrow> ustr \<Rightarrow> int option \<Rightarrow> dict \<Rightarrow> json \<Rightarrow> stage_exc + (json \<times> trace_step list)" where
  "execute_enrichment_trace env policy through enrichment event = (case validate_policy policy of
     Some x \<Rightarrow> Inl x
   | None \<Rightarrow> (case event of
       JDict e \<Rightarrow> (case trace_loop env policy through 0 False (enrichment_plan env enrichment) e of
         Inl x \<Rightarrow> Inl x | Inr (out, ts) \<Rightarrow> Inr (sanitize_delivery_event out, ts))
     | _ \<Rightarrow> Inl (EnrichmentError (u ''execute_enrichment expects dict event, got '' @ type_name event))))"

section \<open>Nothing internal is delivered\<close>

fun no_internal_keys :: "json \<Rightarrow> bool" where
  "no_internal_keys (JDict d) = (\<forall>(k, v) \<in> set d. \<not> internal_key k \<and> no_internal_keys v)"
| "no_internal_keys (JList xs) = (\<forall>x \<in> set xs. no_internal_keys x)"
| "no_internal_keys _ = True"

lemma strip_no_internal: "no_internal_keys (strip_internal_nested v)"
  by (induction v rule: strip_internal_nested.induct) auto

lemma strip_internal_id: "no_internal_keys v \<Longrightarrow> strip_internal_nested v = v"
proof (induction v rule: strip_internal_nested.induct)
  case (1 d)
  then have "filter (\<lambda>(k, v). \<not> internal_key k) d = d" by (auto simp: filter_id_conv)
  with 1 show ?case by (auto intro!: map_idI)
next
  case (2 xs)
  then show ?case by (auto intro!: map_idI)
qed auto

lemma strip_internal_ok: "json_ok v \<Longrightarrow> json_ok (strip_internal_nested v)"
proof (induction v rule: strip_internal_nested.induct)
  case (1 d)
  have "distinct (map fst (filter (\<lambda>(k, v). \<not> internal_key k) d))" using 1(2) by (auto intro: distinct_map_filter)
  with 1 show ?case by (auto simp: case_prod_unfold comp_def)
qed auto

lemma reserved_internal: "k \<in> set RESERVED_EVENT_KEYS \<Longrightarrow> internal_key k"
  by (auto simp: RESERVED_EVENT_KEYS_def internal_key_def startswith_def u_def)

lemma sanitize_strips: "sanitize_delivery_event e = strip_internal_nested (JDict e)"
proof -
  have "(\<lambda>(k, v). \<not> (k \<in> set RESERVED_EVENT_KEYS \<or> internal_key k)) = (\<lambda>(k, v :: json). \<not> internal_key k)"
    using reserved_internal by auto
  then show ?thesis by (simp add: sanitize_delivery_event_def)
qed

lemma sanitize_dict: "\<exists>d. sanitize_delivery_event e = JDict d"
  by (simp add: sanitize_strips)

section \<open>Existing fields are kept\<close>

lemma extends_dict:
  "extends (JDict a) (JDict b) \<longleftrightarrow> (\<forall>k v. (k, v) \<in> set a \<longrightarrow> (\<exists>v'. dget b k = Some v' \<and> extends v v'))"
  by (fastforce split: option.splits)

lemma extends_dget: "extends (JDict a) (JDict b) \<Longrightarrow> dget a k = Some v \<Longrightarrow> \<exists>v'. dget b k = Some v' \<and> extends v v'"
  unfolding extends_dict by (blast dest: map_of_SomeD)

lemma strip_dget:
  "strip_internal_nested (JDict d) = JDict d' \<Longrightarrow> dget d' k = (if internal_key k then None else map_option strip_internal_nested (dget d k))"
  by (induction d arbitrary: d') auto

lemma strip_extends: "extends a b \<Longrightarrow> extends (strip_internal_nested a) (strip_internal_nested b)"
proof (induction a arbitrary: b rule: strip_internal_nested.induct)
  case (1 d)
  then obtain e where b: "b = JDict e" by (auto split: json.splits)
  obtain d' e' where s: "strip_internal_nested (JDict d) = JDict d'" "strip_internal_nested (JDict e) = JDict e'" by simp
  have "\<exists>v'. dget e' k = Some v' \<and> extends v v'" if kv: "(k, v) \<in> set d'" for k v
  proof -
    obtain w where w: "(k, w) \<in> set d" "\<not> internal_key k" "v = strip_internal_nested w" using kv s(1) by auto
    obtain w' where "dget e k = Some w'" "extends w w'" using 1(2) w(1) unfolding b extends_dict by blast
    then show ?thesis using strip_dget [OF s(2), of k] w 1(1) [of "(k, w)" k w] by auto
  qed
  then show ?case unfolding b s extends_dict by blast
next
  case (2 xs)
  then obtain ys where b: "b = JList ys" by (auto split: json.splits)
  then show ?case using 2 by auto
qed auto

text \<open>On the way to a path there are only objects, up to the first missing member or the last part.\<close>

fun clear_path :: "json \<Rightarrow> ustr list \<Rightarrow> bool" where
  "clear_path v [] = True"
| "clear_path v (p # ps) = (case v of
     JDict d \<Rightarrow> (case dget d p of Some w \<Rightarrow> ps = [] \<or> clear_path w ps | None \<Rightarrow> True)
   | _ \<Rightarrow> False)"

lemma extends_has_parts: "extends v w \<Longrightarrow> has_parts v ps \<Longrightarrow> has_parts w ps"
proof (induction ps arbitrary: v w)
  case (Cons p ps)
  then obtain a where a: "v = JDict a" by (auto split: json.splits)
  with Cons.prems obtain b where b: "w = JDict b" by (auto split: json.splits)
  obtain x where x: "dget a p = Some x" "has_parts x ps" using Cons.prems(2) a by (auto split: option.splits)
  obtain y where "dget b p = Some y" "extends x y" using extends_dget Cons.prems(1) a b x(1) by blast
  with Cons.IH [OF _ x(2)] b show ?case by simp
qed simp

lemma extends_dset_other:
  assumes "extends (JDict a) (JDict b)" "\<And>w. (p, w) \<in> set a \<Longrightarrow> extends w v"
  shows "extends (JDict a) (JDict (dset p v b))"
  using assms unfolding extends_dict by (metis map_of_SomeD update_conv fun_upd_apply)

lemma set_parts_extends:
  assumes "json_ok (JDict a)" "extends (JDict a) (JDict b)" "clear_path (JDict a) ps" "\<not> has_parts (JDict a) ps"
  shows "extends (JDict a) (JDict (set_parts ps v b))"
  using assms
proof (induction ps v b arbitrary: a rule: set_parts.induct)
  case (2 p v d)
  then have "dget a p = None" by (simp split: option.splits)
  then show ?case using 2 by (simp only: set_parts.simps) (rule extends_dset_other, simp, metis map_of_eq_None_iff fst_conv image_eqI)
next
  case (3 p q qs v d)
  show ?case
  proof (cases "dget a p")
    case None
    then show ?thesis using 3(3) by (simp only: set_parts.simps) (rule extends_dset_other, simp, metis map_of_eq_None_iff fst_conv image_eqI)
  next
    case (Some w)
    then have w: "clear_path w (q # qs)" "\<not> has_parts w (q # qs)" using 3(4,5) by auto
    then obtain c where c: "w = JDict c" by (auto split: json.splits)
    obtain w' where w': "dget d p = Some w'" "extends w w'" using extends_dget 3(3) Some by blast
    then obtain c' where c': "w' = JDict c'" using c by (auto split: json.splits)
    have ok: "json_ok (JDict c)" using 3(2) Some c json_ok_dget by blast
    have "extends (JDict c) (JDict (set_parts (q # qs) v c'))"
      using 3(1) [OF ok] w w' c c' by simp
    moreover have "x = w" if "(p, x) \<in> set a" for x using that Some 3(2) by auto
    ultimately show ?thesis using 3(3) w' c c' by (simp only: set_parts.simps option.case json.case) (rule extends_dset_other, simp, blast)
  qed
qed simp

text \<open>What a step may do to the event: nothing, or one write that the policy allows at a target.\<close>

definition may_write :: "ustr \<Rightarrow> ustr set \<Rightarrow> dict \<Rightarrow> dict \<Rightarrow> bool" where
  "may_write policy T event event' \<longleftrightarrow> event' = event \<or>
     (\<exists>t \<in> T. \<exists>v. should_apply t event policy = Inr True \<and> set_field_value event t v = Some event')"

lemma split_on_single: "c \<notin> set s \<Longrightarrow> split_on c s = [s]"
  by (induction s) auto

lemma has_field_parts: "strip path \<noteq> [] \<Longrightarrow> has_field_value event path = has_parts (JDict event) (split_on 46 (strip path))"
  by (auto simp: has_field_value_def Let_def split_on_single split: option.splits)

lemma set_field_parts: "set_field_value event path v = Some event' \<Longrightarrow>
    strip path \<noteq> [] \<and> event' = set_parts (split_on 46 (strip path)) v event"
  by (auto simp: set_field_value_def Let_def split: if_splits)

lemma strip_idem [simp]: "strip (strip s) = strip s"
proof (cases "strip s = []")
  case False
  define t where "t = dropWhile is_space s"
  have t: "strip s = rev (dropWhile is_space (rev t))" by (simp add: strip_def t_def)
  have ne: "dropWhile is_space (rev t) \<noteq> []" using False t by simp
  then have last: "\<not> is_space (last (strip s))" using hd_dropWhile [OF ne] by (simp add: t last_rev)
  have "t \<noteq> []" using ne by auto
  then have "\<not> is_space (hd t)" using hd_dropWhile [of is_space s] by (simp add: t_def)
  moreover have "hd (strip s) = hd t"
  proof -
    have "rev t = takeWhile is_space (rev t) @ dropWhile is_space (rev t)" by simp
    then have "t = rev (dropWhile is_space (rev t)) @ rev (takeWhile is_space (rev t))" by (metis rev_append rev_rev_ident)
    then show ?thesis using ne t by (metis hd_append2 rev_is_Nil_conv)
  qed
  ultimately show ?thesis using strip_ends [OF False _ last] by simp
next
  case True
  moreover have "strip [] = []" by (simp add: strip_def)
  ultimately show ?thesis by simp
qed

lemma may_write_extends:
  assumes "json_ok (JDict a)" "extends (JDict a) (JDict event)" "policy \<noteq> FORCE_OVERRIDE" "may_write policy T event event'"
    and "\<forall>t \<in> T. clear_path (JDict a) (split_on 46 (strip t))"
  shows "extends (JDict a) (JDict event')"
proof (cases "event' = event")
  case False
  then obtain t v where t: "t \<in> T" "should_apply t event policy = Inr True" "set_field_value event t v = Some event'"
    using assms(4) by (auto simp: may_write_def)
  note p = set_field_parts [OF t(3)]
  have "\<not> has_field_value event t" using t(2) assms(3) by (auto simp: should_apply_def split: if_splits)
  then have "\<not> has_parts (JDict a) (split_on 46 (strip t))"
    using has_field_parts [of t event] p extends_has_parts [OF assms(2)] by blast
  then show ?thesis using set_parts_extends [OF assms(1,2)] assms(5) t(1) p by blast
qed (use assms(2) in simp)

lemma may_write_refl [simp]: "may_write policy T event event"
  by (simp add: may_write_def)

lemma may_write_set:
  "t \<in> T \<Longrightarrow> should_apply t event policy = Inr True \<Longrightarrow> may_write policy T event (or_unchanged (set_field_value event t v) event)"
  by (auto simp: may_write_def or_unchanged_def split: option.splits)

lemma static_step:
  assumes "apply_static_fields policy ((k, v) # rest) base = Inr out"
  obtains base' where "may_write policy {strip k} base base'" "apply_static_fields policy rest base' = Inr out"
    "policy = ERROR_ON_CONFLICT \<longrightarrow> strip k \<noteq> [] \<longrightarrow> \<not> has_field_value base (strip k)"
proof (cases "strip k \<noteq> [] \<and> should_apply (strip k) base policy = Inr True \<and> is_valid_field_path (strip k)")
  case True
  let ?k = "strip k"
  have "set_field_value base ?k v = Some (set_parts (split_on 46 ?k) v base)" using True by (simp add: set_field_value_def)
  moreover have "apply_static_fields policy rest (set_parts (split_on 46 ?k) v base) = Inr out"
    using assms True calculation by (auto simp: split_on_single Let_def split: if_splits)
  moreover have "policy = ERROR_ON_CONFLICT \<longrightarrow> \<not> has_field_value base ?k"
    using True by (auto simp: should_apply_def FORCE_OVERRIDE_def ERROR_ON_CONFLICT_def split: if_splits)
  ultimately show ?thesis using that True unfolding may_write_def by blast
next
  case False
  have "apply_static_fields policy rest base = Inr out"
    using assms False by (auto simp: Let_def split: if_splits sum.splits bool.splits)
  moreover have "policy = ERROR_ON_CONFLICT \<longrightarrow> strip k \<noteq> [] \<longrightarrow> \<not> has_field_value base (strip k)"
    using assms by (auto simp: should_apply_def FORCE_OVERRIDE_def ERROR_ON_CONFLICT_def Let_def split: if_splits)
  ultimately show ?thesis using that may_write_refl by blast
qed

lemma static_extends:
  assumes "apply_static_fields policy fs base = Inr out" "json_ok (JDict a)" "extends (JDict a) (JDict base)" "policy \<noteq> FORCE_OVERRIDE"
    and "\<forall>t \<in> fst ` set fs. clear_path (JDict a) (split_on 46 (strip t))"
  shows "extends (JDict a) (JDict out)"
  using assms
proof (induction fs arbitrary: base)
  case (Cons x fs)
  obtain k v where x: "x = (k, v)" by (cases x)
  with Cons.prems(1) obtain base' where "may_write policy {strip k} base base'" "apply_static_fields policy fs base' = Inr out"
    using static_step by blast
  with Cons.IH [of base'] Cons.prems may_write_extends [OF Cons.prems(2-4), of "{strip k}" base'] show ?case by (simp add: x)
qed simp

lemma static_conflicts:
  assumes "apply_static_fields ERROR_ON_CONFLICT fs base = Inr out" "json_ok (JDict a)" "extends (JDict a) (JDict base)"
    and "\<forall>t \<in> fst ` set fs. clear_path (JDict a) (split_on 46 (strip t))" "(k, v) \<in> set fs" "strip k \<noteq> []"
  shows "\<not> has_field_value a k"
  using assms
proof (induction fs arbitrary: base)
  case (Cons x fs)
  obtain j w where x: "x = (j, w)" by (cases x)
  with Cons.prems(1) obtain base' where b: "may_write ERROR_ON_CONFLICT {strip j} base base'" "apply_static_fields ERROR_ON_CONFLICT fs base' = Inr out"
    "strip j \<noteq> [] \<longrightarrow> \<not> has_field_value base (strip j)"
    using static_step by metis
  have p: "ERROR_ON_CONFLICT \<noteq> FORCE_OVERRIDE" by (simp add: ERROR_ON_CONFLICT_def FORCE_OVERRIDE_def)
  show ?case
  proof (cases "x = (k, v)")
    case True
    then have "\<not> has_field_value base (strip k)" using b(3) Cons.prems(6) x by simp
    then show ?thesis using extends_has_parts [OF Cons.prems(3)] has_field_parts [of k a] has_field_parts [of "strip k" base] Cons.prems(6)
      by auto
  next
    case False
    have "extends (JDict a) (JDict base')"
      using may_write_extends [OF Cons.prems(2,3) p b(1)] Cons.prems(4) by (simp add: x)
    with Cons.IH [OF b(2) Cons.prems(2)] False Cons.prems(4-6) show ?thesis by simp
  qed
qed simp

definition rule_targets :: "dict \<Rightarrow> ustr set" where
  "rule_targets rule = {py_str (dget_none rule (u ''target_field'')), rule_text rule [''target_field'', ''output_field'', ''field'']}"

lemma calculated_writes: "apply_calculated env policy rule event = Inr (e, ws) \<Longrightarrow> may_write policy (rule_targets rule) event e"
  by (auto simp: apply_calculated_def Let_def rule_targets_def may_write_def split: sum.splits bool.splits option.splits)

lemma lookup_writes: "apply_lookup policy rule event = Inr (e, ws) \<Longrightarrow> may_write policy (rule_targets rule) event e"
  by (auto simp: apply_lookup_def Let_def rule_targets_def intro!: may_write_set split: if_splits sum.splits bool.splits option.splits)

lemma conditional_writes: "apply_conditional policy rule event = Inr (e, ws) \<Longrightarrow> may_write policy (rule_targets rule) event e"
  by (auto simp: apply_conditional_def Let_def rule_targets_def case_prod_unfold intro!: may_write_set split: sum.splits bool.splits json.splits)

lemma normalize_writes: "apply_normalize env policy rule event = Inr (e, ws) \<Longrightarrow> may_write policy (rule_targets rule) event e"
  by (auto simp: apply_normalize_def Let_def rule_targets_def intro!: may_write_set split: if_splits sum.splits bool.splits pyexc.splits)

lemma transform_writes: "apply_transform_step env policy ty rule event = Inr s \<Longrightarrow> may_write policy (rule_targets rule) event (so_event s)"
  by (auto simp: apply_transform_step_def failed_step_def Let_def rule_targets_def may_write_def split: if_splits sum.splits bool.splits option.splits)

lemma plain_effect_event: "plain_effect r = Inr s \<Longrightarrow> \<exists>ws. r = Inr (so_event s, ws)"
  by (auto simp: plain_effect_def split: sum.splits)

lemma advanced_rule_cases:
  assumes "apply_advanced_rule env policy rule event = Inr s"
  obtains (calculated) ws where "apply_calculated env policy rule event = Inr (so_event s, ws)"
    | (lookup) ws where "apply_lookup policy rule event = Inr (so_event s, ws)"
    | (conditional) ws where "apply_conditional policy rule event = Inr (so_event s, ws)"
    | (normalize) ws where "apply_normalize env policy rule event = Inr (so_event s, ws)"
    | (transform) ty where "apply_transform_step env policy ty rule event = Inr s"
    | (unsupported) "so_event s = event"
proof -
  define ty where "ty = py_str (first_of_keys rule (map u [''type'', ''mode'']))"
  note d = assms [unfolded apply_advanced_rule_def Let_def, folded ty_def]
  consider "plain_effect (apply_calculated env policy rule event) = Inr s" | "plain_effect (apply_lookup policy rule event) = Inr s"
    | "plain_effect (apply_conditional policy rule event) = Inr s" | "plain_effect (apply_normalize env policy rule event) = Inr s"
    | "apply_transform_step env policy ty rule event = Inr s" | w where "plain_effect (Inr (event, [w])) = Inr s"
    using d by (auto split: if_split_asm)
  then show thesis by cases (use that plain_effect_event in blast)+
qed

lemma rule_writes:
  assumes "apply_advanced_rule env policy rule event = Inr s"
  shows "may_write policy (rule_targets rule) event (so_event s)"
  using assms
  by (cases rule: advanced_rule_cases)
    (auto dest: calculated_writes lookup_writes conditional_writes normalize_writes transform_writes)

lemma rules_extend:
  assumes "apply_advanced_rules env policy rules event = Inr s" "json_ok (JDict a)" "extends (JDict a) (JDict event)" "policy \<noteq> FORCE_OVERRIDE"
    and "\<forall>rl \<in> set rules. \<forall>t \<in> rule_targets rl. clear_path (JDict a) (split_on 46 (strip t))"
  shows "extends (JDict a) (JDict (so_event s))"
  using assms
proof (induction rules arbitrary: event s)
  case (Cons rl rules)
  obtain s1 s2 where s: "apply_advanced_rule env policy rl event = Inr s1" "apply_advanced_rules env policy rules (so_event s1) = Inr s2"
    "so_event s = so_event s2"
    using Cons.prems(1) by (auto split: sum.splits)
  have "extends (JDict a) (JDict (so_event s1))"
    using may_write_extends [OF Cons.prems(2-4) rule_writes [OF s(1)]] Cons.prems(5) by simp
  with Cons.IH [OF s(2) Cons.prems(2)] Cons.prems(4,5) s(3) show ?case by simp
qed simp

definition enrichment_targets :: "enrich_env \<Rightarrow> dict \<Rightarrow> ustr set" where
  "enrichment_targets env enrichment = fst ` set (split_static_fields env enrichment) \<union> \<Union> (rule_targets ` set (iter_advanced_rules enrichment))"

lemma enrichment_extends:
  assumes "execute_enrichment env policy enrichment (JDict e) = Inr r" "policy \<noteq> FORCE_OVERRIDE" "json_ok (JDict e)"
    and "\<forall>t \<in> enrichment_targets env enrichment. clear_path (JDict e) (split_on 46 (strip t))"
  shows "extends (sanitize_delivery_event e) (er_event r) \<and>
    (policy = ERROR_ON_CONFLICT \<longrightarrow> (\<forall>(k, v) \<in> set (split_static_fields env enrichment). strip k \<noteq> [] \<longrightarrow> \<not> has_field_value e k))"
proof -
  have refl: "extends (JDict e) (JDict e)" using assms(3) by (rule extends_refl)
  show ?thesis
  proof (cases "enrichment = []")
    case True
    then show ?thesis using assms(1) refl strip_extends [of "JDict e" "JDict e"]
      by (auto simp: execute_enrichment_def sanitize_strips split_static_fields_def split: option.splits simp del: extends.simps)
  next
    case False
    then obtain base s where b: "apply_static_fields policy (split_static_fields env enrichment) e = Inr base"
      "apply_advanced_rules env policy (iter_advanced_rules enrichment) base = Inr s" "er_event r = sanitize_delivery_event (so_event s)"
      using assms(1) by (auto simp: execute_enrichment_def split: option.splits sum.splits)
    have st: "\<forall>t \<in> fst ` set (split_static_fields env enrichment). clear_path (JDict e) (split_on 46 (strip t))"
      and ru: "\<forall>rl \<in> set (iter_advanced_rules enrichment). \<forall>t \<in> rule_targets rl. clear_path (JDict e) (split_on 46 (strip t))"
      using assms(4) by (auto simp: enrichment_targets_def)
    have "extends (JDict e) (JDict (so_event s))"
      using rules_extend [OF b(2) assms(3) static_extends [OF b(1) assms(3) refl assms(2) st] assms(2) ru] .
    then have "extends (sanitize_delivery_event e) (er_event r)" unfolding b(3) sanitize_strips by (rule strip_extends)
    moreover have "\<not> has_field_value e k" if "policy = ERROR_ON_CONFLICT" "(k, v) \<in> set (split_static_fields env enrichment)" "strip k \<noteq> []" for k v
      using static_conflicts [OF _ assms(3) refl st that(2,3)] b(1) that(1) by simp
    ultimately show ?thesis by auto
  qed
qed

text \<open>
  C32. Enrichment without override only adds.  Under KEEP_EXISTING and ERROR_ON_CONFLICT the enriched event has every field of
  the event with its value, at every depth, apart from internal keys, provided no target leads through an existing value
  that is no object.  Under ERROR_ON_CONFLICT no static target is a field of the event.
\<close>

theorem enrichment_only_adds:
  assumes "execute_enrichment env policy enrichment (JDict e) = Inr r" "policy \<noteq> FORCE_OVERRIDE" "json_ok (JDict e)"
    and "\<forall>t \<in> enrichment_targets env enrichment. clear_path (JDict e) (split_on 46 (strip t))"
  shows "extends (sanitize_delivery_event e) (er_event r) \<and>
    (policy = ERROR_ON_CONFLICT \<longrightarrow> (\<forall>(k, v) \<in> set (split_static_fields env enrichment). strip k \<noteq> [] \<longrightarrow> \<not> has_field_value e k))"
  using assms by (rule enrichment_extends)

text \<open>
  C34. Nothing internal is delivered.  Whatever the policy, the configuration and the outside engines are, an enriched event is
  an object in which no key, at any depth, starts with two underscores; the rules of the configuration never reach a
  destination.  The batch keeps the number and the order of the events.
\<close>

theorem enriched_has_no_internal_keys:
  "case execute_enrichments_batch env policy enrichment events of
     Inl x \<Rightarrow> \<exists>e \<in> set events. execute_enrichment env policy enrichment e = Inl x
   | Inr b \<Rightarrow> list_all2 (\<lambda>e out. is_dict out \<and> no_internal_keys out \<and> (\<exists>r. execute_enrichment env policy enrichment e = Inr r \<and> out = er_event r))
       events (eb_events b)"
proof -
  have *: "is_dict (er_event r) \<and> no_internal_keys (er_event r)" if "execute_enrichment env policy enrichment e = Inr r" for e r
    using that strip_no_internal [of "JDict _"]
    by (auto simp: execute_enrichment_def sanitize_strips is_dict_def split: option.splits json.splits if_splits sum.splits)
  show ?thesis
  proof (cases "emap (execute_enrichment env policy enrichment) events")
    case (Inl x)
    then show ?thesis using emap_cases [where f = "execute_enrichment env policy enrichment" and xs = events]
      by (simp add: execute_enrichments_batch_def)
  next
    case (Inr rs)
    then have "list_all2 (\<lambda>e r. execute_enrichment env policy enrichment e = Inr r) events rs" by (rule emap_Inr)
    with Inr * show ?thesis
      by (auto simp: execute_enrichments_batch_def list.rel_map elim!: list_all2_mono)
  qed
qed

definition demo_enrich_env :: enrich_env where
  "demo_enrich_env = \<lparr>en_map = demo_mapping_env, en_expr = demo_expr_env, en_iso = (\<lambda>v. Inl (ValueError (u ''no date'')))\<rparr>"

lemma static_only:
  assumes "k \<notin> set RESERVED_KEYS" "k \<notin> {u ''__rules'', u ''__computed'', u ''advanced_fields''}"
  shows "split_static_fields env [(k, JInt i)] = [(k, JInt i)] \<and> iter_advanced_rules [(k, JInt i)] = []"
  using assms by (auto simp: split_static_fields_def has_type_def resolve_static_template_def iter_advanced_rules_def)

lemma demo_static:
  "split_static_fields env [(u ''a.b'', JInt 2)] = [(u ''a.b'', JInt 2)]" "iter_advanced_rules [(u ''a.b'', JInt 2)] = []"
  "strip (u ''a.b'') = u ''a.b''" "split_on 46 (u ''a.b'') = [u ''a'', u ''b'']" "is_valid_field_path (u ''a.b'')"
  using static_only [of "u ''a.b''" env 2]
  by (simp_all add: RESERVED_KEYS_def strip_def is_space_def is_valid_field_path_def startswith_def Let_def u_def is_name_def name_start_def name_char_def)

lemma demo_write:
  assumes "\<not> has_parts (JDict e) [u ''a'', u ''b'']"
  shows "apply_static_fields KEEP_EXISTING [(u ''a.b'', JInt 2)] e = Inr (set_parts [u ''a'', u ''b''] (JInt 2) e)"
proof -
  have "u ''a.b'' \<noteq> []" "46 \<in> set (u ''a.b'')" by (simp_all add: u_def)
  moreover have "\<not> has_field_value e (u ''a.b'')" using assms calculation demo_static(3,4) by (simp add: has_field_value_def del: has_parts.simps)
  ultimately show ?thesis using demo_static(3-5)
    by (simp add: should_apply_def KEEP_EXISTING_def FORCE_OVERRIDE_def set_field_value_def del: set_parts.simps has_parts.simps)
qed

lemma demo_execute:
  assumes "\<not> has_parts (JDict e) [u ''a'', u ''b'']"
  shows "execute_enrichment env KEEP_EXISTING [(u ''a.b'', JInt 2)] (JDict e) =
    Inr \<lparr>er_event = sanitize_delivery_event (set_parts [u ''a'', u ''b''] (JInt 2) e), er_warnings = [], er_errors = [], er_results = []\<rparr>"
  using demo_write [OF assms] demo_static(1,2)
  by (simp add: execute_enrichment_def validate_policy_def del: set_parts.simps has_parts.simps apply_static_fields.simps)

theorem enrichment_only_adds_witness:
  "extends (sanitize_delivery_event [(u ''a'', JDict [(u ''c'', JInt 1)])])
     (sanitize_delivery_event (set_parts [u ''a'', u ''b''] (JInt 2) [(u ''a'', JDict [(u ''c'', JInt 1)])]))"
proof -
  let ?e = "[(u ''a'', JDict [(u ''c'', JInt 1)])]"
  have n: "\<not> has_parts (JDict ?e) [u ''a'', u ''b'']" by simp
  have t: "enrichment_targets demo_enrich_env [(u ''a.b'', JInt 2)] = {u ''a.b''}"
    using demo_static(1,2) by (simp add: enrichment_targets_def)
  show ?thesis using enrichment_only_adds [OF demo_execute [OF n, of demo_enrich_env]] t demo_static(3,4)
    by (simp add: KEEP_EXISTING_def FORCE_OVERRIDE_def)
qed

text \<open>
  A scalar on the way is lost.  A target that leads through an existing value that is no object replaces that value,
  although the policy is to keep existing fields.
\<close>

lemma keep_existing_replaces_scalar_parent:
  "execute_enrichment env KEEP_EXISTING [(u ''a.b'', JInt 2)] (JDict [(u ''a'', JInt 1)]) =
     Inr \<lparr>er_event = JDict [(u ''a'', JDict [(u ''b'', JInt 2)])], er_warnings = [], er_errors = [], er_results = []\<rparr>"
proof -
  have "\<not> internal_key (u ''a'')" "\<not> internal_key (u ''b'')" by (simp_all add: internal_key_def startswith_def u_def)
  then show ?thesis using demo_execute [of "[(u ''a'', JInt 1)]" env] by (simp add: sanitize_strips)
qed

text \<open>
  A condition with CONTAINS in another case than lower case always holds: the operator is recognised in any case, but the
  text is split at the lower-case word only, so the operand is empty, and the empty text is in every value.
\<close>

lemma contains_in_capitals_always_holds:
  assumes "has_sub (lower (strip w)) (u '' contains '')" "\<not> has_sub (strip w) (u '' contains '')" "\<not> startswith (lower (strip w)) (u ''exists '')"
  shows "evaluate_condition w event"
proof -
  have "strip w \<noteq> []" using assms(1) by (auto simp: has_sub_def lower_def startswith_def u_def)
  moreover have "find_sub (strip w) (u '' contains '') 0 = None"
    using assms(2) unfolding find_sub_def has_sub_def by (auto simp: find_None_iff list_ex_iff simp del: upt.simps)
  moreover have "strip_quotes (strip []) = []" by (simp add: strip_quotes_def strip_def)
  moreover have "has_sub s []" for s by (rule has_subI [of 0]) (simp_all add: startswith_def)
  ultimately show ?thesis using assms(1,3) by (simp add: evaluate_condition_def parse_condition_def partition_on_def)
qed

lemma contains_in_capitals_always_holds_witness:
  "evaluate_condition (u ''msg CONTAINS error'') [(u ''msg'', JStr (u ''all fine''))]"
  by (rule contains_in_capitals_always_holds) (simp_all add: has_sub_def startswith_def strip_def is_space_def lower_def ch_lower_def u_def upt_rec)

section \<open>Trace and execution\<close>

lemma static_cons:
  "apply_static_fields policy ((k, v) # fs) base = (case apply_static_fields policy [(k, v)] base of
     Inl x \<Rightarrow> Inl x | Inr base' \<Rightarrow> apply_static_fields policy fs base')"
  by (auto simp: Let_def split: sum.splits bool.splits option.splits)

lemma trace_static:
  assumes "apply_static_fields policy fs event = Inr base" "trace_loop env policy None (i + length fs) False ps base = Inr (out, ts')"
  shows "\<exists>ts. trace_loop env policy None i False (map (\<lambda>(k, v). Static_Step k v) fs @ ps) event = Inr (out, ts @ ts') \<and>
    length ts = length fs \<and> (\<forall>t \<in> set ts. ts_error t = None)"
  using assms
proof (induction fs arbitrary: event i)
  case (Cons x fs)
  obtain k v where x: "x = (k, v)" by (cases x)
  obtain e1 where e1: "apply_static_fields policy [(k, v)] event = Inr e1" "apply_static_fields policy fs e1 = Inr base"
    using Cons.prems(1) unfolding x static_cons [of policy k v fs] by (auto split: sum.splits)
  obtain ts where ts: "trace_loop env policy None (Suc i) False (map (\<lambda>(k, v). Static_Step k v) fs @ ps) e1 = Inr (out, ts @ ts')"
    "length ts = length fs" "\<forall>t \<in> set ts. ts_error t = None"
    using Cons.IH [OF e1(2), of "Suc i"] Cons.prems(2) by auto
  let ?s = "\<lparr>so_event = e1, so_warnings = [], so_errors = [], so_results = []\<rparr>"
  have "run_step env policy (Static_Step k v) event = Inr ?s" using e1(1) by (simp add: run_step_def plain_effect_def del: apply_static_fields.simps)
  then have "trace_loop env policy None i False (map (\<lambda>(k, v). Static_Step k v) (x # fs) @ ps) event =
      Inr (out, (describe_step policy i (Static_Step k v) event ?s None # ts) @ ts')"
    using ts(1) by (simp add: x)
  moreover have "ts_error (describe_step policy i (Static_Step k v) event ?s None) = None" by (simp add: describe_step_def Let_def)
  ultimately show ?case using ts(2,3) by (metis length_Cons set_ConsD)
qed simp

lemma trace_rules:
  assumes "apply_advanced_rules env policy rules event = Inr s" "so_errors s = []" "\<forall>rl \<in> set rules. step_type (Rule_Step rl) \<noteq> u ''static''"
  shows "\<exists>ts. trace_loop env policy None i False (map Rule_Step rules) event = Inr (so_event s, ts) \<and>
    length ts = length rules \<and> (\<forall>t \<in> set ts. ts_error t = None)"
  using assms
proof (induction rules arbitrary: event i s)
  case (Cons rl rules)
  obtain s1 s2 where s: "apply_advanced_rule env policy rl event = Inr s1" "apply_advanced_rules env policy rules (so_event s1) = Inr s2"
    "so_event s = so_event s2" "so_errors s1 = []" "so_errors s2 = []"
    using Cons.prems(1,2) by (auto split: sum.splits)
  obtain ts where ts: "trace_loop env policy None (Suc i) False (map Rule_Step rules) (so_event s1) = Inr (so_event s2, ts)"
    "length ts = length rules" "\<forall>t \<in> set ts. ts_error t = None"
    using Cons.IH [OF s(2,5), of "Suc i"] Cons.prems(3) by auto
  have "run_step env policy (Rule_Step rl) event = Inr s1" using Cons.prems(3) s(1) by (simp add: run_step_def)
  then have "trace_loop env policy None i False (map Rule_Step (rl # rules)) event =
      Inr (so_event s, describe_step policy i (Rule_Step rl) event s1 None # ts)"
    using ts(1) s(3,4) by simp
  moreover have "ts_error (describe_step policy i (Rule_Step rl) event s1 None) = None" by (simp add: describe_step_def Let_def)
  ultimately show ?case using ts(2,3) by (metis length_Cons set_ConsD)
qed simp

text \<open>
  C33. The trace shows what the runtime does.  When an enrichment has no rule of type static and reports no field error, the
  trace ends in the same event as the execution, and has one step without error for each static field and each rule.
\<close>

theorem trace_agrees_with_execution:
  assumes "execute_enrichment env policy enrichment event = Inr r" "er_errors r = []"
    and "\<forall>rl \<in> set (iter_advanced_rules enrichment). step_type (Rule_Step rl) \<noteq> u ''static''"
  shows "\<exists>ts. execute_enrichment_trace env policy None enrichment event = Inr (er_event r, ts) \<and>
    length ts = length (enrichment_plan env enrichment) \<and> (\<forall>t \<in> set ts. ts_error t = None)"
proof -
  obtain e where e: "event = JDict e" "validate_policy policy = None"
    using assms(1) by (auto simp: execute_enrichment_def split: option.splits json.splits)
  show ?thesis
  proof (cases "enrichment = []")
    case True
    then have "enrichment_plan env enrichment = []" by (simp add: enrichment_plan_def split_static_fields_def iter_advanced_rules_def)
    then show ?thesis using True assms(1) e by (auto simp: execute_enrichment_def execute_enrichment_trace_def)
  next
    case False
    then obtain base s where b: "apply_static_fields policy (split_static_fields env enrichment) e = Inr base"
      "apply_advanced_rules env policy (iter_advanced_rules enrichment) base = Inr s" "er_event r = sanitize_delivery_event (so_event s)" "so_errors s = []"
      using assms(1,2) e by (auto simp: execute_enrichment_def split: sum.splits)
    obtain ts' where ts': "trace_loop env policy None (0 + length (split_static_fields env enrichment)) False (map Rule_Step (iter_advanced_rules enrichment)) base =
        Inr (so_event s, ts')" "length ts' = length (iter_advanced_rules enrichment)" "\<forall>t \<in> set ts'. ts_error t = None"
      using trace_rules [OF b(2,4) assms(3)] by blast
    obtain ts where "trace_loop env policy None 0 False (enrichment_plan env enrichment) e = Inr (so_event s, ts @ ts')"
      "length ts = length (split_static_fields env enrichment)" "\<forall>t \<in> set ts. ts_error t = None"
      using trace_static [OF b(1) ts'(1)] by (auto simp: enrichment_plan_def)
    with ts'(2,3) e b(3) show ?thesis by (auto simp: execute_enrichment_trace_def enrichment_plan_def intro!: exI [of _ "ts @ ts'"])
  qed
qed

theorem trace_agrees_with_execution_witness:
  "\<exists>ts. execute_enrichment_trace demo_enrich_env KEEP_EXISTING None [(u ''a.b'', JInt 2)] (JDict [(u ''x'', JInt 1)]) =
     Inr (sanitize_delivery_event (set_parts [u ''a'', u ''b''] (JInt 2) [(u ''x'', JInt 1)]), ts) \<and> length ts = 1"
proof -
  have n: "\<not> has_parts (JDict [(u ''x'', JInt 1)]) [u ''a'', u ''b'']" by simp
  show ?thesis using trace_agrees_with_execution [OF demo_execute [OF n, of demo_enrich_env]] demo_static(1,2)
    by (auto simp: enrichment_plan_def)
qed

text \<open>
  A rule of type static is accepted by the normalisation of rules.  The runtime answers it with a warning and leaves the event
  alone; the trace writes the rule itself into the target field.
\<close>

lemma static_rule_diverges:
  assumes "dget e (u ''x'') = None"
  shows "apply_advanced_rule env KEEP_EXISTING [(u ''type'', JStr (u ''static'')), (u ''target_field'', JStr (u ''x''))] e =
      plain_effect (Inr (e, [\<lparr>ew_code = u ''invalid_rule_definition'', ew_message = u ''Unsupported rule type '' @ repr_str (u ''static''),
        ew_rule_type = Some (u ''static''), ew_target = Some (u ''x'')\<rparr>])) \<and>
    run_step env KEEP_EXISTING (Rule_Step [(u ''type'', JStr (u ''static'')), (u ''target_field'', JStr (u ''x''))]) e =
      plain_effect (Inr (dset (u ''x'') (JDict [(u ''type'', JStr (u ''static'')), (u ''target_field'', JStr (u ''x''))]) e, []))"
proof -
  have t: "truthy (JStr (u ''static''))" "truthy (JStr (u ''x''))" "strip (u ''x'') = u ''x''" "u ''x'' \<noteq> []" "46 \<notin> set (u ''x'')" "is_valid_field_path (u ''x'')"
    by (simp_all add: truthy_def u_def strip_def is_space_def is_valid_field_path_def startswith_def Let_def is_name_def name_start_def)
  have "\<not> has_field_value e (u ''x'')" using assms t by (simp add: has_field_value_def)
  then show ?thesis using t
    by (simp add: apply_advanced_rule_def run_step_def step_type_def step_target_def dget_none_def py_str_def str_or_empty_def should_apply_def
        KEEP_EXISTING_def FORCE_OVERRIDE_def Let_def)
qed

section \<open>Well-formed results\<close>

lemma set_parts_ok: "json_ok (JDict d) \<Longrightarrow> json_ok v \<Longrightarrow> json_ok (JDict (set_parts ps v d))"
proof (induction ps v d rule: set_parts.induct)
  case (3 p q qs v d)
  let ?c = "case dget d p of Some (JDict c) \<Rightarrow> c | _ \<Rightarrow> []"
  have "json_ok (JDict ?c)" using json_ok_dget [OF 3(2), of p] by (auto split: option.splits json.splits)
  with 3 show ?case by (simp only: set_parts.simps) (blast intro: json_ok_dset)
qed (auto intro: json_ok_dset simp del: json_ok.simps)

lemma set_field_ok: "set_field_value d t v = Some d' \<Longrightarrow> json_ok (JDict d) \<Longrightarrow> json_ok v \<Longrightarrow> json_ok (JDict d')"
  using set_field_parts set_parts_ok by metis

lemma or_unchanged_ok: "json_ok (JDict d) \<Longrightarrow> json_ok v \<Longrightarrow> json_ok (JDict (or_unchanged (set_field_value d t v) d))"
  using set_field_ok [of d t v] by (auto simp: or_unchanged_def simp del: json_ok.simps split: option.splits)

lemma dget_none_ok: "json_ok (JDict d) \<Longrightarrow> json_ok (dget_none d k)"
  using json_ok_dget [of d k] by (auto simp: dget_none_def simp del: json_ok.simps(2) split: option.splits)

lemma first_of_keys_ok: "json_ok (JDict d) \<Longrightarrow> json_ok (first_of_keys d ks)"
  by (induction ks) (auto simp: dget_none_ok simp del: json_ok.simps(2))

lemma get_field_ok:
  assumes "json_ok (JDict d)"
  shows "json_ok (get_field_value d path)"
proof -
  have "json_ok (foldl (\<lambda>cur part. case cur of JDict d \<Rightarrow> dget_none d part | _ \<Rightarrow> JNull) cur parts)" if "json_ok cur" for cur parts
    using that
  proof (induction parts arbitrary: cur)
    case (Cons p ps)
    then show ?case by (cases cur) (auto simp: dget_none_ok simp del: json_ok.simps(2))
  qed simp
  with assms show ?thesis by (auto simp: get_field_value_def get_field_parts_def Let_def dget_none_ok simp del: json_ok.simps(2))
qed

lemma field_or_key_ok: "json_ok (JDict d) \<Longrightarrow> json_ok (field_or_key d t)"
  using get_field_ok [of d t] dget_none_ok [of d t] by (auto simp: field_or_key_def simp del: json_ok.simps(2) split: json.splits)

lemma parse_literal_ok: "json_ok (JDict d) \<Longrightarrow> parse_literal env d t = Inr v \<Longrightarrow> json_ok v"
  using field_or_key_ok [of d] by (auto simp: parse_literal_def Let_def simp del: json_ok.simps(2) split: if_splits)

lemma eval_rounds_ok: "json_ok (JDict d) \<Longrightarrow> eval_rounds n env d expr = Some (Inr v) \<Longrightarrow> json_ok v"
  by (induction n arbitrary: expr) (auto dest: parse_literal_ok simp del: json_ok.simps(2) split: option.splits sum.splits)

lemma legacy_ternary_ok:
  assumes "json_ok (JDict d)" "evaluate_legacy_ternary env d expr = Some (Inr v)"
  shows "json_ok v"
  using assms(2)
proof (induction "length expr" arbitrary: expr rule: less_induct)
  case less
  have "(\<exists>c a b x. split_ternary (strip expr) = Some (c, a, b) \<and> (x = a \<or> x = b) \<and>
      (evaluate_legacy_ternary env d (strip x) = Some (Inr v) \<or> parse_literal env d (strip x) = Inr v))"
    using less.prems by (subst (asm) evaluate_legacy_ternary.simps) (auto simp: Let_def split: if_splits option.splits sum.splits)
  then obtain c a b x where x: "split_ternary (strip expr) = Some (c, a, b)" "x = a \<or> x = b"
    "evaluate_legacy_ternary env d (strip x) = Some (Inr v) \<or> parse_literal env d (strip x) = Inr v" by blast
  have "length (strip x) < length expr"
    using split_ternary_shorter [OF x(1)] x(2) length_strip [of x] length_strip [of expr] by auto
  then show ?case using x(3) less.hyps parse_literal_ok [OF assms(1)] by blast
qed

lemma calculated_value_ok:
  assumes "json_ok (JDict d)" "calculated_value env d expr = Inr v"
  shows "json_ok v"
proof -
  have "evaluate_calculated_expression (en_expr env) d expr = Some (Inr v)"
    using assms(2) by (auto simp: calculated_value_def split: option.splits)
  then show ?thesis using eval_rounds_ok [OF assms(1)] legacy_ternary_ok [OF assms(1)] field_or_key_ok [OF assms(1)]
    by (auto simp: evaluate_calculated_expression_def evaluate_function_expression_def Let_def split: if_splits)
qed

lemma match_conditions_ok: "\<forall>x \<in> set items. json_ok x \<Longrightarrow> match_conditions e t items = (Some v, ws) \<Longrightarrow> json_ok v"
proof (induction items arbitrary: ws)
  case (Cons x items)
  have d: "json_ok (dget_default d (u ''then'') (JStr []))" if "x = JDict d" for d
    using Cons.prems(1) that json_ok_dget [of d "u ''then''"] by (auto simp: dget_default_def simp del: json_ok.simps(2) split: option.splits)
  from Cons.prems(2) consider d where "x = JDict d" "v = dget_default d (u ''then'') (JStr [])" | ws' where "match_conditions e t items = (Some v, ws')"
    by (auto simp: Let_def split: json.splits if_splits prod.splits)
  then show ?case using Cons.IH Cons.prems(1) d by cases auto
qed simp

lemma rule_effects_ok:
  assumes "json_ok (JDict rl)" "json_ok (JDict event)"
  shows "apply_calculated env policy rl event = Inr (e, ws) \<Longrightarrow> json_ok (JDict e)"
    and "apply_lookup policy rl event = Inr (e, ws) \<Longrightarrow> json_ok (JDict e)"
    and "apply_conditional policy rl event = Inr (e, ws) \<Longrightarrow> json_ok (JDict e)"
    and "apply_normalize env policy rl event = Inr (e, ws) \<Longrightarrow> json_ok (JDict e)"
proof -
  note set_ok = set_field_ok [OF _ assms(2)] or_unchanged_ok [OF assms(2)]
  show "apply_calculated env policy rl event = Inr (e, ws) \<Longrightarrow> json_ok (JDict e)"
    using assms(2) calculated_value_ok [OF assms(2)] set_ok(1)
    by (auto simp: apply_calculated_def Let_def simp del: json_ok.simps split: sum.splits bool.splits option.splits)
  show "apply_lookup policy rl event = Inr (e, ws) \<Longrightarrow> json_ok (JDict e)"
    using assms(2) set_ok(2) [of "JStr _"]
    by (auto simp: apply_lookup_def Let_def simp del: json_ok.simps(2) split: if_splits sum.splits bool.splits option.splits)
  show "apply_normalize env policy rl event = Inr (e, ws) \<Longrightarrow> json_ok (JDict e)"
    using assms(2) set_ok(2) [of "JStr _"]
    by (auto simp: apply_normalize_def Let_def simp del: json_ok.simps(2) split: if_splits sum.splits bool.splits pyexc.splits)
  have "json_ok (case fst (match_conditions event t cs) of Some v \<Rightarrow> v | None \<Rightarrow> first_of_keys rl ks)"
    if "dget_none rl k = JList cs" for k cs ks t
  proof -
    have "\<forall>x \<in> set cs. json_ok x" using dget_none_ok [OF assms(1), of k] that by simp
    then show ?thesis using match_conditions_ok [of cs event t] first_of_keys_ok [OF assms(1)]
      by (cases "match_conditions event t cs") (auto split: option.splits)
  qed
  note v = set_ok(2) [OF this]
  show "apply_conditional policy rl event = Inr (e, ws) \<Longrightarrow> json_ok (JDict e)"
    using assms(2) v
    by (auto simp: apply_conditional_def Let_def case_prod_unfold simp del: json_ok.simps(2) first_of_keys.simps
        split: sum.splits bool.splits json.splits)
qed

lemma transform_step_ok:
  assumes "mapping_env_ok (en_map env)" "json_ok (JDict rl)" "json_ok (JDict event)" "apply_transform_step env policy ty rl event = Inr s"
  shows "json_ok (JDict (so_event s))"
  using assms(3,4) rule_value_ok [OF assms(1,3,2)] set_field_ok [OF _ assms(3)]
  by (auto simp: apply_transform_step_def failed_step_def Let_def simp del: json_ok.simps split: if_splits sum.splits bool.splits option.splits)

lemma rules_ok:
  "apply_advanced_rules env policy rules event = Inr s \<Longrightarrow> mapping_env_ok (en_map env) \<Longrightarrow> \<forall>rl \<in> set rules. json_ok (JDict rl) \<Longrightarrow>
     json_ok (JDict event) \<Longrightarrow> json_ok (JDict (so_event s))"
proof (induction rules arbitrary: event s)
  case (Cons rl rules)
  obtain s1 s2 where s: "apply_advanced_rule env policy rl event = Inr s1" "apply_advanced_rules env policy rules (so_event s1) = Inr s2"
    "so_event s = so_event s2"
    using Cons.prems(1) by (auto split: sum.splits)
  have rl: "json_ok (JDict rl)" using Cons.prems(3) by simp
  from s(1) have "json_ok (JDict (so_event s1))"
    by (cases rule: advanced_rule_cases)
      (use rule_effects_ok [OF rl Cons.prems(4)] transform_step_ok [OF Cons.prems(2) rl Cons.prems(4)] Cons.prems(4) in \<open>auto simp del: json_ok.simps\<close>)
  with Cons.IH [OF s(2) Cons.prems(2)] Cons.prems(3) s(3) show ?case by (simp del: json_ok.simps)
qed (simp del: json_ok.simps)

lemma static_fields_ok:
  "apply_static_fields policy fs base = Inr out \<Longrightarrow> json_ok (JDict base) \<Longrightarrow> \<forall>(k, v) \<in> set fs. json_ok v \<Longrightarrow> json_ok (JDict out)"
proof (induction fs arbitrary: base)
  case (Cons x fs)
  obtain key v where x: "x = (key, v)" by (cases x)
  have v: "json_ok v" using Cons.prems(3) x by simp
  note ok = json_ok_dset [OF Cons.prems(2) v] set_field_ok [OF _ Cons.prems(2) v]
  from Cons.prems(1) have "\<exists>base'. json_ok (JDict base') \<and> apply_static_fields policy fs base' = Inr out"
    using ok Cons.prems(2) unfolding x
    by (auto simp: Let_def simp del: json_ok.simps split: if_splits sum.splits bool.splits option.splits)
  then show ?case using Cons.IH Cons.prems(3) by auto
qed (simp del: json_ok.simps)

lemma str_dset_ok: "json_ok (JDict d) \<Longrightarrow> json_ok (JDict (dset k (JStr t) d))"
  by (rule json_ok_dset) simp_all

lemma normalize_rule_ok: "json_ok (JDict d) \<Longrightarrow> rl \<in> set (opt_list (normalize_rule_dict d t)) \<Longrightarrow> json_ok (JDict rl)"
  by (auto simp: normalize_rule_dict_def opt_list_def Let_def intro!: json_ok_dset simp del: json_ok.simps(2) split: if_splits)

lemma rules_of_entry_ok:
  assumes "json_ok v" "rl \<in> set (rules_of_entry k v)"
  shows "json_ok (JDict rl)"
proof -
  have "json_ok (JDict rl)" if "rl \<in> set (listed_rule k w)" "json_ok w" for w
    using that by (auto simp: listed_rule_def Let_def simp del: json_ok.simps(2) split: json.splits if_splits)
      (metis normalize_rule_ok str_dset_ok)+
  then show ?thesis using assms normalize_rule_ok
    by (auto simp: rules_of_entry_def simp del: json_ok.simps(2) split: json.splits if_splits)
qed

lemma iter_rules_ok:
  assumes "json_ok (JDict enrichment)"
  shows "\<forall>rl \<in> set (iter_advanced_rules enrichment). json_ok (JDict rl)"
proof -
  have d: "json_ok v" if "dget enrichment k = Some (JDict d)" "(j, v) \<in> set d" for k d j v
    using json_ok_dget [OF assms that(1)] that(2) by auto
  have l: "json_ok v" if "dget enrichment k = Some (JList xs)" "v \<in> set xs" for k xs v
    using json_ok_dget [OF assms that(1)] that(2) by simp
  have c: "json_ok (JDict rl)" if "rl \<in> set (computed_rule k v)" for rl k v
    using that by (auto simp: computed_rule_def split: json.splits option.splits)
  have a: "json_ok (JDict rl)" if "rl \<in> set (advanced_rule v)" "json_ok v" for rl v
    using that by (auto simp: advanced_rule_def Let_def simp del: json_ok.simps(2) split: json.splits if_splits)
      (metis normalize_rule_ok str_dset_ok)+
  show ?thesis
  proof
    fix rl
    assume "rl \<in> set (iter_advanced_rules enrichment)"
    then consider d j v where "dget enrichment (u ''__rules'') = Some (JDict d)" "(j, v) \<in> set d" "rl \<in> set (rules_of_entry j v)"
      | k v where "rl \<in> set (computed_rule k v)"
      | xs v where "dget enrichment (u ''advanced_fields'') = Some (JList xs)" "v \<in> set xs" "rl \<in> set (advanced_rule v)"
      by (auto simp: iter_advanced_rules_def split: option.splits json.splits) metis+
    then show "json_ok (JDict rl)"
      by cases (use rules_of_entry_ok d l c a in blast)+
  qed
qed

lemma execute_enrichment_ok:
  assumes "execute_enrichment env policy enrichment event = Inr r" "mapping_env_ok (en_map env)" "json_ok event" "json_ok (JDict enrichment)"
  shows "json_ok (er_event r)"
proof -
  have "json_ok v" if "(k, v) \<in> set enrichment" for k v using assms(4) that by auto
  then have "\<forall>(k, v) \<in> set (split_static_fields env enrichment). json_ok v"
    by (fastforce simp: split_static_fields_def resolve_static_template_def simp del: json_ok.simps(2) split: json.splits if_splits)
  then show ?thesis
    using assms static_fields_ok [of policy "split_static_fields env enrichment"] rules_ok [OF _ assms(2) iter_rules_ok [OF assms(4)]] strip_internal_ok
    by (auto simp: execute_enrichment_def sanitize_strips simp del: json_ok.simps strip_internal_nested.simps
        split: option.splits json.splits if_splits sum.splits)
qed

end
