(* ===== verification/Schema_Walk.thy ===== *)
theory Schema_Walk
  imports Field_Path
begin

text \<open>
  The path inventory of a batch, from \<^verbatim>\<open>app/schema_observation/path_walker.py\<close>: which field paths occur in the events and with
  which coarse type, up to a depth, a number of paths and a number of events.  The reference is the list of visits of
  an unbounded walk, in the order of the walk.
\<close>

section \<open>Types\<close>

datatype ftype = T_Null | T_Boolean | T_Integer | T_Number | T_String | T_Object | T_Array | T_Mixed

definition infer_value_type :: "json \<Rightarrow> ftype" where
  "infer_value_type v = (case v of JNull \<Rightarrow> T_Null | JBool _ \<Rightarrow> T_Boolean | JInt _ \<Rightarrow> T_Integer | JFloat _ \<Rightarrow> T_Number
     | JStr _ \<Rightarrow> T_String | JDict _ \<Rightarrow> T_Object | JList _ \<Rightarrow> T_Array)"

definition merge_inferred_types :: "ftype option \<Rightarrow> ftype \<Rightarrow> ftype" where
  "merge_inferred_types existing new = (case existing of
     None \<Rightarrow> new
   | Some old \<Rightarrow>
       if old = new then new
       else if old = T_Mixed \<or> new = T_Mixed then T_Mixed
       else if old \<in> {T_Integer, T_Number} \<and> new \<in> {T_Integer, T_Number} then T_Number
       else if {old, new} \<subseteq> {T_Null, old} \<or> {old, new} \<subseteq> {T_Null, new} then (if old = T_Null then new else old)
       else T_Mixed)"

section \<open>The walk\<close>

type_synonym inventory = "(ustr \<times> ftype) list"

definition note_type :: "ustr \<Rightarrow> ftype \<Rightarrow> inventory \<Rightarrow> inventory" where
  "note_type p t out = dset p (merge_inferred_types (dget out p) t) out"

definition ARRAY_SAMPLE_SIZE :: nat where
  "ARRAY_SAMPLE_SIZE = 3"

lemma size_take_le [termination_simp]: "size_list f (take n xs) \<le> size_list f xs"
  by (induction xs arbitrary: n) (auto simp: take_Cons split: nat.splits)

function walk_event_fields :: "nat \<Rightarrow> nat \<Rightarrow> json \<Rightarrow> ustr \<Rightarrow> nat \<Rightarrow> inventory \<Rightarrow> inventory"
  and walk_members :: "nat \<Rightarrow> nat \<Rightarrow> dict \<Rightarrow> ustr \<Rightarrow> nat \<Rightarrow> inventory \<Rightarrow> inventory"
  and walk_items :: "nat \<Rightarrow> nat \<Rightarrow> json list \<Rightarrow> ustr \<Rightarrow> nat \<Rightarrow> inventory \<Rightarrow> inventory" where
  "walk_event_fields max_depth max_paths v path depth out =
     (if max_paths \<le> length out \<or> max_depth < depth then out
      else let out1 = note_type path (infer_value_type v) out
           in if max_paths \<le> length out1 then out1
              else case v of
                JDict d \<Rightarrow> walk_members max_depth max_paths d path (Suc depth) out1
              | JList xs \<Rightarrow> (let array_path = path @ u ''[]''
                  in walk_items max_depth max_paths (take ARRAY_SAMPLE_SIZE xs) array_path (Suc depth) (note_type array_path T_Array out1))
              | _ \<Rightarrow> out1)"
| "walk_members max_depth max_paths [] path depth out = out"
| "walk_members max_depth max_paths ((key, child) # d) path depth out =
     (let out1 = walk_event_fields max_depth max_paths child (append_field_path path key) depth out
      in if max_paths \<le> length out1 then out1 else walk_members max_depth max_paths d path depth out1)"
| "walk_items max_depth max_paths [] array_path depth out = out"
| "walk_items max_depth max_paths (item # items) array_path depth out =
     (let out1 = (case item of
            JDict d \<Rightarrow> walk_members max_depth max_paths d array_path depth out
          | _ \<Rightarrow> walk_event_fields max_depth max_paths item (array_path @ u ''[]'') depth out)
      in if max_paths \<le> length out1 then out1 else walk_items max_depth max_paths items array_path depth out1)"
  by pat_completeness auto
termination
  by (relation "measure (\<lambda>x. case x of Inl (_, _, v, _) \<Rightarrow> 2 * size v
        | Inr (Inl (_, _, d, _)) \<Rightarrow> 2 * size_list (size_prod (\<lambda>_. 0) size) d + 1
        | Inr (Inr (_, _, xs, _)) \<Rightarrow> 2 * size_list size xs + 1)")
    (use size_take_le in \<open>auto simp: less_Suc_eq_le\<close>)

declare walk_event_fields.simps [simp del]

definition collect_paths_from_event :: "nat \<Rightarrow> nat \<Rightarrow> json \<Rightarrow> inventory" where
  "collect_paths_from_event max_depth max_paths event = (case event of
     JDict d \<Rightarrow> walk_members max_depth max_paths d (u ''$'') 0 []
   | _ \<Rightarrow> walk_event_fields max_depth max_paths event (u ''$'') 0 [])"

fun merge_inventory :: "nat \<Rightarrow> inventory \<Rightarrow> inventory \<Rightarrow> inventory" where
  "merge_inventory max_paths [] merged = merged"
| "merge_inventory max_paths ((p, t) # ps) merged =
     (let merged1 = note_type p t merged
      in if max_paths \<le> length merged1 then merged1 else merge_inventory max_paths ps merged1)"

fun merge_events :: "nat \<Rightarrow> nat \<Rightarrow> json list \<Rightarrow> inventory \<Rightarrow> inventory" where
  "merge_events max_depth max_paths [] merged = merged"
| "merge_events max_depth max_paths (e # es) merged =
     (let merged1 = merge_inventory max_paths (collect_paths_from_event max_depth max_paths e) merged
      in if max_paths \<le> length merged1 then merged1 else merge_events max_depth max_paths es merged1)"

definition collect_paths_from_events :: "nat \<Rightarrow> nat \<Rightarrow> nat \<Rightarrow> json list \<Rightarrow> inventory" where
  "collect_paths_from_events max_depth max_paths max_events events =
     merge_events max_depth max_paths (take max_events events) []"

section \<open>The reference\<close>

text \<open>The visits of a walk without bound on the number of paths, and the type of a path from the set of the types it was visited with.\<close>

function visits :: "nat \<Rightarrow> json \<Rightarrow> ustr \<Rightarrow> nat \<Rightarrow> (ustr \<times> ftype) list"
  and member_visits :: "nat \<Rightarrow> dict \<Rightarrow> ustr \<Rightarrow> nat \<Rightarrow> (ustr \<times> ftype) list"
  and item_visits :: "nat \<Rightarrow> json list \<Rightarrow> ustr \<Rightarrow> nat \<Rightarrow> (ustr \<times> ftype) list" where
  "visits md v path depth =
     (if md < depth then []
      else (path, infer_value_type v) # (case v of
          JDict d \<Rightarrow> member_visits md d path (Suc depth)
        | JList xs \<Rightarrow> (path @ u ''[]'', T_Array) # item_visits md (take ARRAY_SAMPLE_SIZE xs) (path @ u ''[]'') (Suc depth)
        | _ \<Rightarrow> []))"
| "member_visits md [] path depth = []"
| "member_visits md ((k, c) # d) path depth = visits md c (append_field_path path k) depth @ member_visits md d path depth"
| "item_visits md [] path depth = []"
| "item_visits md (x # xs) path depth =
     (case x of JDict d \<Rightarrow> member_visits md d path depth | _ \<Rightarrow> visits md x (path @ u ''[]'') depth) @ item_visits md xs path depth"
  by pat_completeness auto
termination
  by (relation "measure (\<lambda>x. case x of Inl (_, v, _) \<Rightarrow> 2 * size v
        | Inr (Inl (_, d, _)) \<Rightarrow> 2 * size_list (size_prod (\<lambda>_. 0) size) d + 1
        | Inr (Inr (_, xs, _)) \<Rightarrow> 2 * size_list size xs + 1)")
    (use size_take_le in \<open>auto simp: less_Suc_eq_le\<close>)

declare visits.simps [simp del]

definition event_visits :: "nat \<Rightarrow> json \<Rightarrow> (ustr \<times> ftype) list" where
  "event_visits md event = (case event of JDict d \<Rightarrow> member_visits md d (u ''$'') 0 | _ \<Rightarrow> visits md event (u ''$'') 0)"

definition summary_type :: "ftype set \<Rightarrow> ftype option" where
  "summary_type T =
     (if T = {} then None
      else if T = {T_Null} then Some T_Null
      else if is_singleton (T - {T_Null}) then Some (the_elem (T - {T_Null}))
      else if T \<subseteq> {T_Null, T_Integer, T_Number} then Some T_Number
      else Some T_Mixed)"

lemma summary_two:
  assumes "x \<in> T" "y \<in> T" "x \<noteq> y" "x \<noteq> T_Null" "y \<noteq> T_Null"
  shows "summary_type T = Some (if T \<subseteq> {T_Null, T_Integer, T_Number} then T_Number else T_Mixed)"
proof -
  have "\<not> is_singleton (T - {T_Null})" using assms by (metis DiffI is_singleton_def singletonD)
  then show ?thesis using assms by (auto simp: summary_type_def)
qed

lemma summary_one: "x \<noteq> T_Null \<Longrightarrow> T - {T_Null} = {x} \<Longrightarrow> summary_type T = Some x"
  by (auto simp: summary_type_def is_singleton_def)

lemma summary_insert: "summary_type (insert t T) = Some (merge_inferred_types (summary_type T) t)"
proof -
  consider "T = {}" | "T = {T_Null}" | x where "x \<noteq> T_Null" "T - {T_Null} = {x}"
    | x y where "x \<in> T" "y \<in> T" "x \<noteq> y" "x \<noteq> T_Null" "y \<noteq> T_Null"
  proof (cases "T - {T_Null} = {}")
    case True
    then show thesis using that(1,2) by blast
  next
    case False
    then obtain x where x: "x \<in> T" "x \<noteq> T_Null" by blast
    show thesis
    proof (cases "T - {T_Null} = {x}")
      case True
      then show thesis using that(3) x by blast
    next
      case False
      then obtain y where "y \<in> T" "y \<noteq> T_Null" "y \<noteq> x" using x by blast
      then show thesis using that(4) [of x y] x by blast
    qed
  qed
  then show ?thesis
  proof cases
    case 1
    then show ?thesis using summary_one [of t "{t}"] by (cases "t = T_Null") (auto simp: merge_inferred_types_def, simp_all add: summary_type_def)
  next
    case 2
    then show ?thesis using summary_one [of t "{t, T_Null}"] by (cases "t = T_Null") (auto simp: merge_inferred_types_def summary_type_def insert_commute)
  next
    case (3 x)
    show ?thesis
    proof (cases "t = x \<or> t = T_Null")
      case True
      then have "insert t T - {T_Null} = {x}" using 3(2) by auto
      from summary_one [OF 3(1) this] show ?thesis using True 3(1) unfolding summary_one [OF 3] by (auto simp: merge_inferred_types_def)
    next
      case False
      have x: "x \<in> T" "T \<subseteq> {T_Null, x}" using 3(2) by auto
      have i: "insert t T \<subseteq> {T_Null, T_Integer, T_Number} \<longleftrightarrow> t \<in> {T_Integer, T_Number} \<and> x \<in> {T_Integer, T_Number}"
        using x 3(1) False by auto
      have "summary_type (insert t T) = Some (if insert t T \<subseteq> {T_Null, T_Integer, T_Number} then T_Number else T_Mixed)"
        using x(1) 3(1) False by (intro summary_two [of x _ t]) auto
      then have "summary_type (insert t T) = Some (if t \<in> {T_Integer, T_Number} \<and> x \<in> {T_Integer, T_Number} then T_Number else T_Mixed)"
        unfolding i .
      then show ?thesis using 3(1) False unfolding summary_one [OF 3] by (auto simp: merge_inferred_types_def)
    qed
  next
    case (4 x y)
    have "summary_type (insert t T) = Some (if insert t T \<subseteq> {T_Null, T_Integer, T_Number} then T_Number else T_Mixed)"
      using 4 by (intro summary_two [of x _ y]) simp_all
    then show ?thesis unfolding summary_two [OF 4] by (cases t) (simp_all add: merge_inferred_types_def)
  qed
qed

section \<open>The walk records the visits\<close>

definition noted :: "(ustr \<times> ftype) list \<Rightarrow> inventory \<Rightarrow> inventory" where
  "noted ps out = fold (\<lambda>(p, t). note_type p t) ps out"

lemma noted_simps [simp]: "noted [] out = out" "noted ((p, t) # ps) out = noted ps (note_type p t out)"
    "noted (ps @ qs) out = noted qs (noted ps out)"
  by (simp_all add: noted_def)

lemma note_keys: "fst ` set (note_type p t out) = insert p (fst ` set out)"
  by (simp add: note_type_def dom_update)

lemma note_distinct: "distinct (map fst out) \<Longrightarrow> distinct (map fst (note_type p t out))"
  by (simp add: note_type_def distinct_update)

lemma note_length: "length out \<le> length (note_type p t out)" "length (note_type p t out) \<le> Suc (length out)"
  unfolding note_type_def by (induction out) auto

lemma noted_length: "length out \<le> length (noted ps out)"
proof (induction ps arbitrary: out)
  case (Cons x ps)
  then show ?case using note_length(1) [of out "fst x" "snd x"] by (cases x) (fastforce intro: order_trans)
qed simp

text \<open>
  \<open>records m ps out out'\<close>: \<open>out'\<close> notes a prefix of the visits \<open>ps\<close>, and all of them unless the bound \<open>m\<close> was reached.
\<close>

definition records :: "nat \<Rightarrow> (ustr \<times> ftype) list \<Rightarrow> inventory \<Rightarrow> inventory \<Rightarrow> bool" where
  "records m ps out out' \<longleftrightarrow> (\<exists>qs rs. ps = qs @ rs \<and> out' = noted qs out \<and> (rs = [] \<or> m \<le> length out'))"

lemma records_refl: "records m [] out out" "m \<le> length out \<Longrightarrow> records m ps out out"
  by (auto simp: records_def intro: exI [of _ "[]"])

lemma records_full: "records m ps out out' \<Longrightarrow> m \<le> length out' \<Longrightarrow> records m (ps @ qs) out out'"
  unfolding records_def by (metis append.assoc)

lemma records_less: "records m ps out out' \<Longrightarrow> length out' < m \<Longrightarrow> out' = noted ps out"
  by (auto simp: records_def)

lemma records_after: "records m qs (noted ps out) out' \<Longrightarrow> records m (ps @ qs) out out'"
  unfolding records_def by (metis append.assoc noted_simps(3))

lemma records_step:
  assumes "records m ps out out1" "\<not> m \<le> length out1 \<Longrightarrow> records m qs out1 out2"
  shows "records m (ps @ qs) out (if m \<le> length out1 then out1 else out2)"
  using assms records_full [OF assms(1)] records_less [OF assms(1)] records_after [of m qs ps out out2] by auto

lemma walk_stops:
  assumes "mp \<le> length out"
  shows "walk_event_fields md mp v path depth out = out" "walk_members md mp d path depth out = out" "walk_items md mp xs path depth out = out"
proof -
  show walk: "walk_event_fields md mp v path depth out = out" for v path by (simp add: assms walk_event_fields.simps)
  show members: "walk_members md mp d path depth out = out" for d by (cases d) (auto simp: assms walk)
  show "walk_items md mp xs path depth out = out" by (cases xs) (auto simp: assms walk members split: json.splits)
qed

lemma walk_records:
  "records mp (visits md v path depth) out (walk_event_fields md mp v path depth out)"
  "records mp (member_visits md d path depth) out (walk_members md mp d path depth out)"
  "records mp (item_visits md xs path depth) out (walk_items md mp xs path depth out)"
proof (induction md mp v path depth out and md mp d path depth out and md mp xs path depth out
    rule: walk_event_fields_walk_members_walk_items.induct)
  case (1 md mp v path depth out)
  show ?case
  proof (cases "mp \<le> length out \<or> md < depth")
    case True
    then show ?thesis by (auto simp: walk_event_fields.simps visits.simps intro: records_refl)
  next
    case False
    let ?o = "note_type path (infer_value_type v) out"
    show ?thesis
    proof (cases "mp \<le> length ?o")
      case True
      then have "records mp ([(path, infer_value_type v)] @ qs) out ?o" for qs
        using records_after [OF records_refl(2), of mp "[(path, infer_value_type v)]" out qs] by simp
      then show ?thesis using False True by (simp add: walk_event_fields.simps visits.simps Let_def)
    next
      case c: False
      have "records mp (case v of JDict d \<Rightarrow> member_visits md d path (Suc depth)
          | JList xs \<Rightarrow> (path @ u ''[]'', T_Array) # item_visits md (take ARRAY_SAMPLE_SIZE xs) (path @ u ''[]'') (Suc depth) | _ \<Rightarrow> []) ?o
        (walk_event_fields md mp v path depth out)"
        using 1(1) [OF False refl c _ refl] 1(2) [OF False refl c] False c
          records_after [of mp _ "[(path @ u ''[]'', T_Array)]" ?o]
        by (auto simp: walk_event_fields.simps [of md mp v] Let_def records_refl split: json.split)
      from records_after [of mp _ "[(path, infer_value_type v)]" out, simplified, OF this]
      show ?thesis using False by (simp add: visits.simps)
    qed
  qed
next
  case (3 md mp k c d path depth out)
  show ?case unfolding member_visits.simps walk_members.simps Let_def by (rule records_step) (use 3 in auto)
next
  case (5 md mp x xs path depth out)
  show ?case unfolding item_visits.simps walk_items.simps Let_def by (rule records_step) (use 5 in \<open>auto split: json.splits\<close>)
qed (simp_all add: records_refl)

lemma event_records: "records mp (event_visits md e) [] (collect_paths_from_event md mp e)"
  by (auto simp: event_visits_def collect_paths_from_event_def walk_records split: json.split)

section \<open>The inventory of a batch\<close>

text \<open>Noting the entries of an inventory once more notes its visits: only the set of the types of a path counts.\<close>

definition types_at :: "(ustr \<times> ftype) list \<Rightarrow> ustr \<Rightarrow> ftype set" where
  "types_at ps p = {t. (p, t) \<in> set ps}"

lemma noted_get: "dget out p = summary_type T \<Longrightarrow> dget (noted ps out) p = summary_type (T \<union> types_at ps p)"
proof (induction ps arbitrary: out T)
  case (Cons x ps)
  obtain q t where x: "x = (q, t)" by fastforce
  have "types_at (x # ps) p = (if q = p then insert t (types_at ps p) else types_at ps p)" by (auto simp: x types_at_def)
  moreover have "dget (note_type q t out) p = summary_type (if q = p then insert t T else T)"
    using Cons.prems by (cases "q = p") (simp_all add: note_type_def dict_simps summary_insert)
  ultimately show ?case using Cons.IH [of "note_type q t out" "if q = p then insert t T else T"] by (simp add: x)
qed (simp add: types_at_def)

lemma merge_assoc: "merge_inferred_types (Some (merge_inferred_types a s)) t = merge_inferred_types a (merge_inferred_types (Some s) t)"
proof (cases a)
  case (Some b)
  then show ?thesis unfolding merge_inferred_types_def by (simp split: if_splits)
qed (simp add: merge_inferred_types_def)

lemma summary_union:
  assumes "finite U"
  shows "summary_type (T \<union> U) = (case summary_type U of None \<Rightarrow> summary_type T | Some s \<Rightarrow> Some (merge_inferred_types (summary_type T) s))"
  using assms
proof (induction U)
  case (insert t U)
  show ?case
  proof (cases "summary_type U")
    case None
    then have "summary_type (insert t U) = Some t" by (simp add: summary_insert merge_inferred_types_def)
    then show ?thesis using insert.IH None by (simp add: summary_insert)
  next
    case (Some s)
    then show ?thesis using insert.IH by (simp add: summary_insert merge_assoc)
  qed
qed (simp add: summary_type_def)

lemma types_at_simps [simp]:
  fixes ps qs :: "(ustr \<times> ftype) list"
  shows "types_at [] p = {}" "types_at (ps @ qs) p = types_at ps p \<union> types_at qs p" "finite (types_at ps p)"
proof -
  have "types_at ps p \<subseteq> snd ` set ps" by (force simp: types_at_def)
  then show "finite (types_at ps p)" by (rule finite_subset) simp
qed (auto simp: types_at_def)

lemma types_at_inventory: "distinct (map fst iv) \<Longrightarrow> types_at iv p = set_option (dget iv p)"
  by (auto simp: types_at_def)

lemma noted_distinct: "distinct (map fst out) \<Longrightarrow> distinct (map fst (noted ps out))"
  by (induction ps arbitrary: out) (auto simp: note_distinct)

lemma noted_keys: "fst ` set (noted ps out) = fst ` set ps \<union> fst ` set out"
proof (induction ps arbitrary: out)
  case (Cons x ps)
  then show ?case by (cases x) (simp add: note_keys)
qed simp

text \<open>An inventory stands for the visits \<open>ps\<close>: it has their paths with the types they sum up to.\<close>

definition inventory_of :: "(ustr \<times> ftype) list \<Rightarrow> inventory \<Rightarrow> bool" where
  "inventory_of ps iv \<longleftrightarrow> distinct (map fst iv) \<and> (\<forall>p. dget iv p = summary_type (types_at ps p))"

lemma inventory_of_noted: "inventory_of ps (noted ps [])"
  using noted_get [of "[]" _ "{}"] by (simp add: inventory_of_def noted_distinct summary_type_def)

lemma inventory_of_merge:
  assumes "inventory_of ps iv" "inventory_of qs merged"
  shows "inventory_of (qs @ ps) (noted iv merged)"
proof -
  have "dget (noted iv merged) p = summary_type (types_at (qs @ ps) p)" for p
  proof -
    have n: "dget (noted iv merged) p = summary_type (types_at qs p \<union> set_option (dget iv p))"
      using assms noted_get [of merged p "types_at qs p" iv] by (simp add: inventory_of_def types_at_inventory)
    have "summary_type (types_at qs p \<union> types_at ps p) = summary_type (types_at qs p \<union> set_option (dget iv p))"
      using assms(1) summary_union [of "types_at ps p" "types_at qs p"]
      by (cases "dget iv p") (simp_all add: inventory_of_def summary_insert)
    then show ?thesis using n by simp
  qed
  then show ?thesis using assms by (simp add: inventory_of_def noted_distinct)
qed

lemma merge_inventory_records: "records mp iv merged (merge_inventory mp iv merged)"
proof (induction mp iv merged rule: merge_inventory.induct)
  case (2 mp p t ps merged)
  have "records mp ([(p, t)] @ ps) merged (if mp \<le> length (note_type p t merged) then note_type p t merged
      else merge_inventory mp ps (note_type p t merged))"
    by (rule records_step) (use 2 records_after [OF records_refl(1), of mp "[(p, t)]" merged] in auto)
  then show ?case by (simp add: Let_def)
qed (simp add: records_refl)

lemma records_distinct: "records m ps [] iv \<Longrightarrow> distinct (map fst iv)"
  by (auto simp: records_def noted_distinct)

lemma records_keys: "records m ps out out' \<Longrightarrow> fst ` set out' \<subseteq> fst ` set ps \<union> fst ` set out"
proof -
  assume "records m ps out out'"
  then obtain qs rs where "ps = qs @ rs" "out' = noted qs out" unfolding records_def by blast
  then show ?thesis using noted_keys [of qs out] by (simp add: image_Un)  blast
qed

lemma merge_events_inventory:
  "inventory_of qs merged \<Longrightarrow> length (merge_events md mp es merged) < mp \<Longrightarrow> length merged < mp \<Longrightarrow>
   inventory_of (qs @ concat (map (event_visits md) es)) (merge_events md mp es merged)"
proof (induction es arbitrary: qs merged)
  case (Cons e es)
  let ?iv = "collect_paths_from_event md mp e" let ?m = "merge_inventory mp ?iv merged"
  have m: "length ?m < mp" using Cons.prems(2) by (auto simp: Let_def split: if_splits)
  then have n: "?m = noted ?iv merged" using merge_inventory_records records_less by blast
  have "length ?iv = card (fst ` set ?iv)" using distinct_card [OF records_distinct [OF event_records], of md mp e] by simp
  also have "\<dots> \<le> card (fst ` set ?m)" unfolding n noted_keys by (rule card_mono) auto
  also have "\<dots> \<le> length ?m" by (metis card_length length_map list.set_map)
  finally have "length ?iv \<le> length ?m" .
  then have "?iv = noted (event_visits md e) []" using records_less [OF event_records, of md mp e] m by simp
  then have "inventory_of (event_visits md e) ?iv" by (simp add: inventory_of_noted)
  from inventory_of_merge [OF this Cons.prems(1)] show ?case
    using Cons.IH [of "qs @ event_visits md e" ?m] Cons.prems(2) m n by (simp add: Let_def)
qed simp

section \<open>Bounds\<close>

lemma walk_bound:
  "length out \<le> mp \<Longrightarrow> length (walk_event_fields md mp v path depth out) \<le> mp"
  "length out \<le> mp \<Longrightarrow> length (walk_members md mp d path depth out) \<le> mp"
  "length out \<le> mp \<Longrightarrow> length (walk_items md mp xs path depth out) \<le> mp"
proof (induction md mp v path depth out and md mp d path depth out and md mp xs path depth out
    rule: walk_event_fields_walk_members_walk_items.induct)
  case (1 md mp v path depth out)
  show ?case
  proof (cases "mp \<le> length out \<or> md < depth")
    case False
    let ?o = "note_type path (infer_value_type v) out"
    have o: "length ?o \<le> mp" using note_length(2) [of path "infer_value_type v" out] False by simp
    show ?thesis
    proof (cases "mp \<le> length ?o")
      case c: False
      have "length (note_type (path @ u ''[]'') T_Array ?o) \<le> mp" using note_length(2) [of "path @ u ''[]''" T_Array ?o] c by simp
      then show ?thesis using 1(1) [OF False refl c _ refl] 1(2) [OF False refl c] False c o
        by (auto simp: walk_event_fields.simps [of md mp v] Let_def split: json.split)
    qed (use False o in \<open>simp add: walk_event_fields.simps [of md _ v] Let_def\<close>)
  qed (use 1 in \<open>simp add: walk_event_fields.simps [of md mp v]\<close>)
qed (auto simp: Let_def split: json.splits)

lemma merge_inventory_bound: "length merged < mp \<Longrightarrow> length (merge_inventory mp iv merged) \<le> mp"
proof (induction mp iv merged rule: merge_inventory.induct)
  case (2 mp p t ps merged)
  then show ?case using note_length(2) [of p t merged] by (auto simp: Let_def)
qed simp

lemma merge_events_bound: "length merged < mp \<Longrightarrow> length (merge_events md mp es merged) \<le> mp"
  using merge_inventory_bound by (induction es arbitrary: merged) (auto simp: Let_def)

lemma merge_events_keys:
  "fst ` set (merge_events md mp es merged) \<subseteq> fst ` set (concat (map (event_visits md) es)) \<union> fst ` set merged"
proof (induction es arbitrary: merged)
  case (Cons e es)
  have un: "M \<subseteq> B \<union> C \<Longrightarrow> A \<union> M \<subseteq> (B \<union> A) \<union> C" and un': "M \<subseteq> B \<union> C \<Longrightarrow> M \<subseteq> (B \<union> A) \<union> C" for A B C M :: "ustr set"
    by blast+
  let ?m = "merge_inventory mp (collect_paths_from_event md mp e) merged"
  have "fst ` set ?m \<subseteq> fst ` set (collect_paths_from_event md mp e) \<union> fst ` set merged"
    by (rule records_keys [OF merge_inventory_records])
  also have "\<dots> \<subseteq> fst ` set (event_visits md e) \<union> fst ` set merged" using records_keys [OF event_records, of md mp e] by (simp add: sup.coboundedI1)
  finally have m: "fst ` set ?m \<subseteq> fst ` set (event_visits md e) \<union> fst ` set merged" .
  have "fst ` set (merge_events md mp es ?m) \<subseteq> fst ` set (concat (map (event_visits md) es)) \<union> fst ` set ?m" by (rule Cons)
  also have "\<dots> \<subseteq> fst ` set (concat (map (event_visits md) (e # es))) \<union> fst ` set merged"
    unfolding list.map concat.simps set_append image_Un by (rule un [OF m])
  finally have "fst ` set (merge_events md mp es ?m) \<subseteq> fst ` set (concat (map (event_visits md) (e # es))) \<union> fst ` set merged" .
  moreover have "fst ` set ?m \<subseteq> fst ` set (concat (map (event_visits md) (e # es))) \<union> fst ` set merged"
    unfolding list.map concat.simps set_append image_Un using m by (rule un')
  ultimately show ?case by (simp add: Let_def)
qed simp

lemma inventory_complete:
  assumes "0 < mp" "length (collect_paths_from_events md mp me events) < mp"
  shows "inventory_of (concat (map (event_visits md) (take me events))) (collect_paths_from_events md mp me events)"
proof -
  have "inventory_of [] []" by (simp add: inventory_of_def summary_type_def)
  from merge_events_inventory [OF this, of md mp "take me events"] show ?thesis using assms by (simp add: collect_paths_from_events_def)
qed

lemma inventory_visited:
  assumes "0 < mp" "length (collect_paths_from_events md mp me events) < mp" "e \<in> set (take me events)" "(p, t) \<in> set (event_visits md e)"
  shows "p \<in> fst ` set (collect_paths_from_events md mp me events)"
proof -
  have "types_at (concat (map (event_visits md) (take me events))) p \<noteq> {}" using assms(3,4) by (auto simp: types_at_def)
  then have "dget (collect_paths_from_events md mp me events) p \<noteq> None"
    using inventory_complete [OF assms(1,2)] by (simp add: inventory_of_def summary_type_def)
  then show ?thesis by (simp add: map_of_eq_None_iff)
qed

text \<open>
  C39. The inventory of a batch.  It never has more than \<open>max_paths\<close> entries and only paths that occur; below the bound it has exactly the
  paths that the unbounded walk of the first \<open>max_events\<close> events visits, each with the type that sums up the set of
  types it was visited with, whatever the order of the events and of their members.
\<close>

theorem inventory_exact:
  assumes "0 < max_paths"
  shows "length (collect_paths_from_events max_depth max_paths max_events events) \<le> max_paths \<and>
    fst ` set (collect_paths_from_events max_depth max_paths max_events events) \<subseteq>
      fst ` set (concat (map (event_visits max_depth) (take max_events events))) \<and>
    (length (collect_paths_from_events max_depth max_paths max_events events) < max_paths \<longrightarrow>
      (\<forall>p. dget (collect_paths_from_events max_depth max_paths max_events events) p =
        summary_type {t. (p, t) \<in> set (concat (map (event_visits max_depth) (take max_events events)))}))"
proof -
  let ?vs = "concat (map (event_visits max_depth) (take max_events events))"
  let ?iv = "collect_paths_from_events max_depth max_paths max_events events"
  have "length ?iv < max_paths \<Longrightarrow> inventory_of ?vs ?iv" by (rule inventory_complete [OF assms])
  moreover have "length ?iv \<le> max_paths" using assms merge_events_bound [of "[]"] by (simp add: collect_paths_from_events_def)
  moreover have "fst ` set ?iv \<subseteq> fst ` set ?vs"
    using merge_events_keys [of max_depth max_paths "take max_events events" "[]"] by (simp add: collect_paths_from_events_def)
  ultimately show ?thesis unfolding inventory_of_def types_at_def by blast
qed

definition demo_walk_batch :: "json list" where
  "demo_walk_batch = [JDict [(u ''a'', JInt 1), (u ''b'', JList [JDict [(u ''c'', JStr (u ''x''))]])], JDict [(u ''a'', JFloat PosInf)]]"

lemma demo_inventory:
  "collect_paths_from_events 5 10 2 demo_walk_batch =
     [(u ''$.a'', T_Number), (u ''$.b'', T_Array), (u ''$.b[]'', T_Array), (u ''$.b[].c'', T_String)]"
  by code_simp

theorem inventory_exact_witness:
  "length (collect_paths_from_events 5 10 2 demo_walk_batch) \<le> 10 \<and>
   summary_type {t. (u ''$.a'', t) \<in> set (concat (map (event_visits 5) (take 2 demo_walk_batch)))} = Some T_Number"
proof -
  let ?iv = "collect_paths_from_events 5 10 2 demo_walk_batch"
  have d: "length ?iv < 10" "dget ?iv (u ''$.a'') = Some T_Number" by (simp_all add: demo_inventory)
  have "(0::nat) < 10" by simp
  note exact = inventory_exact [OF this, of 5 2 demo_walk_batch]
  have "dget ?iv (u ''$.a'') = summary_type {t. (u ''$.a'', t) \<in> set (concat (map (event_visits 5) (take 2 demo_walk_batch)))}"
    using exact d(1) by blast
  then show ?thesis using exact d(2) by metis
qed

end
