(* ===== verification/Sensitive_Detection.thy ===== *)
theory Sensitive_Detection
  imports Route_Policy Expressions Schema_Walk
begin

text \<open>
  Sensitive field detection, from \<^verbatim>\<open>app/sensitive_detection\<close>: the rules on field names with their exceptions (\<^verbatim>\<open>path_rules.py\<close>), the patterns on
  values (\<^verbatim>\<open>pattern_rules.py\<close>), the findings of a batch over its path inventory and first text samples, and the
  rows that count in how many runs a finding was seen (\<^verbatim>\<open>detection.py\<close>, \<^verbatim>\<open>service.py\<close>).  The settings are a record, the open drift
  findings an argument.  A failing session, which leaves the rows as they were, is not modelled, nor are log lines.
\<close>

section \<open>Field-name rules\<close>

datatype sens_class = Secret_Class | Pii_Class | Metadata_Class

definition class_text :: "sens_class \<Rightarrow> ustr" where
  "class_text c = (case c of Secret_Class \<Rightarrow> u ''secret'' | Pii_Class \<Rightarrow> u ''pii'' | Metadata_Class \<Rightarrow> u ''security_metadata'')"

datatype tier = Tier_A | Tier_B

definition SENSITIVE_FIELD_NAMES :: "ustr list" where
  "SENSITIVE_FIELD_NAMES = map u [''secret_key'', ''access_key'', ''password'', ''basic_password'', ''token'', ''bearer_token'',
     ''api_key_value'', ''client_secret'', ''oauth_client_secret'', ''oauth2_client_secret'', ''login_password'', ''refresh_token'',
     ''access_token'', ''id_token'', ''api_key'', ''secret'', ''private_key'', ''tls_key_pem'', ''certificate_pem'']"

definition SECRET_TIER_B_SUBSTRINGS :: "ustr list" where
  "SECRET_TIER_B_SUBSTRINGS = map u [''passwd'', ''credential'', ''privatekey'', ''apikey'', ''authorization'', ''set_cookie'', ''x-api-key'']"

definition PII_EXACT_LEAVES :: "ustr list" where
  "PII_EXACT_LEAVES = map u [''email'', ''e_mail'', ''mail_address'', ''phone'', ''mobile'', ''msisdn'', ''ssn'', ''social_security'',
     ''national_id'', ''date_of_birth'', ''dob'', ''birth_date'', ''full_name'', ''first_name'', ''last_name'', ''given_name'',
     ''family_name'', ''street_address'', ''home_address'', ''postal_code'', ''zip_code'']"

definition PII_COMPOUND_LEAVES :: "ustr list" where
  "PII_COMPOUND_LEAVES = map u [''user_email'', ''customer_email'', ''billing_email'']"

definition SECURITY_METADATA_EXACT_LEAVES :: "ustr list" where
  "SECURITY_METADATA_EXACT_LEAVES = map u [''auth'']"

definition SECURITY_METADATA_TERMS :: "ustr list" where
  "SECURITY_METADATA_TERMS = map u [''auth_method'', ''authentication'', ''permission'', ''permissions'', ''role'', ''roles'', ''mfa'',
     ''mfa_enabled'', ''tls_version'', ''cipher'', ''ciphersuite'', ''security_level'', ''acl'', ''scopes'', ''oauth_scope'', ''grant_type'']"

definition SECURITY_METADATA_SESSION_ALLOWED :: "ustr list" where
  "SECURITY_METADATA_SESSION_ALLOWED = map u [''session_auth'', ''session_security'']"

definition FP_STANDALONE_ID_LEAVES :: "ustr list" where
  "FP_STANDALONE_ID_LEAVES = map u [''id'', ''ids'', ''uuid'', ''guid'', ''uid'']"

definition FP_ID_SUFFIXES :: "ustr list" where
  "FP_ID_SUFFIXES = map u [''_id'', ''_ids'', ''_uuid'', ''_guid'']"

definition FP_METRIC_SUBSTRINGS :: "ustr list" where
  "FP_METRIC_SUBSTRINGS = map u [''count'', ''total'', ''num'', ''size'', ''length'', ''version'', ''type'', ''status'', ''enabled'', ''flag'']"

definition FP_TOKEN_ALLOWED_LEAVES :: "ustr list" where
  "FP_TOKEN_ALLOWED_LEAVES = map u [''access_token'', ''refresh_token'', ''id_token'', ''bearer_token'', ''api_key'', ''auth_token'',
     ''oauth_token'', ''token'']"

definition FP_COOKIE_SECRET_LEAVES :: "ustr list" where
  "FP_COOKIE_SECRET_LEAVES = map u [''cookie'', ''set_cookie'', ''cookies'']"

text \<open>\<open>s.replace("[]", "")\<close>, \<open>s.endswith(t)\<close>, and the replacement of one character.\<close>

fun drop_brackets :: "ustr \<Rightarrow> ustr" where
  "drop_brackets (a # b # s) = (if a = 91 \<and> b = 93 then drop_brackets s else a # drop_brackets (b # s))"
| "drop_brackets s = s"

definition ends_with :: "ustr \<Rightarrow> ustr \<Rightarrow> bool" where
  "ends_with s t = startswith (rev s) (rev t)"

definition swap_char :: "nat \<Rightarrow> nat \<Rightarrow> ustr \<Rightarrow> ustr" where
  "swap_char a b s = map (\<lambda>c. if c = a then b else c) s"

definition name_leaf :: "ustr \<Rightarrow> ustr" where
  "name_leaf field_path =
     (if field_path = u ''$'' then []
      else let remainder = (if startswith field_path (u ''$.'') then drop 2 field_path
               else if startswith field_path (u ''$'') then dropWhile (\<lambda>c. c = 46) (drop 1 field_path)
               else field_path)
           in if remainder = [] then [] else lower (drop_brackets (last (split_on 46 remainder))))"

definition fp1_blocks :: "ustr \<Rightarrow> bool" where
  "fp1_blocks leaf \<longleftrightarrow> leaf \<in> set FP_STANDALONE_ID_LEAVES"

definition fp2_blocks_secret_pii :: "ustr \<Rightarrow> bool" where
  "fp2_blocks_secret_pii leaf \<longleftrightarrow> list_ex (ends_with leaf) FP_ID_SUFFIXES"

definition fp3_blocks_tier_b :: "ustr \<Rightarrow> bool" where
  "fp3_blocks_tier_b leaf \<longleftrightarrow> list_ex (has_sub leaf) FP_METRIC_SUBSTRINGS"

definition fp4_allows_token :: "ustr \<Rightarrow> bool" where
  "fp4_allows_token leaf \<longleftrightarrow> leaf \<in> set FP_TOKEN_ALLOWED_LEAVES \<or> \<not> has_sub leaf (u ''token'')"

definition fp5_blocks_secret :: "ustr \<Rightarrow> bool" where
  "fp5_blocks_secret leaf \<longleftrightarrow> has_sub leaf (u ''session'') \<and> leaf \<notin> set SECURITY_METADATA_SESSION_ALLOWED"

definition fp6_allows_cookie_secret :: "ustr \<Rightarrow> bool" where
  "fp6_allows_cookie_secret leaf \<longleftrightarrow> \<not> has_sub leaf (u ''cookie'') \<or> leaf \<in> set FP_COOKIE_SECRET_LEAVES"

definition fp7_blocks_user :: "ustr \<Rightarrow> bool" where
  "fp7_blocks_user leaf \<longleftrightarrow> \<not> has_sub leaf (u ''user'') \<or> leaf \<in> set PII_COMPOUND_LEAVES"

definition apply_false_positive_policy :: "ustr \<Rightarrow> sens_class \<Rightarrow> tier \<Rightarrow> bool" where
  "apply_false_positive_policy leaf c tr \<longleftrightarrow>
     leaf \<noteq> [] \<and> \<not> fp1_blocks leaf \<and>
     \<not> (tr = Tier_B \<and> fp3_blocks_tier_b leaf) \<and>
     (c = Secret_Class \<longrightarrow> fp4_allows_token leaf \<and> \<not> fp5_blocks_secret leaf \<and> fp6_allows_cookie_secret leaf) \<and>
     (c = Secret_Class \<or> c = Pii_Class \<longrightarrow> \<not> (tr \<noteq> Tier_A \<and> fp2_blocks_secret_pii leaf) \<and> fp7_blocks_user leaf) \<and>
     (c = Metadata_Class \<longrightarrow> \<not> (tr \<noteq> Tier_A \<and> fp2_blocks_secret_pii leaf) \<and>
        \<not> (has_sub leaf (u ''session'') \<and> leaf \<notin> set SECURITY_METADATA_SESSION_ALLOWED))"

definition substring_variants :: "ustr \<Rightarrow> ustr list" where
  "substring_variants sub = [sub, swap_char 45 95 sub, swap_char 95 45 sub, filter (\<lambda>c. c \<noteq> 45) sub]"

definition substring_rule_applies :: "ustr \<Rightarrow> ustr \<Rightarrow> bool" where
  "substring_rule_applies leaf sub \<longleftrightarrow>
     list_ex (\<lambda>v. has_sub leaf v \<or> has_sub (filter (\<lambda>c. c \<noteq> 95) leaf) v) (substring_variants sub) \<and>
     apply_false_positive_policy leaf Secret_Class Tier_B"

definition match_secret_field_name :: "ustr \<Rightarrow> (ustr \<times> ustr) option" where
  "match_secret_field_name leaf =
     (if leaf \<in> set FP_COOKIE_SECRET_LEAVES \<and> apply_false_positive_policy leaf Secret_Class Tier_A
      then Some (u ''secret.leaf.'' @ leaf, leaf)
      else if leaf \<in> set SENSITIVE_FIELD_NAMES \<and> apply_false_positive_policy leaf Secret_Class Tier_A
      then Some (u ''secret.leaf.'' @ leaf, leaf)
      else map_option (\<lambda>sub. (u ''secret.substring.'' @ sub, sub)) (find (substring_rule_applies leaf) SECRET_TIER_B_SUBSTRINGS))"

definition match_pii_field_name :: "ustr \<Rightarrow> (ustr \<times> ustr) option" where
  "match_pii_field_name leaf =
     (if (leaf \<in> set PII_EXACT_LEAVES \<or> leaf \<in> set PII_COMPOUND_LEAVES) \<and> apply_false_positive_policy leaf Pii_Class Tier_A
      then Some (u ''pii.leaf.'' @ leaf, leaf)
      else if leaf \<in> {u ''email_verified'', u ''email_domain''} \<and> apply_false_positive_policy leaf Pii_Class Tier_A
      then Some (u ''pii.leaf.'' @ leaf, leaf)
      else None)"

definition term_rule_applies :: "ustr \<Rightarrow> ustr \<Rightarrow> bool" where
  "term_rule_applies leaf term \<longleftrightarrow>
     (leaf = term \<or> has_sub leaf term) \<and> \<not> (term = u ''auth'' \<and> leaf \<noteq> u ''auth'') \<and> apply_false_positive_policy leaf Metadata_Class Tier_B"

definition match_security_metadata_field_name :: "ustr \<Rightarrow> (ustr \<times> ustr) option" where
  "match_security_metadata_field_name leaf =
     (if leaf \<in> set SECURITY_METADATA_EXACT_LEAVES \<and> apply_false_positive_policy leaf Metadata_Class Tier_A
      then Some (u ''security_metadata.leaf.auth'', u ''auth'')
      else case find (term_rule_applies leaf) SECURITY_METADATA_TERMS of
        Some t \<Rightarrow> Some (u ''security_metadata.term.'' @ t, t)
      | None \<Rightarrow> if leaf \<in> set SECURITY_METADATA_SESSION_ALLOWED then Some (u ''security_metadata.leaf.'' @ leaf, leaf) else None)"

record rule_hit =
  rh_class :: sens_class
  rh_method :: ustr
  rh_rule :: ustr
  rh_segment :: ustr
  rh_pattern :: "ustr option"

definition name_hit :: "sens_class \<Rightarrow> (ustr \<times> ustr) option \<Rightarrow> rule_hit list" where
  "name_hit c m = (case m of None \<Rightarrow> []
     | Some (rl, seg) \<Rightarrow> [\<lparr>rh_class = c, rh_method = u ''field_name'', rh_rule = rl, rh_segment = seg, rh_pattern = None\<rparr>])"

definition evaluate_field_name_rules :: "ustr \<Rightarrow> rule_hit list" where
  "evaluate_field_name_rules field_path =
     (let leaf = name_leaf field_path
      in if leaf = [] then []
         else name_hit Secret_Class (match_secret_field_name leaf) @ name_hit Pii_Class (match_pii_field_name leaf) @
              name_hit Metadata_Class (match_security_metadata_field_name leaf))"

section \<open>Pattern rules\<close>

definition pem_pattern_match :: "ustr \<Rightarrow> bool" where
  "pem_pattern_match v \<longleftrightarrow> has_sub v (u ''-----BEGIN'') \<and> has_sub v (u ''-----END'')"

definition is_letter :: "nat \<Rightarrow> bool" where
  "is_letter c \<longleftrightarrow> (65 \<le> c \<and> c \<le> 90) \<or> (97 \<le> c \<and> c \<le> 122)"

text \<open>The regular expression \<^verbatim>\<open>^[A-Za-z0-9._%+-]+@[A-Za-z0-9.-]+\.[A-Za-z]{2,}$\<close>.\<close>

definition rx_email :: "rx list" where
  "rx_email = [Rx (\<lambda>c. is_letter c \<or> is_digit c \<or> c \<in> {46, 95, 37, 43, 45}) 1 None False, Rx_Lit [64],
     Rx (\<lambda>c. is_letter c \<or> is_digit c \<or> c \<in> {46, 45}) 1 None False, Rx_Lit [46], Rx is_letter 2 None False]"

definition email_pattern_match :: "ustr \<Rightarrow> bool" where
  "email_pattern_match v \<longleftrightarrow> length v \<le> 320 \<and> rx_match rx_email v \<noteq> None"

definition leaf_allows_pattern_pii :: "ustr \<Rightarrow> bool" where
  "leaf_allows_pattern_pii leaf \<longleftrightarrow> match_pii_field_name leaf \<noteq> None"

definition pattern_hit :: "sens_class \<Rightarrow> ustr \<Rightarrow> string \<Rightarrow> rule_hit" where
  "pattern_hit c leaf pattern = \<lparr>rh_class = c, rh_method = u ''pattern'', rh_rule = u ''pattern.'' @ u pattern,
     rh_segment = (if leaf = [] then u ''value'' else leaf), rh_pattern = Some (u pattern)\<rparr>"

definition evaluate_pattern_rules :: "ustr \<Rightarrow> ftype \<Rightarrow> ustr option \<Rightarrow> rule_hit option" where
  "evaluate_pattern_rules field_path inferred_type sample = (case sample of
     None \<Rightarrow> None
   | Some v \<Rightarrow>
       if inferred_type \<noteq> T_String \<or> v = [] then None
       else let leaf = name_leaf field_path
            in if pem_pattern_match v \<and> apply_false_positive_policy leaf Secret_Class Tier_B then Some (pattern_hit Secret_Class leaf ''pem'')
               else if email_pattern_match v then
                 if \<not> leaf_allows_pattern_pii leaf then None
                 else if apply_false_positive_policy leaf Pii_Class Tier_B then Some (pattern_hit Pii_Class leaf ''email'')
                 else None
               else None)"

section \<open>Samples\<close>

type_synonym samples = "(ustr \<times> ustr) list"

function sample_walk :: "nat \<Rightarrow> nat \<Rightarrow> json \<Rightarrow> ustr \<Rightarrow> nat \<Rightarrow> samples \<Rightarrow> samples"
  and sample_members :: "nat \<Rightarrow> nat \<Rightarrow> dict \<Rightarrow> ustr \<Rightarrow> nat \<Rightarrow> samples \<Rightarrow> samples"
  and sample_items :: "nat \<Rightarrow> nat \<Rightarrow> json list \<Rightarrow> ustr \<Rightarrow> nat \<Rightarrow> samples \<Rightarrow> samples" where
  "sample_walk max_depth max_paths v path depth samples =
     (if max_paths \<le> length samples \<or> max_depth < depth then samples
      else case v of
        JStr s \<Rightarrow> (if dget samples path = None then dset path s samples else samples)
      | JDict d \<Rightarrow> sample_members max_depth max_paths d path (Suc depth) samples
      | JList xs \<Rightarrow> sample_items max_depth max_paths (take 3 xs) (path @ u ''[]'') (Suc depth) samples
      | _ \<Rightarrow> samples)"
| "sample_members max_depth max_paths [] path depth samples = samples"
| "sample_members max_depth max_paths ((key, child) # d) path depth samples =
     (let samples1 = sample_walk max_depth max_paths child (path @ u ''.'' @ key) depth samples
      in if max_paths \<le> length samples1 then samples1 else sample_members max_depth max_paths d path depth samples1)"
| "sample_items max_depth max_paths [] array_path depth samples = samples"
| "sample_items max_depth max_paths (item # items) array_path depth samples =
     (let samples1 = (case item of
            JDict d \<Rightarrow> sample_members max_depth max_paths d array_path depth samples
          | _ \<Rightarrow> sample_walk max_depth max_paths item (array_path @ u ''[]'') depth samples)
      in if max_paths \<le> length samples1 then samples1 else sample_items max_depth max_paths items array_path depth samples1)"
  by pat_completeness auto
termination
  by (relation "measure (\<lambda>x. case x of Inl (_, _, v, _) \<Rightarrow> 2 * size v
        | Inr (Inl (_, _, d, _)) \<Rightarrow> 2 * size_list (size_prod (\<lambda>_. 0) size) d + 1
        | Inr (Inr (_, _, xs, _)) \<Rightarrow> 2 * size_list size xs + 1)")
    (use size_take_le in \<open>auto simp: less_Suc_eq_le\<close>)

declare sample_walk.simps [simp del]

definition sample_event :: "nat \<Rightarrow> nat \<Rightarrow> json \<Rightarrow> samples \<Rightarrow> samples" where
  "sample_event max_depth max_paths event samples = (case event of
     JDict d \<Rightarrow> sample_members max_depth max_paths d (u ''$'') 0 samples
   | _ \<Rightarrow> sample_walk max_depth max_paths event (u ''$'') 0 samples)"

definition collect_string_samples_from_events :: "nat \<Rightarrow> nat \<Rightarrow> nat \<Rightarrow> json list \<Rightarrow> samples" where
  "collect_string_samples_from_events max_depth max_paths max_events events =
     fold (sample_event max_depth max_paths) (take max_events events) []"

section \<open>Detection\<close>

record detection_settings =
  ds_enabled :: bool
  ds_max_depth :: int
  ds_max_paths :: int
  ds_max_events :: int
  ds_confirm_runs :: int

definition at_least_one :: "int \<Rightarrow> nat" where
  "at_least_one n = nat (max 1 n)"

record hit = rule_hit +
  hi_path :: ustr
  hi_type :: ftype

definition hit_key :: "hit \<Rightarrow> ustr \<times> sens_class" where
  "hit_key h = (hi_path h, rh_class h)"

definition add_hit :: "ustr \<Rightarrow> ftype \<Rightarrow> rule_hit \<Rightarrow> hit list \<times> (ustr \<times> sens_class) list \<Rightarrow> hit list \<times> (ustr \<times> sens_class) list" where
  "add_hit field_path ty rh st = (case st of (hits, seen) \<Rightarrow>
     if (field_path, rh_class rh) \<in> set seen then st
     else (hits @ [rule_hit.extend rh \<lparr>hi_path = field_path, hi_type = ty\<rparr>], (field_path, rh_class rh) # seen))"

definition detect_path ::
  "inventory \<Rightarrow> samples \<Rightarrow> ustr \<Rightarrow> hit list \<times> (ustr \<times> sens_class) list \<Rightarrow> hit list \<times> (ustr \<times> sens_class) list" where
  "detect_path paths samples field_path st = (case dget paths field_path of
     None \<Rightarrow> st
   | Some ty \<Rightarrow>
       (let st1 = fold (add_hit field_path ty) (evaluate_field_name_rules field_path) st
        in if ty = T_String
           then (case evaluate_pattern_rules field_path ty (dget samples field_path) of None \<Rightarrow> st1 | Some rh \<Rightarrow> add_hit field_path ty rh st1)
           else st1))"

definition batch_paths :: "detection_settings \<Rightarrow> json list \<Rightarrow> inventory" where
  "batch_paths cfg events =
     collect_paths_from_events (at_least_one (ds_max_depth cfg)) (at_least_one (ds_max_paths cfg)) (at_least_one (ds_max_events cfg)) events"

definition string_samples :: "detection_settings \<Rightarrow> json list \<Rightarrow> samples" where
  "string_samples cfg events =
     collect_string_samples_from_events (at_least_one (ds_max_depth cfg)) (at_least_one (ds_max_paths cfg)) (at_least_one (ds_max_events cfg)) events"

definition detect_hits_for_batch :: "detection_settings \<Rightarrow> json list \<Rightarrow> hit list" where
  "detect_hits_for_batch cfg events =
     (if events = [] then []
      else let paths = batch_paths cfg events; samples = string_samples cfg events
           in fst (fold (detect_path paths samples) (sort (map fst paths)) ([], [])))"

section \<open>What is reported\<close>

definition named_classes :: "ustr \<Rightarrow> sens_class set" where
  "named_classes p = rh_class ` set (evaluate_field_name_rules p)"

text \<open>A path whose sample is PEM text, unless its name is a number, an identifier or of an excluded kind.\<close>

definition pem_path :: "inventory \<Rightarrow> samples \<Rightarrow> ustr \<Rightarrow> bool" where
  "pem_path paths samples p \<longleftrightarrow> dget paths p = Some T_String \<and> apply_false_positive_policy (name_leaf p) Secret_Class Tier_B \<and>
     (case dget samples p of None \<Rightarrow> False | Some v \<Rightarrow> pem_pattern_match v)"

definition hits_ok :: "hit list \<times> (ustr \<times> sens_class) list \<Rightarrow> bool" where
  "hits_ok st \<longleftrightarrow> distinct (map hit_key (fst st)) \<and> set (snd st) = hit_key ` set (fst st)"

lemma add_hit_keys:
  assumes "hits_ok st"
  shows "hits_ok (add_hit p ty rh st) \<and> hit_key ` set (fst (add_hit p ty rh st)) = insert (p, rh_class rh) (hit_key ` set (fst st))"
  using assms by (auto simp: add_hit_def hits_ok_def hit_key_def rule_hit.defs split: prod.splits)

lemma add_hits_keys:
  assumes "hits_ok st"
  shows "hits_ok (fold (add_hit p ty) rhs st) \<and>
    hit_key ` set (fst (fold (add_hit p ty) rhs st)) = (\<lambda>rh. (p, rh_class rh)) ` set rhs \<union> hit_key ` set (fst st)"
  using assms
proof (induction rhs arbitrary: st)
  case (Cons rh rhs)
  then show ?case using add_hit_keys [of st p ty rh] by simp
qed simp

lemma named_classes_iff:
  "named_classes p = (let leaf = name_leaf p in
     {c. leaf \<noteq> [] \<and> (case c of Secret_Class \<Rightarrow> match_secret_field_name leaf \<noteq> None | Pii_Class \<Rightarrow> match_pii_field_name leaf \<noteq> None
        | Metadata_Class \<Rightarrow> match_security_metadata_field_name leaf \<noteq> None)})"
  by (auto simp: named_classes_def evaluate_field_name_rules_def name_hit_def Let_def image_def
      split: sens_class.splits option.splits if_splits) metis+

text \<open>The class of a pattern hit: PEM text is a secret; an address is reported only where the name has reported it.\<close>

lemma pattern_classes:
  assumes "dget paths p = Some T_String"
  shows "case evaluate_pattern_rules p T_String (dget samples p) of
     None \<Rightarrow> \<not> pem_path paths samples p
   | Some rh \<Rightarrow> if pem_path paths samples p then rh_class rh = Secret_Class else rh_class rh = Pii_Class \<and> Pii_Class \<in> named_classes p"
proof -
  have e: "\<not> pem_pattern_match []" by code_simp
  show ?thesis using assms e
    by (auto simp: evaluate_pattern_rules_def pem_path_def pattern_hit_def named_classes_iff leaf_allows_pattern_pii_def Let_def
        apply_false_positive_policy_def split: option.splits)
qed

lemma detect_path_keys:
  assumes "hits_ok st" "dget paths p = Some ty"
  shows "hits_ok (detect_path paths samples p st) \<and>
    hit_key ` set (fst (detect_path paths samples p st)) =
      {p} \<times> (named_classes p \<union> (if pem_path paths samples p then {Secret_Class} else {})) \<union> hit_key ` set (fst st)"
proof -
  let ?st1 = "fold (add_hit p ty) (evaluate_field_name_rules p) st"
  have n: "hits_ok ?st1" "hit_key ` set (fst ?st1) = {p} \<times> named_classes p \<union> hit_key ` set (fst st)"
    using add_hits_keys [OF assms(1), of p ty "evaluate_field_name_rules p"] by (auto simp: named_classes_def)
  show ?thesis
  proof (cases "ty = T_String")
    case True
    then show ?thesis using n assms(2) pattern_classes [of paths p samples] add_hit_keys [OF n(1), of p ty]
      by (auto simp: detect_path_def Let_def split: option.splits if_splits)
  next
    case False
    then show ?thesis using n assms(2) by (simp add: detect_path_def pem_path_def Let_def)
  qed
qed

lemma detect_paths_keys:
  assumes "hits_ok st" "set ps \<subseteq> dom (map_of paths)"
  shows "hits_ok (fold (detect_path paths samples) ps st) \<and>
    hit_key ` set (fst (fold (detect_path paths samples) ps st)) =
      {(p, c). p \<in> set ps \<and> (c \<in> named_classes p \<or> c = Secret_Class \<and> pem_path paths samples p)} \<union> hit_key ` set (fst st)"
  using assms
proof (induction ps arbitrary: st)
  case (Cons p ps)
  then obtain ty where "dget paths p = Some ty" by auto
  note step = detect_path_keys [OF Cons.prems(1) this, of samples]
  have "set ps \<subseteq> dom (map_of paths)" using Cons.prems(2) by simp
  then show ?case using Cons.IH [of "detect_path paths samples p st"] step by (auto split: if_splits)
qed simp

lemma detected:
  "distinct (map hit_key (detect_hits_for_batch cfg events)) \<and>
   hit_key ` set (detect_hits_for_batch cfg events) = {(p, c). p \<in> fst ` set (batch_paths cfg events) \<and>
     (c \<in> named_classes p \<or> c = Secret_Class \<and> pem_path (batch_paths cfg events) (string_samples cfg events) p)}"
proof (cases "events = []")
  case True
  then show ?thesis by (simp add: detect_hits_for_batch_def batch_paths_def collect_paths_from_events_def)
next
  case False
  have ok: "hits_ok ([], [])" by (simp add: hits_ok_def)
  have "set (sort (map fst (batch_paths cfg events))) \<subseteq> dom (map_of (batch_paths cfg events))" by (simp add: dom_map_of_conv_image_fst)
  from detect_paths_keys [OF ok this, of "string_samples cfg events"] False show ?thesis
    by (simp add: detect_hits_for_batch_def Let_def hits_ok_def)
qed

text \<open>
  C38. What detection reports.  The findings of a batch are, once each, the pairs of a path of the inventory and a class that a
  field-name rule gives it, and the paths whose first text is PEM.  The pattern for addresses adds nothing.
\<close>

theorem detection_exact:
  "distinct (map hit_key (detect_hits_for_batch cfg events)) \<and>
   hit_key ` set (detect_hits_for_batch cfg events) =
     {(p, c). p \<in> fst ` set (batch_paths cfg events) \<and>
        (c \<in> rh_class ` set (evaluate_field_name_rules p) \<or>
         c = Secret_Class \<and> pem_path (batch_paths cfg events) (string_samples cfg events) p)}"
  using detected [of cfg events] unfolding named_classes_def .

section \<open>Secret names are found\<close>

definition type_text :: "ftype \<Rightarrow> ustr" where
  "type_text t = (case t of T_Null \<Rightarrow> u ''null'' | T_Boolean \<Rightarrow> u ''boolean'' | T_Integer \<Rightarrow> u ''integer'' | T_Number \<Rightarrow> u ''number''
     | T_String \<Rightarrow> u ''string'' | T_Object \<Rightarrow> u ''object'' | T_Array \<Rightarrow> u ''array'' | T_Mixed \<Rightarrow> u ''mixed'')"

definition hit_json :: "hit \<Rightarrow> json" where
  "hit_json h = JDict ([(u ''field_path'', JStr (hi_path h)), (u ''inferred_type'', JStr (type_text (hi_type h))),
     (u ''sensitivity_class'', JStr (class_text (rh_class h))), (u ''detection_method'', JStr (rh_method h)),
     (u ''matched_rule'', JStr (rh_rule h)), (u ''matched_segment'', JStr (rh_segment h))] @
     (case rh_pattern h of None \<Rightarrow> [] | Some p \<Rightarrow> [(u ''pattern'', JStr p)]))"

text \<open>
  The object under a list of hops, through members and through the first items of an array; \<open>p\<close> is the path the schema walker prints,
  and \<open>n\<close> the depth at which it visits what is inside.
\<close>

datatype hop = Member ustr | Item nat

fun object_at :: "json \<Rightarrow> ustr \<Rightarrow> nat \<Rightarrow> hop list \<Rightarrow> (dict \<times> ustr \<times> nat) option" where
  "object_at (JDict d) p n [] = Some (d, p, n)"
| "object_at (JDict d) p n (Member k # hs) = Option.bind (dget d k) (\<lambda>c. object_at c (append_field_path p k) (Suc n) hs)"
| "object_at (JList xs) p n (Item i # hs) =
     (if i < ARRAY_SAMPLE_SIZE \<and> i < length xs then
        (case xs ! i of
           JDict d \<Rightarrow> object_at (JDict d) (p @ u ''[]'') n hs
         | x \<Rightarrow> object_at x (p @ u ''[]'' @ u ''[]'') (Suc n) hs)
      else None)"
| "object_at v p n hs = None"

text \<open>The objects of an event that the schema walker opens, with their paths.\<close>

definition opened :: "nat \<Rightarrow> json \<Rightarrow> dict \<Rightarrow> ustr \<Rightarrow> bool" where
  "opened md event d p \<longleftrightarrow> (\<exists>hs n. object_at event (u ''$'') 0 hs = Some (d, p, n) \<and> n \<le> md)"

lemma object_deeper: "object_at v p n hs = Some (d, q, m) \<Longrightarrow> n \<le> m"
  by (induction v p n hs rule: object_at.induct) (fastforce simp: bind_eq_Some_conv split: if_splits json.splits)+

lemma member_visits_child: "dget d k = Some c \<Longrightarrow> set (visits md c (append_field_path path k) depth) \<subseteq> set (member_visits md d path depth)"
  by (induction d) (auto split: if_splits)

lemma item_visits_child:
  "x \<in> set xs \<Longrightarrow> set (case x of JDict d \<Rightarrow> member_visits md d path depth | _ \<Rightarrow> visits md x (path @ u ''[]'') depth) \<subseteq> set (item_visits md xs path depth)"
  by (induction xs) auto

text \<open>What the walk visits inside a value.\<close>

definition inside :: "nat \<Rightarrow> json \<Rightarrow> ustr \<Rightarrow> nat \<Rightarrow> (ustr \<times> ftype) set" where
  "inside md v p n = (case v of JDict d \<Rightarrow> set (member_visits md d p n)
     | JList xs \<Rightarrow> set (item_visits md (take ARRAY_SAMPLE_SIZE xs) (p @ u ''[]'') n) | _ \<Rightarrow> {})"

lemma inside_visits: "n \<le> md \<Longrightarrow> inside md v p (Suc n) \<subseteq> set (visits md v p n)"
  by (auto simp: inside_def visits.simps [of md v] split: json.splits)

lemma object_inside:
  "object_at v p n hs = Some (d, q, m) \<Longrightarrow> m \<le> md \<Longrightarrow> set (member_visits md d q m) \<subseteq> inside md v p n"
proof (induction v p n hs rule: object_at.induct)
  case (2 d0 p n k hs)
  then obtain c where c: "dget d0 k = Some c" "object_at c (append_field_path p k) (Suc n) hs = Some (d, q, m)"
    by (auto simp: bind_eq_Some_conv)
  have "n \<le> md" using object_deeper [OF c(2)] 2(3) by simp
  from inside_visits [OF this] member_visits_child [OF c(1)] 2(1) [OF c 2(3)] show ?case by (fastforce simp: inside_def)
next
  case (3 xs p n i hs)
  then have i: "i < ARRAY_SAMPLE_SIZE" "i < length xs" by (auto split: if_splits)
  then have x: "xs ! i \<in> set (take ARRAY_SAMPLE_SIZE xs)" by (metis in_set_conv_nth length_take min_less_iff_conj nth_take)
  show ?case
  proof (cases "xs ! i")
    case (JDict d')
    with 3 i item_visits_child [OF x, of md "p @ u ''[]''" n] show ?thesis by (auto simp: inside_def)
  next
    case (JList ys)
    with "3.prems"(1) i have o: "object_at (JList ys) (p @ u ''[]'' @ u ''[]'') (Suc n) hs = Some (d, q, m)" by simp
    have "n \<le> md" using object_deeper [OF o] "3.prems"(2) by simp
    from inside_visits [OF this, of "JList ys" "p @ u ''[]'' @ u ''[]''"] have "inside md (JList ys) (p @ u ''[]'' @ u ''[]'') (Suc n) \<subseteq> inside md (JList xs) p n"
      using item_visits_child [OF x, of md "p @ u ''[]''" n] JList by (fastforce simp: inside_def)
    moreover have "set (member_visits md d q m) \<subseteq> inside md (JList ys) (p @ u ''[]'' @ u ''[]'') (Suc n)"
      using "3.IH" JList i o "3.prems"(2) by simp
    ultimately show ?thesis by blast
  qed (use "3.prems"(1) i in \<open>auto elim: object_at.elims\<close>)
qed (auto simp: inside_def)

lemma opened_visited:
  assumes "opened md (JDict e) d p" "dget d k = Some v"
  shows "(append_field_path p k, infer_value_type v) \<in> set (event_visits md (JDict e))"
proof -
  obtain hs n where h: "object_at (JDict e) (u ''$'') 0 hs = Some (d, p, n)" "n \<le> md" using assms(1) by (auto simp: opened_def)
  have "(append_field_path p k, infer_value_type v) \<in> set (member_visits md d p n)"
    using member_visits_child [OF assms(2), of md p n] h(2) by (auto simp: visits.simps)
  then show ?thesis using object_inside [OF h] by (auto simp: inside_def event_visits_def)
qed

lemma object_path: "object_at v (36 # p) n hs = Some (d, q, m) \<Longrightarrow> \<exists>q'. q = 36 # q'"
proof (induction v "36 # p" n hs arbitrary: p rule: object_at.induct)
  case (2 d n k hs)
  then show ?case by (auto simp: bind_eq_Some_conv append_field_path_def split: if_splits)
qed (auto split: if_splits json.splits)

lemma drop_brackets_id: "91 \<notin> set s \<Longrightarrow> drop_brackets s = s"
  by (induction s rule: drop_brackets.induct) auto

lemma split_on_ne: "split_on c s \<noteq> []"
  by (induction s) (auto split: list.splits)

lemma last_split_on: "c \<notin> set k \<Longrightarrow> last (split_on c (a @ c # k)) = k" "c \<notin> set k \<Longrightarrow> last (split_on c k) = k"
proof -
  assume c: "c \<notin> set k"
  then have single: "split_on c k = [k]" by (induction k) auto
  then show "last (split_on c k) = k" by simp
  show "last (split_on c (a @ c # k)) = k"
  proof (induction a)
    case (Cons x a)
    have "split_on c (b @ c # k) \<noteq> [p]" for b p by (induction b arbitrary: p) (auto simp: single split_on_ne split: list.splits)
    then show ?case using Cons split_on_ne [of c "a @ c # k"] by (auto split: list.splits)
  qed (simp add: single)
qed

lemma bare_key_leaf: "is_bare_key k \<Longrightarrow> k \<noteq> [] \<and> 46 \<notin> set k \<and> 91 \<notin> set k"
  by (auto simp: is_bare_key_def ident_start_def ident_char_def is_digit_def list_all_iff split: list.splits)

lemma name_leaf_member:
  assumes "is_bare_key k" "P = 36 # P'"
  shows "name_leaf (append_field_path P k) = lower k"
proof -
  note k = bare_key_leaf [OF assms(1)]
  have p: "append_field_path P k = 36 # P' @ 46 # k" using assms by (simp add: append_field_path_def u_def)
  show ?thesis
  proof (cases P')
    case Nil
    then show ?thesis using k by (simp add: p name_leaf_def u_def startswith_def last_split_on drop_brackets_id Let_def)
  next
    case (Cons x xs)
    then show ?thesis using k last_split_on(1) [of 46 k xs] last_split_on(1) [of 46 k "x # xs"]
      by (simp add: p name_leaf_def u_def startswith_def drop_brackets_id Let_def del: split_on.simps)
  qed
qed

fun prefix_of :: "ustr \<Rightarrow> ustr \<Rightarrow> bool" where
  "prefix_of [] s = True"
| "prefix_of (a # p) (b # s) = (a = b \<and> prefix_of p s)"
| "prefix_of (a # p) [] = False"

lemma startswith_prefix: "startswith s p = prefix_of p s"
  unfolding startswith_def by (induction p s rule: prefix_of.induct) auto

lemma has_sub_rec: "has_sub (c # s) p = (prefix_of p (c # s) \<or> has_sub s p)" "has_sub [] (a # p) = False"
proof -
  have "(\<exists>i \<in> {0..<Suc (Suc n)}. Q i) = (Q 0 \<or> (\<exists>i \<in> {0..<Suc n}. Q (Suc i)))" for Q and n :: nat
    by (auto simp: less_Suc_eq_0_disj)
  from this [of "length s" "\<lambda>i. prefix_of p (drop i (c # s))"] show "has_sub (c # s) p = (prefix_of p (c # s) \<or> has_sub s p)"
    unfolding has_sub_def list_ex_iff startswith_prefix set_upt length_Cons by simp
qed (simp add: has_sub_def startswith_prefix)

lemma secret_names: "list_all (\<lambda>l. match_secret_field_name l \<noteq> None) (SENSITIVE_FIELD_NAMES @ FP_COOKIE_SECRET_LEAVES)"
proof -
  have "list_all (\<lambda>l. apply_false_positive_policy l Secret_Class Tier_A) (SENSITIVE_FIELD_NAMES @ FP_COOKIE_SECRET_LEAVES)"
    by (simp add: SENSITIVE_FIELD_NAMES_def FP_COOKIE_SECRET_LEAVES_def apply_false_positive_policy_def fp1_blocks_def fp4_allows_token_def
        fp5_blocks_secret_def fp6_allows_cookie_secret_def fp7_blocks_user_def FP_STANDALONE_ID_LEAVES_def FP_TOKEN_ALLOWED_LEAVES_def)
      (simp add: u_def has_sub_rec)
  then show ?thesis by (auto simp: list_all_iff match_secret_field_name_def)
qed

lemma finding_classes_mem: "h \<in> set hits \<Longrightarrow> class_text (rh_class h) \<in> set (finding_classes (map hit_json hits))"
  by (induction hits) (auto simp: hit_json_def dget_none_def py_str_def)

lemma secret_leaf_named:
  assumes "lower k \<in> set SENSITIVE_FIELD_NAMES \<union> set FP_COOKIE_SECRET_LEAVES" "name_leaf p = lower k" "k \<noteq> []"
  shows "Secret_Class \<in> named_classes p"
proof -
  have "match_secret_field_name (lower k) \<noteq> None" using secret_names assms(1) by (auto simp: list_all_iff)
  then show ?thesis using assms(2,3) by (simp add: named_classes_iff Let_def lower_def)
qed

lemma inventory_has:
  assumes "JDict e \<in> set (take (at_least_one (ds_max_events cfg)) events)" "opened (at_least_one (ds_max_depth cfg)) (JDict e) d p"
    and "dget d k = Some v" "length (batch_paths cfg events) < at_least_one (ds_max_paths cfg)"
  shows "append_field_path p k \<in> fst ` set (batch_paths cfg events)"
  unfolding batch_paths_def
  by (rule inventory_visited [OF _ _ assms(1) opened_visited [OF assms(2,3)]]) (use assms(4) in \<open>simp_all add: batch_paths_def at_least_one_def\<close>)

lemma secret_hit:
  assumes "JDict e \<in> set (take (at_least_one (ds_max_events cfg)) events)" "opened (at_least_one (ds_max_depth cfg)) (JDict e) d p"
    and "dget d k = Some v" "length (batch_paths cfg events) < at_least_one (ds_max_paths cfg)"
    and "is_bare_key k" "lower k \<in> set SENSITIVE_FIELD_NAMES \<union> set FP_COOKIE_SECRET_LEAVES"
  shows "\<exists>h \<in> set (detect_hits_for_batch cfg events). hi_path h = append_field_path p k \<and> rh_class h = Secret_Class"
proof -
  let ?p = "append_field_path p k" let ?hits = "detect_hits_for_batch cfg events"
  obtain hs n where "object_at (JDict e) (36 # []) 0 hs = Some (d, p, n)" using assms(2) by (auto simp: opened_def u_def)
  from object_path [OF this] obtain P where "p = 36 # P" by blast
  then have "name_leaf ?p = lower k" using name_leaf_member [OF assms(5)] by simp
  then have "Secret_Class \<in> named_classes ?p" using secret_leaf_named [OF assms(6)] bare_key_leaf [OF assms(5)] by blast
  then have "(?p, Secret_Class) \<in> hit_key ` set ?hits" using detected [of cfg events] inventory_has [OF assms(1-4)] by blast
  then show ?thesis by (auto simp: hit_key_def)
qed

lemma secret_class_found:
  assumes "JDict e \<in> set (take (at_least_one (ds_max_events cfg)) events)" "opened (at_least_one (ds_max_depth cfg)) (JDict e) d p"
    and "dget d k = Some v" "length (batch_paths cfg events) < at_least_one (ds_max_paths cfg)"
    and "is_bare_key k" "lower k \<in> set SENSITIVE_FIELD_NAMES \<union> set FP_COOKIE_SECRET_LEAVES"
  shows "condition_matches (JDict [(u ''sensitivity_class'', JStr (u ''secret''))]) (finding_classes (map hit_json (detect_hits_for_batch cfg events))) levels"
proof -
  obtain h where h: "h \<in> set (detect_hits_for_batch cfg events)" "rh_class h = Secret_Class" using secret_hit [OF assms] by blast
  have "u ''secret'' \<in> set (finding_classes (map hit_json (detect_hits_for_batch cfg events)))"
    using finding_classes_mem [OF h(1)] h(2) by (simp add: class_text_def)
  then show ?thesis by (simp add: condition_matches_def dget_none_def py_str_def SUPPORTED_CLASSES_def)
qed

text \<open>
  C37. Secret fields are found.  Take a batch whose inventory stays below its bound on the number of paths, one of the examined events,
  and an object in it that the walk opens: it lies within the examined depth, behind members and the first three items of arrays.
  Every member of this object whose name is a plain identifier in the list of secret names (in any case) is
  reported as a secret under the path the schema walker prints for it, and a policy or dynamic route on the class of
  secrets matches the batch.
\<close>

theorem secret_fields_found:
  assumes "JDict e \<in> set (take (at_least_one (ds_max_events cfg)) events)" "opened (at_least_one (ds_max_depth cfg)) (JDict e) d p"
    and "dget d k = Some v" "length (batch_paths cfg events) < at_least_one (ds_max_paths cfg)"
    and "is_bare_key k" "lower k \<in> set SENSITIVE_FIELD_NAMES \<union> set FP_COOKIE_SECRET_LEAVES"
  shows "(\<exists>h \<in> set (detect_hits_for_batch cfg events). hi_path h = append_field_path p k \<and> rh_class h = Secret_Class) \<and>
    condition_matches (JDict [(u ''sensitivity_class'', JStr (u ''secret''))]) (finding_classes (map hit_json (detect_hits_for_batch cfg events))) levels"
  using secret_hit [OF assms] secret_class_found [OF assms] by blast

definition demo_detection :: detection_settings where
  "demo_detection = \<lparr>ds_enabled = True, ds_max_depth = 64, ds_max_paths = 50, ds_max_events = 5, ds_confirm_runs = 2\<rparr>"

definition demo_login :: dict where
  "demo_login = [(u ''users'', JList [JDict [], JDict [(u ''Password'', JStr (u ''x''))]])]"

lemma demo_login_paths: "length (batch_paths demo_detection [JDict demo_login]) = 3"
  by code_simp

lemma demo_login_opened:
  "opened (at_least_one (ds_max_depth demo_detection)) (JDict demo_login) [(u ''Password'', JStr (u ''x''))] (u ''$.users[]'')"
proof -
  have "object_at (JDict demo_login) (u ''$'') 0 [Member (u ''users''), Item 1] = Some ([(u ''Password'', JStr (u ''x''))], u ''$.users[]'', 1)"
    by code_simp
  moreover have "1 \<le> at_least_one (ds_max_depth demo_detection)" by (simp add: demo_detection_def at_least_one_def)
  ultimately show ?thesis unfolding opened_def by blast
qed

theorem secret_fields_found_witness:
  "\<exists>h \<in> set (detect_hits_for_batch demo_detection [JDict demo_login]). hi_path h = u ''$.users[].Password'' \<and> rh_class h = Secret_Class"
proof -
  have "opened (at_least_one (ds_max_depth demo_detection)) (JDict demo_login) [(u ''Password'', JStr (u ''x''))] (u ''$.users[]'')"
    by (rule demo_login_opened)
  moreover have "dget [(u ''Password'', JStr (u ''x''))] (u ''Password'') = Some (JStr (u ''x''))" by simp
  moreover have "length (batch_paths demo_detection [JDict demo_login]) < at_least_one (ds_max_paths demo_detection)"
    by (simp add: demo_login_paths) (simp add: demo_detection_def at_least_one_def)
  moreover have "is_bare_key (u ''Password'')" by code_simp
  moreover have "lower (u ''Password'') \<in> set SENSITIVE_FIELD_NAMES \<union> set FP_COOKIE_SECRET_LEAVES" by code_simp
  moreover have "append_field_path (u ''$.users[]'') (u ''Password'') = u ''$.users[].Password''" by code_simp
  moreover have "JDict demo_login \<in> set (take (at_least_one (ds_max_events demo_detection)) [JDict demo_login])"
    by (simp add: demo_detection_def at_least_one_def)
  ultimately show ?thesis using secret_fields_found [where cfg = demo_detection and e = demo_login and events = "[JDict demo_login]"] by metis
qed

text \<open>
  The samples are kept under another spelling of the path than the inventory when a member name is quoted, so that the text of such a
  member is never looked at.
\<close>

lemma quoted_member_has_no_sample:
  assumes "\<not> is_bare_key k"
  shows "dget (batch_paths cfg [JDict [(k, JStr s)]]) (append_field_path (u ''$'') k) = Some T_String \<and>
    dget (string_samples cfg [JDict [(k, JStr s)]]) (append_field_path (u ''$'') k) = None"
proof -
  have "batch_paths cfg [JDict [(k, JStr s)]] = [(append_field_path (u ''$'') k, T_String)]"
    by (simp add: batch_paths_def collect_paths_from_events_def collect_paths_from_event_def walk_event_fields.simps note_type_def
        infer_value_type_def merge_inferred_types_def at_least_one_def take_Cons' Let_def)
  moreover have "string_samples cfg [JDict [(k, JStr s)]] = [(u ''$.'' @ k, s)]"
    by (simp add: string_samples_def collect_string_samples_from_events_def sample_event_def sample_walk.simps at_least_one_def take_Cons' Let_def u_def)
  moreover have "append_field_path (u ''$'') k \<noteq> u ''$.'' @ k" using assms by (simp add: append_field_path_def u_def)
  ultimately show ?thesis by simp
qed

section \<open>Findings on record\<close>

datatype finding_status = Finding_Open | Finding_Acknowledged | Finding_Resolved

record sensitive_finding =
  sf_method :: ustr
  sf_status :: finding_status
  sf_confirm_runs :: int
  sf_first_detected :: int
  sf_last_confirmed :: int
  sf_json :: dict
  sf_drift :: "int option"

type_synonym finding_table = "((int \<times> ustr \<times> sens_class) \<times> sensitive_finding) list"

definition FORBIDDEN_FINDING_JSON_KEYS :: "ustr list" where
  "FORBIDDEN_FINDING_JSON_KEYS = map u [''value'', ''sample'', ''raw'', ''payload'', ''event'']"

definition sanitize_finding_json :: "hit \<Rightarrow> int \<Rightarrow> dict" where
  "sanitize_finding_json h confirm_run_count =
     (let seg = (if rh_segment h = [] then name_leaf (hi_path h) else rh_segment h);
          payload = [(u ''matched_rule'', JStr (rh_rule h)), (u ''matched_segment'', JStr seg), (u ''confirm_run_count'', JInt confirm_run_count),
            (u ''inferred_type'', JStr (type_text (hi_type h)))] @
            (case rh_pattern h of None \<Rightarrow> [] | Some p \<Rightarrow> if p = [] then [] else [(u ''pattern'', JStr p)]) @
            (if rh_method h = [] then [] else [(u ''detection_method'', JStr (rh_method h))])
      in fold ddel FORBIDDEN_FINDING_JSON_KEYS payload)"

definition aggregate_hits :: "hit list \<Rightarrow> ((ustr \<times> sens_class) \<times> hit) list" where
  "aggregate_hits hits = fold (\<lambda>h. dset (hit_key h) h) hits []"

definition new_finding :: "hit \<Rightarrow> int option \<Rightarrow> int \<Rightarrow> sensitive_finding" where
  "new_finding h drift_id now = \<lparr>sf_method = rh_method h, sf_status = Finding_Open, sf_confirm_runs = 1, sf_first_detected = now,
     sf_last_confirmed = now, sf_json = sanitize_finding_json h 1, sf_drift = drift_id\<rparr>"

definition confirm_finding :: "hit \<Rightarrow> int option \<Rightarrow> int \<Rightarrow> sensitive_finding \<Rightarrow> sensitive_finding" where
  "confirm_finding h drift_id now f =
     (let count = sf_confirm_runs f + 1
      in f\<lparr>sf_confirm_runs := count, sf_last_confirmed := now, sf_method := rh_method h, sf_json := sanitize_finding_json h count,
           sf_drift := (if sf_drift f = None then drift_id else sf_drift f)\<rparr>)"

text \<open>\<open>drift\<close> gives the open drift finding of a path; the rows of the batch are read before any is written.\<close>

definition upsert_hit ::
  "int \<Rightarrow> int \<Rightarrow> (ustr \<Rightarrow> int option) \<Rightarrow> finding_table \<Rightarrow> (ustr \<times> sens_class) \<times> hit \<Rightarrow> nat \<times> finding_table \<Rightarrow> nat \<times> finding_table" where
  "upsert_hit stream_id now drift existing kh st = (case (kh, st) of ((k, h), (upserted, table)) \<Rightarrow>
     (case dget existing (stream_id, k) of
        None \<Rightarrow> (Suc upserted, dset (stream_id, k) (new_finding h (drift (fst k)) now) table)
      | Some f \<Rightarrow>
          if sf_status f \<noteq> Finding_Open then (upserted, table)
          else (Suc upserted, dset (stream_id, k) (confirm_finding h (drift (fst k)) now f) table)))"

definition upsert_sensitive_hits_batch ::
  "int \<Rightarrow> int \<Rightarrow> (ustr \<Rightarrow> int option) \<Rightarrow> hit list \<Rightarrow> finding_table \<Rightarrow> nat \<times> finding_table" where
  "upsert_sensitive_hits_batch stream_id now drift hits table =
     fold (upsert_hit stream_id now drift table) (aggregate_hits hits) (0, table)"

definition detect_sensitive_fields ::
  "detection_settings \<Rightarrow> int \<Rightarrow> int \<Rightarrow> (ustr \<Rightarrow> int option) \<Rightarrow> json list \<Rightarrow> finding_table \<Rightarrow> hit list option \<times> finding_table" where
  "detect_sensitive_fields cfg stream_id now drift events table =
     (if events = [] \<or> \<not> ds_enabled cfg then (None, table)
      else let hits = detect_hits_for_batch cfg events
           in (Some hits, snd (upsert_sensitive_hits_batch stream_id now drift hits table)))"

definition is_api_visible :: "detection_settings \<Rightarrow> bool \<Rightarrow> sensitive_finding \<Rightarrow> bool" where
  "is_api_visible cfg include_resolved f \<longleftrightarrow>
     (if sf_status f = Finding_Resolved then include_resolved else int (at_least_one (ds_confirm_runs cfg)) \<le> sf_confirm_runs f)"

lemma aggregate_get: "dget (fold (\<lambda>h. dset (hit_key h) h) hits agg) k = (case find (\<lambda>h. hit_key h = k) (rev hits) of None \<Rightarrow> dget agg k | Some h \<Rightarrow> Some h)"
  by (induction hits arbitrary: agg) (auto simp: dict_simps find_append split: option.splits)

lemma aggregate_distinct: "distinct (map fst (aggregate_hits hits))"
proof -
  have "distinct (map fst agg) \<Longrightarrow> distinct (map fst (fold (\<lambda>h. dset (hit_key h) h) hits agg))" for agg
    by (induction hits arbitrary: agg) (simp_all add: distinct_update)
  then show ?thesis by (simp add: aggregate_hits_def)
qed

text \<open>What a batch does to one row.\<close>

definition upserted_row :: "int \<Rightarrow> (ustr \<Rightarrow> int option) \<Rightarrow> ustr \<times> sens_class \<Rightarrow> hit \<Rightarrow> sensitive_finding option \<Rightarrow> sensitive_finding" where
  "upserted_row now drift k h r = (case r of
     None \<Rightarrow> new_finding h (drift (fst k)) now
   | Some f \<Rightarrow> if sf_status f \<noteq> Finding_Open then f else confirm_finding h (drift (fst k)) now f)"

lemma upsert_loop_get:
  "distinct (map fst agg) \<Longrightarrow> \<forall>k \<in> fst ` set agg. dget table (sid, k) = dget existing (sid, k) \<Longrightarrow>
   dget (snd (fold (upsert_hit sid now drift existing) agg (n, table))) (s, k) =
     (if s = sid then case dget agg k of None \<Rightarrow> dget table (s, k) | Some h \<Rightarrow> Some (upserted_row now drift k h (dget existing (s, k)))
      else dget table (s, k))"
proof (induction agg arbitrary: n table)
  case (Cons x agg)
  obtain j h where x: "x = (j, h)" by fastforce
  obtain n1 t1 where st: "upsert_hit sid now drift existing x (n, table) = (n1, t1)" by fastforce
  have t1: "dget t1 (s, k) = (if (s, k) = (sid, j) then Some (upserted_row now drift j h (dget existing (sid, j))) else dget table (s, k))" for s k
    using st Cons.prems(2) by (auto simp: x upsert_hit_def upserted_row_def dict_simps split: option.splits if_splits)
  then have "\<forall>k \<in> fst ` set agg. dget t1 (sid, k) = dget existing (sid, k)" using Cons.prems by (auto simp: x)
  note IH = Cons.IH [OF _ this, of n1]
  have "dget agg j = None" using Cons.prems(1) by (simp add: x map_of_eq_None_iff)
  then show ?case using IH Cons.prems(1) by (cases "k = j") (simp_all add: x st [unfolded x] t1 split: option.split)
qed simp

lemma upsert_get:
  "dget (snd (upsert_sensitive_hits_batch sid now drift hits table)) (s, k) =
     (if s = sid then case find (\<lambda>h. hit_key h = k) (rev hits) of None \<Rightarrow> dget table (s, k)
        | Some h \<Rightarrow> Some (upserted_row now drift k h (dget table (s, k)))
      else dget table (s, k))"
  using upsert_loop_get [OF aggregate_distinct, of hits table sid table now drift 0 s k] aggregate_get [of hits "[]" k]
  by (simp add: upsert_sensitive_hits_batch_def aggregate_hits_def split: option.splits)

lemma upsert_row:
  "\<exists>h. dget (snd (upsert_sensitive_hits_batch sid now drift hits table)) (sid, k) =
     (if k \<in> hit_key ` set hits then Some (upserted_row now drift k h (dget table (sid, k))) else dget table (sid, k))"
proof (cases "find (\<lambda>h. hit_key h = k) (rev hits)")
  case None
  then have "k \<notin> hit_key ` set hits" by (auto simp: find_None_iff)
  then show ?thesis using None by (simp add: upsert_get)
next
  case (Some h)
  then have "k \<in> hit_key ` set hits" by (auto simp: find_Some_iff in_set_conv_nth [symmetric] rev_nth intro!: nth_mem)
  then show ?thesis using Some by (auto simp: upsert_get)
qed

lemma upsert_keeps:
  assumes "s \<noteq> sid \<or> (\<exists>f. dget table (s, k) = Some f \<and> sf_status f \<noteq> Finding_Open)"
  shows "dget (snd (upsert_sensitive_hits_batch sid now drift hits table)) (s, k) = dget table (s, k)"
  using assms by (auto simp: upsert_get upserted_row_def split: option.splits)

lemma upserted_row_simps:
  "sf_status (upserted_row now drift k h None) = Finding_Open" "sf_confirm_runs (upserted_row now drift k h None) = 1"
  "sf_status f = Finding_Open \<Longrightarrow> sf_status (upserted_row now drift k h (Some f)) = Finding_Open"
  "sf_status f = Finding_Open \<Longrightarrow> sf_confirm_runs (upserted_row now drift k h (Some f)) = sf_confirm_runs f + 1"
  by (simp_all add: upserted_row_def new_finding_def confirm_finding_def Let_def)

section \<open>Confirmation\<close>

type_synonym detection_run = "int \<times> (ustr \<Rightarrow> int option) \<times> json list"

definition detection_runs :: "detection_settings \<Rightarrow> int \<Rightarrow> detection_run list \<Rightarrow> finding_table \<Rightarrow> finding_table" where
  "detection_runs cfg stream_id runs table =
     fold (\<lambda>(now, drift, events) t. snd (detect_sensitive_fields cfg stream_id now drift events t)) runs table"

definition reporting_runs :: "detection_settings \<Rightarrow> ustr \<times> sens_class \<Rightarrow> detection_run list \<Rightarrow> detection_run list" where
  "reporting_runs cfg k runs = filter (\<lambda>(now, drift, events). k \<in> hit_key ` set (detect_hits_for_batch cfg events)) runs"

lemma detection_runs_snoc:
  assumes "ds_enabled cfg"
  shows "detection_runs cfg sid (runs @ [(now, drift, events)]) table =
     snd (upsert_sensitive_hits_batch sid now drift (detect_hits_for_batch cfg events) (detection_runs cfg sid runs table))"
  using assms by (auto simp: detection_runs_def detect_sensitive_fields_def Let_def detect_hits_for_batch_def
      upsert_sensitive_hits_batch_def aggregate_hits_def)

lemma confirmed_row:
  assumes "ds_enabled cfg" "dget table (sid, k) = None"
  shows "case dget (detection_runs cfg sid runs table) (sid, k) of
      None \<Rightarrow> reporting_runs cfg k runs = []
    | Some f \<Rightarrow> reporting_runs cfg k runs \<noteq> [] \<and> sf_status f = Finding_Open \<and> sf_confirm_runs f = int (length (reporting_runs cfg k runs))"
proof (induction runs rule: rev_induct)
  case Nil
  show ?case using assms(2) by (simp add: detection_runs_def reporting_runs_def)
next
  case (snoc r runs)
  obtain now drift events where r: "r = (now, drift, events)" by (metis prod.exhaust)
  let ?t = "detection_runs cfg sid runs table"
  obtain h where h: "dget (detection_runs cfg sid (runs @ [r]) table) (sid, k) =
      (if k \<in> hit_key ` set (detect_hits_for_batch cfg events) then Some (upserted_row now drift k h (dget ?t (sid, k))) else dget ?t (sid, k))"
    using upsert_row unfolding r detection_runs_snoc [OF assms(1)] by blast
  have "reporting_runs cfg k (runs @ [r]) =
      (if k \<in> hit_key ` set (detect_hits_for_batch cfg events) then reporting_runs cfg k runs @ [r] else reporting_runs cfg k runs)"
    by (simp add: reporting_runs_def r)
  then show ?case unfolding h using snoc by (simp add: upserted_row_simps split: option.splits)
qed

lemma untouched_row:
  assumes "ds_enabled cfg" "s \<noteq> sid \<or> (\<exists>f. dget table (s, j) = Some f \<and> sf_status f \<noteq> Finding_Open)"
  shows "dget (detection_runs cfg sid runs table) (s, j) = dget table (s, j)"
proof (induction runs rule: rev_induct)
  case (snoc r runs)
  then show ?case using upsert_keeps [of s sid "detection_runs cfg sid runs table" j] assms
    by (cases r) (simp add: detection_runs_snoc)
qed (simp add: detection_runs_def)

text \<open>
  C40. A finding is confirmed once per run.  Over any sequence of batches of a stream, a path and class without a row gets one with the first batch
  that reports it; the row stays open, counts exactly the batches that report it, and is listed exactly from
  the configured number of them on.  Rows of other streams and rows that an operator has closed are not touched.
\<close>

theorem findings_confirmed:
  assumes "ds_enabled cfg" "dget table (stream_id, k) = None"
  shows "(case dget (detection_runs cfg stream_id runs table) (stream_id, k) of
       None \<Rightarrow> reporting_runs cfg k runs = []
     | Some f \<Rightarrow> reporting_runs cfg k runs \<noteq> [] \<and> sf_status f = Finding_Open \<and> sf_confirm_runs f = int (length (reporting_runs cfg k runs)) \<and>
         (is_api_visible cfg all_rows f \<longleftrightarrow> at_least_one (ds_confirm_runs cfg) \<le> length (reporting_runs cfg k runs))) \<and>
    (\<forall>s j. s \<noteq> stream_id \<or> (\<exists>f. dget table (s, j) = Some f \<and> sf_status f \<noteq> Finding_Open) \<longrightarrow>
       dget (detection_runs cfg stream_id runs table) (s, j) = dget table (s, j))"
  using confirmed_row [OF assms, of runs] untouched_row [OF assms(1), of _ stream_id table _ runs]
  by (auto simp: is_api_visible_def split: option.splits)

lemma demo_login_hits: "map hit_key (detect_hits_for_batch demo_detection [JDict demo_login]) = [(u ''$.users[].Password'', Secret_Class)]"
  by code_simp

theorem findings_confirmed_witness:
  "\<exists>f. dget (detection_runs demo_detection 1 [(10, \<lambda>p. None, [JDict demo_login]), (20, \<lambda>p. None, [JDict demo_login])] [])
       (1, u ''$.users[].Password'', Secret_Class) = Some f \<and> sf_confirm_runs f = 2 \<and> is_api_visible demo_detection False f"
proof -
  let ?runs = "[(10, \<lambda>p. None, [JDict demo_login]), (20, \<lambda>p. None, [JDict demo_login])] :: detection_run list"
  let ?k = "(u ''$.users[].Password'', Secret_Class)"
  have "?k \<in> hit_key ` set (detect_hits_for_batch demo_detection [JDict demo_login])"
    unfolding set_map [symmetric] demo_login_hits by simp
  then have r: "reporting_runs demo_detection ?k ?runs = ?runs" by (simp add: reporting_runs_def)
  have "ds_enabled demo_detection" "dget [] (1, ?k) = None" "at_least_one (ds_confirm_runs demo_detection) = 2"
    by (simp_all add: demo_detection_def at_least_one_def)
  then show ?thesis using findings_confirmed [of demo_detection "[]" 1 ?k ?runs False] by (simp add: r split: option.splits)
qed

end
