(* ===== verification/Runtime_Engines.thy ===== *)
theory Runtime_Engines
  imports Stream_Run Enrichment Sensitive_Detection
begin

text \<open>
  The engines of a route: \<^verbatim>\<open>_apply_route_transform\<close> of \<^verbatim>\<open>app/runners/route_stage.py\<close> with the mapping engine and the
  enrichment engine of this development in the place of the pipeline's two arguments, and the detector of this development
  in the place of the one the run takes as an argument.
\<close>

section \<open>The engines in the pipeline\<close>

text \<open>
  A configuration with two entries for a key is no Python dictionary; the functions refuse it.
\<close>

definition runtime_map :: "mapping_env \<Rightarrow> dict \<Rightarrow> json list \<Rightarrow> stage_exc + (ustr + json) list" where
  "runtime_map env fm events =
     (if \<not> json_ok (JDict fm) then Inl (StageFailure (TypeError (u ''not a dict'')))
      else case apply_mappings_with_results env events fm of
        Inl x \<Rightarrow> Inl x
      | Inr rs \<Rightarrow> Inr (map (\<lambda>r. case ma_event_error r of Some (code, msg) \<Rightarrow> Inl msg | None \<Rightarrow> Inr (JDict (ma_event r))) rs))"

definition runtime_enrich :: "enrich_env \<Rightarrow> dict \<Rightarrow> ustr \<Rightarrow> json list \<Rightarrow> stage_exc + json list" where
  "runtime_enrich env enrichment policy events =
     (if \<not> json_ok (JDict enrichment) then Inl (StageFailure (TypeError (u ''not a dict'')))
      else apply_enrichments env policy enrichment events)"

definition runtime_pipeline :: "enrich_env \<Rightarrow> pipeline_env \<Rightarrow> pipeline_env" where
  "runtime_pipeline een env = env\<lparr>pv_map := runtime_map (en_map een), pv_enrich := runtime_enrich een\<rparr>"

lemma runtime_fields [simp]:
  "pv_map (runtime_pipeline een env) = runtime_map (en_map een)" "pv_enrich (runtime_pipeline een env) = runtime_enrich een"
  "pv_prot (runtime_pipeline een env) = pv_prot env"
  by (simp_all add: runtime_pipeline_def)

lemma runtime_engines_ok:
  assumes "mapping_env_ok (en_map een)"
  shows "engines_ok (runtime_pipeline een env)"
proof -
  have "json_ok e" if h: "json_events_ok evs" "runtime_map (en_map een) d evs = Inr rs" "Inr e \<in> set rs" for d evs rs e
  proof -
    obtain ms where d: "json_ok (JDict d)" and ms: "apply_mappings_with_results (en_map een) evs d = Inr ms"
      and rs: "rs = map (\<lambda>r. case ma_event_error r of Some (code, msg) \<Rightarrow> Inl msg | None \<Rightarrow> Inr (JDict (ma_event r))) ms"
      using h(2) by (auto simp: runtime_map_def simp del: json_ok.simps split: if_splits sum.splits)
    have "\<forall>r \<in> set ms. json_ok (JDict (ma_event r))" using mapping_results_ok [OF assms _ d ms] h(1) by (simp add: json_events_ok_def)
    then show ?thesis using h(3) unfolding rs by (auto simp del: json_ok.simps split: option.splits)
  qed
  moreover have "json_events_ok out" if h: "json_events_ok evs" "runtime_enrich een d p evs = Inr out" for d p evs out
  proof -
    obtain rs where d: "json_ok (JDict d)" and rs: "emap (execute_enrichment een p d) evs = Inr rs" "out = map er_event rs"
      using h(2) by (auto simp: runtime_enrich_def apply_enrichments_def execute_enrichments_batch_def simp del: json_ok.simps split: if_splits sum.splits)
    have "\<forall>r \<in> set rs. json_ok (er_event r)"
      using rs(1) by (rule emap_all) (use h(1) execute_enrichment_ok [OF _ assms _ d] in \<open>auto simp: json_events_ok_def\<close>)
    then show ?thesis using rs(2) by (simp add: json_events_ok_def)
  qed
  ultimately show ?thesis unfolding engines_ok_def by (simp del: json_ok.simps)
qed

text \<open>
  C3. The guarantee of the pipeline with the program's own mapping and enrichment engines.  Protection is switched on, the environment of
  the mapping engine is well formed, and the batch and the vault satisfy their invariants.  Whatever the pipeline of a batch
  returns or raises, every adapter call it made names an enabled route, its events are done for each rule in effect for that very
  route (with the exceptions of C2: rules on the two fields the classification stage writes, and array items dropped
  by index), and no quarantine rule, delivery behaviour or drift gate of that route holds them back.
\<close>

theorem runtime_pipeline_sends_protected:
  assumes "pe_enabled (pv_prot env)" "mapping_env_ok (en_map een)" "batch_ok (pv_prot env) (pp_batch s)"
      "vault_ok (pv_prot env) (Some (pp_vault s))"
    and "process_routes (runtime_pipeline een env) (Some (\<lambda>rx. deliver_single_route ow opts st (rx_route rx))) base rxs s = (out, s')"
  shows "\<exists>calls. rn_calls (pp_runner s') = rn_calls (pp_runner s) @ calls \<and>
    (\<forall>(c, r) \<in> set calls. \<exists>rx \<in> set rxs. rx_enabled rx \<and> rx_route rx = call_route c \<and>
       covered (pv_prot env) rx (pp_batch s) (sc_events c) \<and> gate_open rx (pp_batch s) (sc_events c))"
proof -
  have p: "pv_prot (runtime_pipeline een env) = pv_prot env" by simp
  from single_sender.loop_sends [of "runtime_pipeline een env", unfolded p,
      OF assms(1) runtime_engines_ok [OF assms(2)] assms(3,4) assms(5) [unfolded process_routes_def]]
  show ?thesis unfolding entitled_def by fastforce
qed

definition idle_transform :: transform_config where
  "idle_transform = \<lparr>tc_mappings = [], tc_enrichment = [], tc_override = KEEP_EXISTING, tc_mapping_source = FromStream, tc_enrichment_source = FromStream\<rparr>"

lemma idle_transform_demo:
  "apply_route_transform (runtime_pipeline demo_enrich_env demo_pipeline_env) [demo_event] idle_transform = Inr [demo_event]"
proof -
  have "\<not> is_full_event_mapping []" by (simp add: is_full_event_mapping_def get_mapping_mode_def dget_none_def)
  then have m: "runtime_map env [] [demo_event] = Inr [Inr demo_event]" for env
    by (simp add: runtime_map_def apply_mappings_with_results_def basic_result_def demo_event_def apply_compiled_mapping_def
        extract_field_transform_rules_def transform_errors_def)
  have "no_internal_keys demo_event" by (simp add: demo_event_def internal_key_def startswith_def u_def)
  then have "sanitize_delivery_event [(u ''a'', JStr (u ''x'')), (u ''b'', JList [JStr (u ''y'')])] = demo_event"
    using strip_internal_id [of demo_event] by (simp add: sanitize_strips demo_event_def del: strip_internal_nested.simps)
  then have e: "runtime_enrich een [] KEEP_EXISTING [demo_event] = Inr [demo_event]" for een
    by (simp add: runtime_enrich_def apply_enrichments_def execute_enrichments_batch_def execute_enrichment_def validate_policy_def)
      (simp add: demo_event_def)
  have "copy_transport_metadata [demo_event] [demo_event] = [demo_event]"
    by (simp add: copy_transport_metadata_def with_transport_metadata_def demo_event_def TRANSPORT_KEYS_def copy_missing_def propagate_copy
        KEY_META_def QUEUE_META_def)
  then show ?thesis using m e by (simp add: apply_route_transform_def idle_transform_def)
qed

definition demo_transform_ctx :: route_ctx where
  "demo_transform_ctx = (demo_route_ctx 5 [(demo_rule MODE_FULL_MASK (u ''$.a''), None)])\<lparr>rx_transform := Some idle_transform\<rparr>"

lemma demo_runtime_run:
  "\<exists>t s' c. process_routes (runtime_pipeline demo_enrich_env demo_pipeline_env)
      (Some (\<lambda>rx. deliver_single_route script_outside script_opts (script_stream (u ''LOG_AND_CONTINUE'')) (rx_route rx)))
      (no_metrics 1 0) [demo_transform_ctx] (demo_pipe [demo_event] [] [None]) =
      (Inr t, s') \<and> rn_calls (pp_runner s') = [(c, None)] \<and> sc_events c = [masked_event]"
proof -
  let ?env = "runtime_pipeline demo_enrich_env demo_pipeline_env"
  let ?key = "transform_config_cache_key idle_transform"
  obtain res cfg sb where p: "route_protection_stage demo_prot_env False False 5 7 (Some ?key) [demo_event]
     [(demo_rule MODE_FULL_MASK (u ''$.a''), None)] [] [] demo_batch demo_vault = (Inr (res, cfg), sb, demo_vault)"
    "pb_events res = [masked_event]" using demo_protects [of "Some ?key"] by blast
  obtain pres c where g: "route_policy_stage working_db False False 7 5 10 [masked_event] [] None [] [] [] [] None [] =
      (Inr ([masked_event], pres, c), [])" "ps_allowed pres" using quiet_policy by blast
  have f: "find (\<lambda>r. rt_id r = 5) (sm_routes (script_stream (u ''LOG_AND_CONTINUE''))) = Some (script_route (u ''LOG_AND_CONTINUE''))"
    "rn_world (script_runner [None]) = [None]" "rn_dedup (script_runner [None]) = None" "rn_calls (script_runner [None]) = []"
    by (simp_all add: script_stream_def script_route_def script_runner_def)
  obtain out rn k where d: "deliver_single_route script_outside script_opts (script_stream (u ''LOG_AND_CONTINUE'')) 5
      [masked_event] (script_runner [None]) = (Inr out, rn)" "so_success out" "\<not> so_rate_limited out" "\<not> so_dest_disabled out"
      "rn_calls rn = [(k, None)]" "sc_events k = [masked_event]" using script_accepts [OF f(1-3), of script_opts "[masked_event]"] f(4) by auto
  have del: "route_delivery_stage demo_transform_ctx pres [masked_event]
      (Some (deliver_single_route script_outside script_opts (script_stream (u ''LOG_AND_CONTINUE'')) 5 [masked_event]))
      (script_runner [None]) = (Inr (sent_result demo_transform_ctx pres 1 out), rn)"
    using d g by (simp add: route_delivery_stage_def demo_route_ctx_def demo_transform_ctx_def)
  have "dv_success (sent_result demo_transform_ctx pres 1 out) = Some True" "dv_disposition (sent_result demo_transform_ctx pres 1 out) = Delivered"
    using d by (simp_all add: sent_result_def unsent_result_def)
  moreover have "transform_stage ?env (Some idle_transform) (demo_batch_ctx [demo_event] []) =
      (Inr [demo_event], (demo_batch_ctx [demo_event] [])\<lparr>bx_transforms := [(?key, [demo_event])], bx_transform_count := 1\<rparr>)"
    using idle_transform_demo by (simp add: transform_stage_def demo_batch_ctx_def Let_def)
  ultimately show ?thesis using p g d del
    by (simp add: process_routes_def process_route_pipeline_def demo_pipe_defs demo_transform_ctx_def runtime_pipeline_def
        route_classification_stage_def account_route_def really_delivered_def)
qed

theorem runtime_pipeline_sends_protected_witness:
  "\<exists>t s' c. process_routes (runtime_pipeline demo_enrich_env demo_pipeline_env)
      (Some (\<lambda>rx. deliver_single_route script_outside script_opts (script_stream (u ''LOG_AND_CONTINUE'')) (rx_route rx)))
      (no_metrics 1 0) [demo_transform_ctx] (demo_pipe [demo_event] [] [None]) =
      (Inr t, s') \<and> rn_calls (pp_runner s') = [(c, None)] \<and> sc_events c = [masked_event] \<and>
      covered demo_prot_env demo_transform_ctx (demo_batch_ctx [demo_event] []) (sc_events c)"
proof -
  obtain t s' c where r: "process_routes (runtime_pipeline demo_enrich_env demo_pipeline_env)
      (Some (\<lambda>rx. deliver_single_route script_outside script_opts (script_stream (u ''LOG_AND_CONTINUE'')) (rx_route rx)))
      (no_metrics 1 0) [demo_transform_ctx] (demo_pipe [demo_event] [] [None]) = (Inr t, s')"
      "rn_calls (pp_runner s') = [(c, None)]" "sc_events c = [masked_event]"
    using demo_runtime_run by blast
  have "pe_enabled (pv_prot demo_pipeline_env)" "batch_ok (pv_prot demo_pipeline_env) (pp_batch (demo_pipe [demo_event] [] [None]))"
    "vault_ok (pv_prot demo_pipeline_env) (Some (pp_vault (demo_pipe [demo_event] [] [None])))" "mapping_env_ok (en_map demo_enrich_env)"
    by (simp_all add: demo_pipeline_env_def demo_prot_env_def demo_pipe_def demo_batch_ok vault_ok_def demo_env_ok json_events_ok_def demo_event_def
        demo_enrich_env_def demo_mapping_env_ok)
  from runtime_pipeline_sends_protected [OF this(1,4,2,3) r(1)] r show ?thesis
    by (auto simp: demo_pipe_def script_runner_def demo_pipeline_env_def)
qed

section \<open>From the source field to the route\<close>

lemma extends_trans: "extends a b \<Longrightarrow> extends b c \<Longrightarrow> extends a c"
proof (induction a arbitrary: b c rule: mtree.induct)
  case (1 d)
  obtain d' where b: "b = JDict d'" using 1(2) by (auto split: json.splits)
  obtain d'' where c: "c = JDict d''" using 1(3) b by (auto split: json.splits)
  have "\<exists>w. dget d'' k = Some w \<and> extends v w" if kv: "(k, v) \<in> set d" for k v
  proof -
    obtain v' where v': "dget d' k = Some v'" "extends v v'" using 1(2) kv unfolding b extends_dict by blast
    obtain v'' where "dget d'' k = Some v''" "extends v' v''" using extends_dget [OF 1(3) [unfolded b c] v'(1)] by blast
    then show ?thesis using 1(1) [OF kv refl v'(2)] by blast
  qed
  then show ?case unfolding c extends_dict by blast
next
  case (2 xs)
  obtain ys where b: "b = JList ys" using 2(2) by (auto split: json.splits)
  obtain zs where c: "c = JList zs" using 2(3) b by (auto split: json.splits)
  have "extends (xs ! i) (zs ! i)" if "i < length xs" for i
    using 2(1) [of "xs ! i" "ys ! i" "zs ! i"] 2(2,3) that b c by auto
  then show ?case using 2(2,3) b c by auto
qed auto

lemma copy_missing_extends: "extends (JDict a) (JDict e) \<Longrightarrow> extends (JDict a) (JDict (copy_missing raw e k))"
proof (cases "dget raw k \<noteq> None \<and> dget e k = None")
  case True
  then obtain v where v: "copy_missing raw e k = dset k v e" by (auto simp: copy_missing_def)
  assume x: "extends (JDict a) (JDict e)"
  have "w \<noteq> w" if "(k, w) \<in> set a" for w using x True that unfolding extends_dict by fastforce
  then show ?thesis using extends_dset_other [OF x, of k v] v by auto
next
  case False
  assume "extends (JDict a) (JDict e)"
  moreover have "copy_missing raw e k = e" using False by (auto simp: copy_missing_def split: option.splits)
  ultimately show ?thesis by simp
qed

lemma copy_all_extends: "extends (JDict a) (JDict e) \<Longrightarrow> extends (JDict a) (JDict (foldl (copy_missing raw) e ks))"
  by (induction ks arbitrary: e) (simp_all add: copy_missing_extends del: extends.simps)

lemma transport_extends:
  assumes "extends (JDict a) v"
  shows "extends (JDict a) (with_transport_metadata raw v)"
proof -
  obtain e where e: "v = JDict e" using assms by (auto split: json.splits)
  show ?thesis
  proof (cases raw)
    case (JDict d)
    have "extends (JDict a) (JDict (foldl (copy_missing d) (foldl (copy_missing d) e TRANSPORT_KEYS) [KEY_META, QUEUE_META]))"
      using assms e copy_all_extends by blast
    then show ?thesis using e JDict by (simp only: with_transport_metadata_def propagate_copy json.case)
  qed (use assms e in \<open>simp_all add: with_transport_metadata_def del: extends.simps\<close>)
qed

lemma mapped_or_raise_map:
  "mapped_or_raise (map (\<lambda>r. case ma_event_error r of Some (code, msg) \<Rightarrow> Inl msg | None \<Rightarrow> Inr (JDict (ma_event r))) rs) = Inr es \<Longrightarrow>
     list_all2 (\<lambda>r e. ma_event_error r = None \<and> e = JDict (ma_event r)) rs es"
proof (induction rs arbitrary: es)
  case (Cons r rs)
  then show ?case by (cases "ma_event_error r") (auto split: sum.splits)
qed simp

lemma basic_field_errors:
  assumes "apply_mappings_with_results env events fm = Inr rs" "\<not> is_full_event_mapping fm"
    and "extract_field_transform_rules fm (u ''transform_rules'') = []"
  shows "\<forall>r \<in> set rs. ma_field_errors r = []"
proof -
  obtain compiled where "emap (basic_result env compiled (source_paths fm) []) events = Inr rs"
    using assms by (auto simp: apply_mappings_with_results_def split: sum.splits)
  then show ?thesis by (rule emap_all)
    (auto simp: basic_result_def not_an_event_def event_failed_def transform_errors_def split: json.splits sum.splits)
qed

lemma apply_mapping_ok:
  assumes "apply_mapping env event fm = Inr out" "mapping_env_ok env" "json_ok event" "json_ok (JDict fm)"
  shows "json_ok (JDict out)"
proof (cases "apply_mappings_with_results env [event] fm")
  case (Inl x)
  have "\<not> is_full_event_mapping fm"
  proof
    assume f: "is_full_event_mapping fm"
    then have "full_event_result env fm event = Inl x" using Inl by (auto simp: apply_mappings_with_results_def split: sum.splits)
    then show False using full_event_agrees(1) [OF f] assms(1) by simp
  qed
  moreover from Inl have "compile_mappings (me_jsonpath env) (extract_basic_jsonpath_mappings fm) = Inl x"
    using batch_agrees [where env = env and events = "[event]" and fm = fm] assms(1) by simp
  ultimately have "compile_mappings (me_jsonpath env) (extract_basic_jsonpath_mappings fm) = Inl x" "\<not> is_full_event_mapping fm" by simp_all
  then show ?thesis using assms(1,3)
    by (auto simp: apply_mapping_def apply_mapping_with_transform_results_def split: json.splits if_splits)
next
  case (Inr rs)
  then obtain r where r: "rs = [r]" "apply_mapping env event fm = single_outcome fm r"
    using batch_agrees [where env = env and events = "[event]" and fm = fm] by (auto simp: list_all2_Cons1)
  have "json_ok (JDict (ma_event r))" using mapping_results_ok [OF assms(2) _ assms(4) Inr] assms(3) r(1) by simp
  then show ?thesis using r(2) assms(1) by (auto simp: single_outcome_def simp del: json_ok.simps split: option.splits if_splits)
qed

lemma transform_parts:
  assumes "apply_route_transform (runtime_pipeline een env) raw c = Inr evs" "\<not> is_full_event_mapping (tc_mappings c)"
    and "extract_field_transform_rules (tc_mappings c) (u ''transform_rules'') = []" "i < length raw"
  shows "\<exists>m r. apply_mapping (en_map een) (raw ! i) (tc_mappings c) = Inr m \<and>
     execute_enrichment een (tc_override c) (tc_enrichment c) (JDict m) = Inr r \<and>
     evs ! i = with_transport_metadata (raw ! i) (er_event r) \<and> json_ok (JDict (tc_mappings c)) \<and> json_ok (JDict (tc_enrichment c))"
proof -
  let ?f = "\<lambda>r. case ma_event_error r of Some (code, msg) \<Rightarrow> Inl msg | None \<Rightarrow> Inr (JDict (ma_event r))"
  obtain rs mapped enriched where s: "runtime_map (en_map een) (tc_mappings c) raw = Inr rs" "mapped_or_raise rs = Inr mapped"
    "runtime_enrich een (tc_enrichment c) (tc_override c) mapped = Inr enriched" "evs = copy_transport_metadata raw enriched"
    using assms(1) by (auto simp: apply_route_transform_def split: sum.splits)
  obtain ms where ms: "apply_mappings_with_results (en_map een) raw (tc_mappings c) = Inr ms" "rs = map ?f ms" and ok1: "json_ok (JDict (tc_mappings c))"
    using s(1) by (auto simp: runtime_map_def simp del: json_ok.simps split: if_splits sum.splits)
  obtain es where es: "emap (execute_enrichment een (tc_override c) (tc_enrichment c)) mapped = Inr es" "enriched = map er_event es"
    and ok2: "json_ok (JDict (tc_enrichment c))"
    using s(3) by (auto simp: runtime_enrich_def apply_enrichments_def execute_enrichments_batch_def simp del: json_ok.simps split: if_splits sum.splits)
  have l1: "list_all2 (\<lambda>e r. apply_mapping (en_map een) e (tc_mappings c) = single_outcome (tc_mappings c) r) raw ms"
    using batch_agrees [where env = "en_map een" and events = raw and fm = "tc_mappings c"] ms(1) by simp
  have l2: "list_all2 (\<lambda>r e. ma_event_error r = None \<and> e = JDict (ma_event r)) ms mapped" using mapped_or_raise_map s(2) ms(2) by blast
  have l3: "list_all2 (\<lambda>x y. execute_enrichment een (tc_override c) (tc_enrichment c) x = Inr y) mapped es" using emap_Inr [OF es(1)] .
  have len: "length ms = length raw" "length mapped = length raw" "length es = length raw"
    using list_all2_lengthD [OF l1] list_all2_lengthD [OF l2] list_all2_lengthD [OF l3] by simp_all
  have fe: "ma_field_errors (ms ! i) = []"
    using basic_field_errors [OF ms(1) assms(2,3)] len assms(4) by simp
  have "apply_mapping (en_map een) (raw ! i) (tc_mappings c) = Inr (ma_event (ms ! i))"
    using list_all2_nthD [OF l1 assms(4)] list_all2_nthD [OF l2, of i] assms(4) len fe by (simp add: single_outcome_def)
  moreover have "execute_enrichment een (tc_override c) (tc_enrichment c) (JDict (ma_event (ms ! i))) = Inr (es ! i)"
    using list_all2_nthD [OF l3, of i] list_all2_nthD [OF l2, of i] assms(4) len by simp
  moreover have "evs ! i = with_transport_metadata (raw ! i) (er_event (es ! i))"
    using s(4) es(2) len assms(4) by (simp add: copy_transport_metadata_def)
  ultimately show ?thesis using ok1 ok2 by blast
qed

text \<open>
  C28. A mapped field reaches the route.  With basic mapping, no advanced rule and an enrichment that may not override, the
  transformed event of every raw event has each configured output field (unless its name is internal): it holds the first
  match of the field's path in the raw event, without internal keys, to which pass-through and enrichment may only add
  members.  Enrichment targets are taken to be top-level names.
\<close>

theorem route_transform_delivers:
  assumes "apply_route_transform (runtime_pipeline een env) raw c = Inr evs" "i < length raw" "raw ! i = JDict e" "json_ok (JDict e)"
    and "mapping_env_ok (en_map een)" "\<not> is_full_event_mapping (tc_mappings c)"
    and "extract_field_transform_rules (tc_mappings c) (u ''transform_rules'') = []" "tc_override c \<noteq> FORCE_OVERRIDE"
    and "\<forall>t \<in> enrichment_targets een (tc_enrichment c). 46 \<notin> set (strip t)"
    and "(f, path) \<in> set (extract_basic_jsonpath_mappings (tc_mappings c))" "\<not> internal_key f"
  shows "\<exists>v d w. extract_one_compiled (me_jsonpath (en_map een)) (normalize_jsonpath path) (JDict e) = Inr v \<and>
    evs ! i = JDict d \<and> dget d f = Some w \<and> extends (strip_internal_nested v) w"
proof -
  obtain m r where t: "apply_mapping (en_map een) (JDict e) (tc_mappings c) = Inr m"
    "execute_enrichment een (tc_override c) (tc_enrichment c) (JDict m) = Inr r"
    "evs ! i = with_transport_metadata (raw ! i) (er_event r)" "json_ok (JDict (tc_mappings c))"
    using transform_parts [OF assms(1,6,7,2)] assms(3) by auto
  obtain v w where v: "extract_one_compiled (me_jsonpath (en_map een)) (normalize_jsonpath path) (JDict e) = Inr v" "dget m f = Some w" "extends v w"
    using basic_mapping_value [OF t(1) assms(6,7,5,4) t(4) assms(10)] by blast
  have ok: "json_ok (JDict m)" using apply_mapping_ok [OF t(1) assms(5,4) t(4)] .
  have "\<forall>t \<in> enrichment_targets een (tc_enrichment c). clear_path (JDict m) (split_on 46 (strip t))"
    using assms(9) by (auto simp: split_on_single split: option.splits)
  then have "extends (sanitize_delivery_event m) (er_event r)" using enrichment_extends [OF t(2) assms(8) ok] by blast
  moreover obtain m' where m': "sanitize_delivery_event m = JDict m'" using sanitize_dict by blast
  ultimately have x: "extends (JDict m') (evs ! i)" using transport_extends t(3) by simp
  then obtain d where d: "evs ! i = JDict d" by (auto split: json.splits)
  have "dget m' f = Some (strip_internal_nested w)"
    using strip_dget [of m m' f] m' v(2) assms(11) by (simp add: sanitize_strips del: strip_internal_nested.simps)
  then obtain w' where "dget d f = Some w'" "extends (strip_internal_nested w) w'" using extends_dget x d by metis
  then show ?thesis using v(1) d extends_trans [OF strip_extends [OF v(3)]] by blast
qed

definition mapped_transform :: transform_config where
  "mapped_transform = \<lparr>tc_mappings = demo_fields, tc_enrichment = [], tc_override = KEEP_EXISTING, tc_mapping_source = FromStream, tc_enrichment_source = FromStream\<rparr>"

lemma demo_transform_run:
  "apply_route_transform (runtime_pipeline demo_enrich_env demo_pipeline_env) [JDict demo_record] mapped_transform = Inr [JDict [(u ''x'', JInt 1)]]"
proof -
  have m: "runtime_map demo_mapping_env demo_fields [JDict demo_record] = Inr [Inr (JDict [(u ''x'', JInt 1)])]"
    using demo_fields_basic(1,2,6) demo_fields_compile
    by (simp add: runtime_map_def apply_mappings_with_results_def basic_result_def demo_mapping_env_def transform_errors_def del: json_ok.simps)
  have "\<not> internal_key (u ''x'')" by (simp add: internal_key_def startswith_def u_def)
  then have e: "runtime_enrich demo_enrich_env [] KEEP_EXISTING [JDict [(u ''x'', JInt 1)]] = Inr [JDict [(u ''x'', JInt 1)]]"
    by (simp add: runtime_enrich_def apply_enrichments_def execute_enrichments_batch_def execute_enrichment_def validate_policy_def sanitize_strips)
  have "copy_transport_metadata [JDict demo_record] [JDict [(u ''x'', JInt 1)]] = [JDict [(u ''x'', JInt 1)]]"
    by (simp add: copy_transport_metadata_def with_transport_metadata_def demo_record_def TRANSPORT_KEYS_def copy_missing_def propagate_copy
        KEY_META_def QUEUE_META_def)
  then show ?thesis using m e by (simp add: apply_route_transform_def mapped_transform_def demo_enrich_env_def)
qed

theorem route_transform_delivers_witness:
  "\<exists>v w. extract_one_compiled demo_jsonpath (u ''$.a'') (JDict demo_record) = Inr v \<and>
     dget [(u ''x'', JInt 1)] (u ''x'') = Some w \<and> extends (strip_internal_nested v) w"
proof -
  have t: "enrichment_targets demo_enrich_env [] = {}" by (simp add: enrichment_targets_def split_static_fields_def iter_advanced_rules_def)
  have k: "\<not> internal_key (u ''x'')" "KEEP_EXISTING \<noteq> FORCE_OVERRIDE"
    by (simp_all add: internal_key_def startswith_def u_def KEEP_EXISTING_def FORCE_OVERRIDE_def)
  show ?thesis
    using route_transform_delivers [OF demo_transform_run, of 0 demo_record "u ''x''" "u ''$.a''"] t k demo_fields_basic demo_mapping_env_ok
    by (auto simp: mapped_transform_def demo_enrich_env_def demo_mapping_env_def simp del: json_ok.simps strip_internal_nested.simps)
qed

section \<open>Detection in the run\<close>








end
