(* ===== verification/Stream_Lock.thy ===== *)
theory Stream_Lock
  imports Prelude
begin

text \<open>
  The locks of a run and of a scheduler worker: the registry of thread locks (\<open>_get_lock\<close>, \<open>discard_lock\<close> and
  the pruning in \<^verbatim>\<open>app/runners/stream_runner.py\<close>) and the advisory file locks of
  \<^verbatim>\<open>app/runners/stream_runtime_lock.py\<close>.  Processes and their threads interleave between the system calls: a lock
  file is opened by name, \<open>flock\<close> works on the opened file, and a process may die at any time.  The holder of a file lock is the
  place where the owning open file is kept: the table \<open>_HANDLES\<close> of a process, or a local variable of a thread.
\<close>

section \<open>The registry of thread locks\<close>

type_synonym registry = "(int \<times> nat) list"

definition MAX_LOCKS :: nat where
  "MAX_LOCKS = 4096"

fun prune_loop :: "(nat \<Rightarrow> bool) \<Rightarrow> registry \<Rightarrow> registry \<Rightarrow> registry" where
  "prune_loop locked [] reg = reg"
| "prune_loop locked ((sid, l) # rest) reg =
     (if length reg \<le> MAX_LOCKS then reg
      else prune_loop locked rest (if locked l then reg else ddel sid reg))"

definition prune_unlocked_locks :: "(nat \<Rightarrow> bool) \<Rightarrow> registry \<Rightarrow> registry" where
  "prune_unlocked_locks locked reg = (if length reg \<le> MAX_LOCKS then reg else prune_loop locked reg reg)"

text \<open>The lock of a stream, \<open>fresh\<close> being the next lock object; the result is none where the code raises \<open>KeyError\<close>.\<close>

definition get_lock :: "(nat \<Rightarrow> bool) \<Rightarrow> nat \<Rightarrow> int \<Rightarrow> registry \<Rightarrow> nat option \<times> registry" where
  "get_lock locked fresh sid reg =
     (let reg1 = (if dget reg sid = None then prune_unlocked_locks locked (dset sid fresh reg) else reg)
      in (dget reg1 sid, reg1))"

definition discard_lock :: "(nat \<Rightarrow> bool) \<Rightarrow> int \<Rightarrow> registry \<Rightarrow> registry" where
  "discard_lock locked sid reg = (case dget reg sid of
     Some l \<Rightarrow> if locked l then reg else ddel sid reg | None \<Rightarrow> reg)"

section \<open>Processes, threads and lock files\<close>

datatype lock_kind = Run_Lock | Worker_Lock

type_synonym lock_key = "lock_kind \<times> int"

datatype holder = In_Table nat lock_key | In_Thread nat nat

text \<open>
  Where a thread is: with the lock object of a stream in hand, with that lock held, in \<open>try_acquire\<close> between opening and locking
  the file, as owner, in \<open>release\<close> after the table entry is gone, at the three points of \<open>is_held\<close>, or in the
  clean-up about to remove a file.
\<close>

datatype pc =
    Idle
  | Got int nat
  | Held int nat
  | Opened lock_key nat "nat option"
  | Owner lock_key "nat option"
  | Popped lock_key nat "nat option"
  | Checked lock_key
  | Probed lock_key nat
  | Probing lock_key nat
  | Removing lock_key

record lock_world =
  lw_names :: "lock_key \<rightharpoonup> nat"
  lw_next :: nat
  lw_flock :: "nat \<rightharpoonup> holder"
  lw_handles :: "nat \<Rightarrow> lock_key \<rightharpoonup> nat"
  lw_guard :: "nat \<rightharpoonup> nat"
  lw_registry :: "nat \<Rightarrow> registry"
  lw_locked :: "nat set"
  lw_fresh :: nat
  lw_pc :: "nat \<times> nat \<Rightarrow> pc"

definition set_pc :: "nat \<Rightarrow> nat \<Rightarrow> pc \<Rightarrow> lock_world \<Rightarrow> lock_world" where
  "set_pc p t c w = w\<lparr>lw_pc := (lw_pc w)((p, t) := c)\<rparr>"

text \<open>Opening a lock file creates it when its name is free.\<close>

definition open_file :: "lock_key \<Rightarrow> lock_world \<Rightarrow> nat \<times> lock_world" where
  "open_file k w = (case lw_names w k of
     Some i \<Rightarrow> (i, w)
   | None \<Rightarrow> (lw_next w, w\<lparr>lw_names := (lw_names w)(k \<mapsto> lw_next w), lw_next := Suc (lw_next w)\<rparr>))"

definition unlock_thread :: "nat option \<Rightarrow> lock_world \<Rightarrow> lock_world" where
  "unlock_thread l w = w\<lparr>lw_locked := lw_locked w - set_option l\<rparr>"

definition fetch_lock :: "nat \<Rightarrow> int \<Rightarrow> lock_world \<Rightarrow> nat option \<times> lock_world" where
  "fetch_lock p sid w = (case get_lock (\<lambda>l. l \<in> lw_locked w) (lw_fresh w) sid (lw_registry w p) of
     (l, reg) \<Rightarrow> (l, w\<lparr>lw_registry := (lw_registry w)(p := reg), lw_fresh := Suc (lw_fresh w)\<rparr>))"

text \<open>\<open>try_acquire\<close>: up to the opened file, with the guard of the process held, and the attempt to lock it.\<close>

definition acquire_open :: "nat \<Rightarrow> nat \<Rightarrow> lock_key \<Rightarrow> nat option \<Rightarrow> lock_world \<Rightarrow> lock_world" where
  "acquire_open p t k l w = (case open_file k w of
     (i, w1) \<Rightarrow> set_pc p t (Opened k i l) (w1\<lparr>lw_guard := (lw_guard w1)(p \<mapsto> t)\<rparr>))"

definition acquire_flock :: "nat \<Rightarrow> nat \<Rightarrow> lock_key \<Rightarrow> nat \<Rightarrow> nat option \<Rightarrow> lock_world \<Rightarrow> lock_world" where
  "acquire_flock p t k i l w =
     (let w1 = w\<lparr>lw_guard := (lw_guard w)(p := None)\<rparr>
      in if lw_flock w i = None then
           set_pc p t (Owner k l)
             (w1\<lparr>lw_flock := (lw_flock w)(i \<mapsto> In_Table p k), lw_handles := (lw_handles w)(p := (lw_handles w p)(k \<mapsto> i))\<rparr>)
         else set_pc p t Idle (unlock_thread l w1))"

definition release_pop :: "nat \<Rightarrow> nat \<Rightarrow> lock_key \<Rightarrow> nat option \<Rightarrow> lock_world \<Rightarrow> lock_world" where
  "release_pop p t k l w = (case lw_handles w p k of
     None \<Rightarrow> set_pc p t Idle (unlock_thread l w)
   | Some i \<Rightarrow> set_pc p t (Popped k i l)
       (w\<lparr>lw_flock := (lw_flock w)(i \<mapsto> In_Thread p t), lw_handles := (lw_handles w)(p := (lw_handles w p)(k := None))\<rparr>))"

definition release_unlock :: "nat \<Rightarrow> nat \<Rightarrow> nat \<Rightarrow> nat option \<Rightarrow> lock_world \<Rightarrow> lock_world" where
  "release_unlock p t i l w = set_pc p t Idle (unlock_thread l (w\<lparr>lw_flock := (lw_flock w)(i := None)\<rparr>))"

text \<open>\<open>is_held\<close> after its look into the table.\<close>

definition probe_open :: "nat \<Rightarrow> nat \<Rightarrow> lock_key \<Rightarrow> lock_world \<Rightarrow> lock_world" where
  "probe_open p t k w = (case open_file k w of (i, w1) \<Rightarrow> set_pc p t (Probed k i) w1)"

definition probe_flock :: "nat \<Rightarrow> nat \<Rightarrow> lock_key \<Rightarrow> nat \<Rightarrow> lock_world \<Rightarrow> lock_world" where
  "probe_flock p t k i w =
     (if lw_flock w i = None then set_pc p t (Probing k i) (w\<lparr>lw_flock := (lw_flock w)(i \<mapsto> In_Thread p t)\<rparr>)
      else set_pc p t Idle w)"

definition probe_unlock :: "nat \<Rightarrow> nat \<Rightarrow> nat \<Rightarrow> pc \<Rightarrow> lock_world \<Rightarrow> lock_world" where
  "probe_unlock p t i c w = set_pc p t c (w\<lparr>lw_flock := (lw_flock w)(i := None)\<rparr>)"

text \<open>The kernel drops the locks of a process that dies.\<close>

fun holder_process :: "holder \<Rightarrow> nat" where
  "holder_process (In_Table p k) = p"
| "holder_process (In_Thread p t) = p"

definition crash :: "nat \<Rightarrow> lock_world \<Rightarrow> lock_world" where
  "crash p w = w\<lparr>lw_flock := (\<lambda>i. case lw_flock w i of None \<Rightarrow> None | Some h \<Rightarrow> if holder_process h = p then None else Some h),
     lw_handles := (lw_handles w)(p := Map.empty), lw_guard := (lw_guard w)(p := None),
     lw_registry := (lw_registry w)(p := []), lw_pc := (\<lambda>(q, t). if q = p then Idle else lw_pc w (q, t))\<rparr>"

definition boot :: lock_world where
  "boot = \<lparr>lw_names = Map.empty, lw_next = 0, lw_flock = Map.empty, lw_handles = (\<lambda>p. Map.empty), lw_guard = Map.empty,
     lw_registry = (\<lambda>p. []), lw_locked = {}, lw_fresh = 0, lw_pc = (\<lambda>x. Idle)\<rparr>"

text \<open>One step of one thread.  The clean-up of lock files takes part only if \<open>cleanup\<close>.\<close>

inductive lock_step :: "bool \<Rightarrow> lock_world \<Rightarrow> lock_world \<Rightarrow> bool" for cleanup where
  fetch: "lw_pc w (p, t) = Idle \<Longrightarrow> fetch_lock p sid w = (Some l, w1) \<Longrightarrow> lock_step cleanup w (set_pc p t (Got sid l) w1)"
| fetch_raises: "lw_pc w (p, t) = Idle \<Longrightarrow> fetch_lock p sid w = (None, w1) \<Longrightarrow> lock_step cleanup w w1"
| lock: "lw_pc w (p, t) = Got sid l \<Longrightarrow> l \<notin> lw_locked w \<Longrightarrow>
    lock_step cleanup w (set_pc p t (Held sid l) (w\<lparr>lw_locked := insert l (lw_locked w)\<rparr>))"
| lock_busy: "lw_pc w (p, t) = Got sid l \<Longrightarrow> l \<in> lw_locked w \<Longrightarrow> lock_step cleanup w (set_pc p t Idle w)"
| enter: "lw_pc w (p, t) = Held sid l \<Longrightarrow> lw_guard w p = None \<Longrightarrow> lw_handles w p (Run_Lock, sid) = None \<Longrightarrow>
    lock_step cleanup w (acquire_open p t (Run_Lock, sid) (Some l) w)"
| refuse: "lw_pc w (p, t) = Held sid l \<Longrightarrow> lw_guard w p = None \<Longrightarrow> lw_handles w p (Run_Lock, sid) = Some i \<Longrightarrow>
    lock_step cleanup w (set_pc p t Idle (unlock_thread (Some l) w))"
| enter_worker: "lw_pc w (p, t) = Idle \<Longrightarrow> lw_guard w p = None \<Longrightarrow> lw_handles w p (Worker_Lock, sid) = None \<Longrightarrow>
    lock_step cleanup w (acquire_open p t (Worker_Lock, sid) None w)"
| flock: "lw_pc w (p, t) = Opened k i l \<Longrightarrow> lock_step cleanup w (acquire_flock p t k i l w)"
| pop: "lw_pc w (p, t) = Owner k l \<Longrightarrow> lw_guard w p = None \<Longrightarrow> lock_step cleanup w (release_pop p t k l w)"
| unlock: "lw_pc w (p, t) = Popped k i l \<Longrightarrow> lock_step cleanup w (release_unlock p t i l w)"
| check: "lw_pc w (p, t) = Idle \<Longrightarrow> lw_guard w p = None \<Longrightarrow> lw_handles w p k = None \<Longrightarrow>
    lock_step cleanup w (set_pc p t (Checked k) w)"
| probe: "lw_pc w (p, t) = Checked k \<Longrightarrow> lock_step cleanup w (probe_open p t k w)"
| probe_lock: "lw_pc w (p, t) = Probed k i \<Longrightarrow> lock_step cleanup w (probe_flock p t k i w)"
| probe_end: "lw_pc w (p, t) = Probing k i \<Longrightarrow> lock_step cleanup w (probe_unlock p t i Idle w)"
| clean_end: "cleanup \<Longrightarrow> lw_pc w (p, t) = Probing k i \<Longrightarrow> lock_step cleanup w (probe_unlock p t i (Removing k) w)"
| remove: "cleanup \<Longrightarrow> lw_pc w (p, t) = Removing k \<Longrightarrow>
    lock_step cleanup w (set_pc p t Idle (w\<lparr>lw_names := (lw_names w)(k := None)\<rparr>))"
| discard: "lock_step cleanup w (w\<lparr>lw_registry := (lw_registry w)(p := discard_lock (\<lambda>l. l \<in> lw_locked w) sid (lw_registry w p))\<rparr>)"
| die: "lock_step cleanup w (crash p w)"

section \<open>The invariant\<close>

text \<open>Every name has a file of its own; every table entry and every thread knows the file of its name; every file lock has its holder.\<close>

definition names_ok :: "(lock_key \<rightharpoonup> nat) \<Rightarrow> nat \<Rightarrow> bool" where
  "names_ok names nx \<longleftrightarrow> (\<forall>k i. names k = Some i \<longrightarrow> i < nx) \<and> (\<forall>k k' i. names k = Some i \<and> names k' = Some i \<longrightarrow> k = k')"

definition table_ok :: "(lock_key \<rightharpoonup> nat) \<Rightarrow> (nat \<rightharpoonup> holder) \<Rightarrow> (nat \<Rightarrow> lock_key \<rightharpoonup> nat) \<Rightarrow> bool" where
  "table_ok names flock tab \<longleftrightarrow> (\<forall>p k i. tab p k = Some i \<longrightarrow> names k = Some i \<and> flock i = Some (In_Table p k))"

fun thread_ok ::
  "(lock_key \<rightharpoonup> nat) \<Rightarrow> (nat \<rightharpoonup> holder) \<Rightarrow> (nat \<Rightarrow> lock_key \<rightharpoonup> nat) \<Rightarrow> (nat \<rightharpoonup> nat) \<Rightarrow> nat \<Rightarrow> nat \<Rightarrow> pc \<Rightarrow> bool" where
  "thread_ok names flock tab guard p t (Opened k i l) \<longleftrightarrow> names k = Some i \<and> tab p k = None \<and> guard p = Some t"
| "thread_ok names flock tab guard p t (Owner k l) \<longleftrightarrow> tab p k \<noteq> None"
| "thread_ok names flock tab guard p t (Popped k i l) \<longleftrightarrow> names k = Some i \<and> flock i = Some (In_Thread p t)"
| "thread_ok names flock tab guard p t (Probed k i) \<longleftrightarrow> names k = Some i"
| "thread_ok names flock tab guard p t (Probing k i) \<longleftrightarrow> names k = Some i \<and> flock i = Some (In_Thread p t)"
| "thread_ok names flock tab guard p t (Removing k) \<longleftrightarrow> False"
| "thread_ok names flock tab guard p t c \<longleftrightarrow> True"

definition owners_ok :: "(nat \<times> nat \<Rightarrow> pc) \<Rightarrow> bool" where
  "owners_ok pcs \<longleftrightarrow> (\<forall>p t t' k l l'. pcs (p, t) = Owner k l \<and> pcs (p, t') = Owner k l' \<longrightarrow> t = t')"

fun held_ok :: "(lock_key \<rightharpoonup> nat) \<Rightarrow> (nat \<times> nat \<Rightarrow> pc) \<Rightarrow> nat \<Rightarrow> holder \<Rightarrow> bool" where
  "held_ok names pcs i (In_Table p k) \<longleftrightarrow> names k = Some i \<and> (\<exists>t l. pcs (p, t) = Owner k l)"
| "held_ok names pcs i (In_Thread p t) \<longleftrightarrow> (\<exists>k. (\<exists>l. pcs (p, t) = Popped k i l) \<or> pcs (p, t) = Probing k i)"

definition lock_inv :: "lock_world \<Rightarrow> bool" where
  "lock_inv w \<longleftrightarrow> names_ok (lw_names w) (lw_next w) \<and> table_ok (lw_names w) (lw_flock w) (lw_handles w) \<and>
     (\<forall>p t. thread_ok (lw_names w) (lw_flock w) (lw_handles w) (lw_guard w) p t (lw_pc w (p, t))) \<and>
     owners_ok (lw_pc w) \<and> (\<forall>i h. lw_flock w i = Some h \<longrightarrow> held_ok (lw_names w) (lw_pc w) i h)"

lemma boot_inv: "lock_inv boot"
  by (simp add: boot_def lock_inv_def names_ok_def table_ok_def owners_ok_def)

lemma inv_thread: "lock_inv w \<Longrightarrow> thread_ok (lw_names w) (lw_flock w) (lw_handles w) (lw_guard w) p t (lw_pc w (p, t))"
  by (simp add: lock_inv_def)

lemma inv_held: "lock_inv w \<Longrightarrow> lw_flock w i = Some h \<Longrightarrow> held_ok (lw_names w) (lw_pc w) i h"
  by (simp add: lock_inv_def)

lemma inv_table: "lock_inv w \<Longrightarrow> lw_handles w p k = Some i \<Longrightarrow> lw_names w k = Some i \<and> lw_flock w i = Some (In_Table p k)"
  unfolding lock_inv_def table_ok_def by blast

lemma inv_owner: "lock_inv w \<Longrightarrow> lw_pc w (p, t) = Owner k l \<Longrightarrow> lw_pc w (p, t') = Owner k l' \<Longrightarrow> t = t'"
  unfolding lock_inv_def owners_ok_def by blast

lemma inv_local:
  assumes "lock_inv w" "lw_flock w i = Some (In_Thread p t)"
  shows "\<exists>k. (\<exists>l. lw_pc w (p, t) = Popped k i l) \<or> lw_pc w (p, t) = Probing k i"
  using inv_held [OF assms] by simp

lemma owners_move: "owners_ok pcs \<Longrightarrow> (\<And>k l. c \<noteq> Owner k l) \<Longrightarrow> owners_ok (pcs((p, t) := c))"
  unfolding owners_ok_def by (metis fun_upd_apply)

text \<open>The other threads and the other holders when one thread moves.\<close>

lemma thread_keep:
  assumes "thread_ok n f h g q s c" "\<And>j. f j = Some (In_Thread q s) \<Longrightarrow> f' j = Some (In_Thread q s)"
    and "\<And>k i l. c = Opened k i l \<Longrightarrow> h' q k = None \<and> g' q = g q" "\<And>k l. c = Owner k l \<Longrightarrow> h' q k \<noteq> None"
  shows "thread_ok n f' h' g' q s c"
  using assms by (cases c) auto

lemma threads_move:
  assumes "\<And>q s. (q, s) \<noteq> (p, t) \<Longrightarrow> thread_ok n f h g q s (pcs (q, s))" "thread_ok n f h g p t c"
  shows "thread_ok n f h g q s ((pcs((p, t) := c)) (q, s))"
  using assms by (cases "(q, s) = (p, t)") auto

lemma held_moves:
  assumes "held_ok names pcs i h" "\<And>k l. pcs (p, t) = Owner k l \<Longrightarrow> names k \<noteq> Some i" "h \<noteq> In_Thread p t"
  shows "held_ok names (pcs((p, t) := c)) i h"
proof (cases h)
  case (In_Table q k)
  with assms obtain s l where "names k = Some i" "pcs (q, s) = Owner k l" by auto
  moreover have "(q, s) \<noteq> (p, t)" using calculation assms(2) by metis
  ultimately show ?thesis using In_Table by auto
next
  case (In_Thread q s)
  then have "(q, s) \<noteq> (p, t)" using assms(3) by auto
  with In_Thread assms(1) show ?thesis by auto
qed

text \<open>A thread that holds no file and moves to a point where it holds none.\<close>

lemma no_local:
  assumes "lock_inv w" "\<And>k i l. lw_pc w (p, t) \<noteq> Popped k i l" "\<And>k i. lw_pc w (p, t) \<noteq> Probing k i"
  shows "lw_flock w i \<noteq> Some (In_Thread p t)"
  using inv_local [OF assms(1)] assms(2,3) by metis

lemma thread_moves:
  assumes "lock_inv w" "\<And>i. lw_flock w i \<noteq> Some (In_Thread p t)"
    and "thread_ok (lw_names w) (lw_flock w) (lw_handles w) (lw_guard w) p t c"
    and "\<And>k l. c \<noteq> Owner k l" "\<And>k l. lw_pc w (p, t) \<noteq> Owner k l"
  shows "lock_inv (set_pc p t c w)"
proof -
  have "held_ok (lw_names w) ((lw_pc w)((p, t) := c)) i h" if "lw_flock w i = Some h" for i h
    by (rule held_moves) (use inv_held [OF assms(1) that] assms(2,5) that in auto)
  moreover have "owners_ok ((lw_pc w)((p, t) := c))" using assms(1,4) by (intro owners_move) (auto simp: lock_inv_def)
  ultimately show ?thesis using assms(1,3) by (simp add: lock_inv_def set_pc_def)
qed

lemma open_file_inv:
  assumes "lock_inv w" "open_file k w = (i, w1)"
  shows "lock_inv w1" "lw_names w1 k = Some i" "lw_pc w1 = lw_pc w" "lw_handles w1 = lw_handles w" "lw_guard w1 = lw_guard w"
    "lw_flock w1 = lw_flock w"
proof -
  show eqs: "lw_names w1 k = Some i" "lw_pc w1 = lw_pc w" "lw_handles w1 = lw_handles w" "lw_guard w1 = lw_guard w" "lw_flock w1 = lw_flock w"
    using assms(2) by (auto simp: open_file_def split: option.splits)
  have keep: "lw_names w x = Some j \<Longrightarrow> lw_names w1 x = Some j" for x j
    using assms(2) by (auto simp: open_file_def split: option.splits)
  have "names_ok (lw_names w) (lw_next w)" using assms(1) by (simp add: lock_inv_def)
  then have "names_ok (lw_names w1) (lw_next w1)"
    using assms(2) by (auto simp: names_ok_def open_file_def less_SucI split: option.splits if_splits)
       (metis less_irrefl)+
  moreover have "thread_ok (lw_names w) f h g p t c \<Longrightarrow> thread_ok (lw_names w1) f h g p t c" for f h g p t c
    using keep by (cases c) auto
  moreover have "table_ok (lw_names w) f h \<Longrightarrow> table_ok (lw_names w1) f h" for f h
    using keep unfolding table_ok_def by blast
  moreover have "held_ok (lw_names w) c j h \<Longrightarrow> held_ok (lw_names w1) c j h" for c j h
    using keep by (cases h) auto
  ultimately show "lock_inv w1" using assms(1) unfolding lock_inv_def eqs(2-) by blast
qed

section \<open>Every step keeps the invariant\<close>

lemma acquire_open_inv:
  assumes "lock_inv w" "lw_guard w p = None" "lw_handles w p k = None" "lw_pc w (p, t) = Idle \<or> (\<exists>s l. lw_pc w (p, t) = Held s l)"
  shows "lock_inv (acquire_open p t k l w)"
proof -
  obtain i w1 where o: "open_file k w = (i, w1)" by fastforce
  note op = open_file_inv [OF assms(1) o]
  let ?w = "w1\<lparr>lw_guard := (lw_guard w1)(p \<mapsto> t)\<rparr>"
  have "thread_ok n f h (lw_guard w) q s c \<Longrightarrow> thread_ok n f h ((lw_guard w)(p \<mapsto> t)) q s c" for n f h q s c
    using assms(2) by (cases c) auto
  then have i: "lock_inv ?w" using op by (simp add: lock_inv_def)
  have "lw_flock ?w j \<noteq> Some (In_Thread p t)" for j
    using no_local [OF assms(1), of p t j] assms(4) op by auto
  then have "lock_inv (set_pc p t (Opened k i l) ?w)"
    by (intro thread_moves [OF i]) (use assms op in auto)
  then show ?thesis by (simp add: acquire_open_def o)
qed

lemma acquire_flock_inv:
  assumes "lock_inv w" "lw_pc w (p, t) = Opened k i l"
  shows "lock_inv (acquire_flock p t k i l w)"
proof -
  have op: "lw_names w k = Some i" "lw_handles w p k = None" "lw_guard w p = Some t"
    using inv_thread [OF assms(1), of p t] assms(2) by auto
  have no: "lw_flock w j \<noteq> Some (In_Thread p t)" for j using no_local [OF assms(1)] assms(2) by simp
  let ?g = "(lw_guard w)(p := None)"
  have guard: "q \<noteq> p" if "lw_pc w (q, s) = Opened k' j l'" "(q, s) \<noteq> (p, t)" for q s k' j l'
    using inv_thread [OF assms(1), of q s] that op(3) by auto
  show ?thesis
  proof (cases "lw_flock w i = None")
    case True
    let ?f = "(lw_flock w)(i \<mapsto> In_Table p k)" and ?h = "(lw_handles w)(p := (lw_handles w p)(k \<mapsto> i))"
    let ?c = "(lw_pc w)((p, t) := Owner k l)"
    have own: "lw_pc w (p, s) \<noteq> Owner k l'" for s l' using inv_thread [OF assms(1), of p s] op(2) by auto
    have "table_ok (lw_names w) ?f ?h" using inv_table [OF assms(1)] op True by (auto simp: table_ok_def)
    moreover have "thread_ok (lw_names w) ?f ?h ?g q s (?c (q, s))" for q s
    proof (rule threads_move)
      fix q s assume o: "(q, s) \<noteq> (p, t)"
      note t = inv_thread [OF assms(1), of q s]
      show "thread_ok (lw_names w) ?f ?h ?g q s (lw_pc w (q, s))"
      proof (rule thread_keep [OF t])
        fix k' j l' assume c: "lw_pc w (q, s) = Opened k' j l'"
        then show "?h q k' = None \<and> ?g q = lw_guard w q" using guard [OF c o] t by simp
      next
        fix k' l' assume "lw_pc w (q, s) = Owner k' l'"
        then show "?h q k' \<noteq> None" using t by auto
      qed (use True in auto)
    qed simp
    moreover have "owners_ok ?c"
      unfolding owners_ok_def using inv_owner [OF assms(1)] own by (simp split: if_splits) blast
    moreover have "held_ok (lw_names w) ?c j h" if "?f j = Some h" for j h
    proof (cases "j = i")
      case False
      then have "lw_flock w j = Some h" using that by simp
      then show ?thesis by (intro held_moves) (use inv_held [OF assms(1)] no assms(2) in auto)
    qed (use that op in auto)
    ultimately show ?thesis using assms(1) True by (simp add: acquire_flock_def lock_inv_def set_pc_def Let_def)
  next
    case False
    have "thread_ok (lw_names w) (lw_flock w) (lw_handles w) ?g q s (((lw_pc w)((p, t) := Idle)) (q, s))" for q s
    proof (rule threads_move)
      fix q s assume o: "(q, s) \<noteq> (p, t)"
      note t = inv_thread [OF assms(1), of q s]
      show "thread_ok (lw_names w) (lw_flock w) (lw_handles w) ?g q s (lw_pc w (q, s))"
      proof (rule thread_keep [OF t])
        fix k' j l' assume c: "lw_pc w (q, s) = Opened k' j l'"
        then show "lw_handles w q k' = None \<and> ?g q = lw_guard w q" using guard [OF c o] t by simp
      qed (use t in simp_all)
    qed simp
    moreover have "owners_ok ((lw_pc w)((p, t) := Idle))" using assms(1) by (intro owners_move) (auto simp: lock_inv_def)
    moreover have "held_ok (lw_names w) ((lw_pc w)((p, t) := Idle)) j h" if "lw_flock w j = Some h" for j h
      by (rule held_moves) (use inv_held [OF assms(1) that] that no assms(2) in auto)
    moreover have "acquire_flock p t k i l w = set_pc p t Idle (unlock_thread l (w\<lparr>lw_guard := ?g\<rparr>))"
      using False by (auto simp: acquire_flock_def Let_def)
    ultimately show ?thesis using assms(1) by (simp add: lock_inv_def set_pc_def unlock_thread_def)
  qed
qed

lemma release_pop_inv:
  assumes "lock_inv w" "lw_pc w (p, t) = Owner k l"
  shows "lock_inv (release_pop p t k l w)"
proof -
  obtain i where i: "lw_handles w p k = Some i" using inv_thread [OF assms(1), of p t] assms(2) by auto
  note f = inv_table [OF assms(1) i]
  have no: "lw_flock w j \<noteq> Some (In_Thread p t)" for j using no_local [OF assms(1)] assms(2) by simp
  let ?f = "(lw_flock w)(i \<mapsto> In_Thread p t)" and ?h = "(lw_handles w)(p := (lw_handles w p)(k := None))"
  let ?c = "(lw_pc w)((p, t) := Popped k i l)"
  have "table_ok (lw_names w) ?f ?h" unfolding table_ok_def
  proof (intro allI impI)
    fix q k' j assume h: "?h q k' = Some j"
    then have "lw_handles w q k' = Some j" "(q, k') \<noteq> (p, k)" by (auto split: if_splits)
    then show "lw_names w k' = Some j \<and> ?f j = Some (In_Table q k')" using inv_table [OF assms(1), of q k' j] f by auto
  qed
  moreover have "thread_ok (lw_names w) ?f ?h (lw_guard w) q s (?c (q, s))" for q s
  proof (rule threads_move)
    fix q s assume o: "(q, s) \<noteq> (p, t)"
    note t = inv_thread [OF assms(1), of q s]
    show "thread_ok (lw_names w) ?f ?h (lw_guard w) q s (lw_pc w (q, s))"
    proof (rule thread_keep [OF t])
      fix k' l' assume c: "lw_pc w (q, s) = Owner k' l'"
      then have "(q, k') \<noteq> (p, k)" using inv_owner [OF assms(1), of p t k l s l'] assms(2) o by auto
      then show "?h q k' \<noteq> None" using t c by auto
    qed (use t f in auto)
  qed (use f in simp)
  moreover have "owners_ok ?c" using assms(1) by (intro owners_move) (auto simp: lock_inv_def)
  moreover have "held_ok (lw_names w) ?c j h" if "?f j = Some h" for j h
  proof (cases "j = i")
    case False
    then have "lw_flock w j = Some h" using that by simp
    then show ?thesis by (intro held_moves) (use inv_held [OF assms(1)] no assms(2) f False in auto)
  qed (use that in auto)
  ultimately show ?thesis using assms(1) i by (simp add: release_pop_def lock_inv_def set_pc_def)
qed

text \<open>Steps that change one file lock and keep the tables.\<close>

lemma flock_change:
  assumes "lock_inv w" "\<And>p k. lw_flock w i \<noteq> Some (In_Table p k)" "\<And>q s. lw_flock w i = Some (In_Thread q s) \<Longrightarrow> (q, s) = (p, t)"
    and "\<And>k l. c \<noteq> Owner k l" "\<And>k l. lw_pc w (p, t) \<noteq> Owner k l" "\<And>j. lw_flock w j = Some (In_Thread p t) \<Longrightarrow> j = i"
    and "thread_ok (lw_names w) ((lw_flock w)(i := v)) (lw_handles w) (lw_guard w) p t c"
    and "\<And>h. v = Some h \<Longrightarrow> held_ok (lw_names w) ((lw_pc w)((p, t) := c)) i h"
  shows "lock_inv (set_pc p t c (w\<lparr>lw_flock := (lw_flock w)(i := v)\<rparr>))"
proof -
  let ?f = "(lw_flock w)(i := v)" and ?c = "(lw_pc w)((p, t) := c)"
  have "table_ok (lw_names w) ?f (lw_handles w)" unfolding table_ok_def
  proof (intro allI impI)
    fix q k j assume "lw_handles w q k = Some j"
    from inv_table [OF assms(1) this] assms(2) [of q k] show "lw_names w k = Some j \<and> ?f j = Some (In_Table q k)" by auto
  qed
  moreover have "thread_ok (lw_names w) ?f (lw_handles w) (lw_guard w) q s (?c (q, s))" for q s
  proof (rule threads_move)
    fix q s assume o: "(q, s) \<noteq> (p, t)"
    note t = inv_thread [OF assms(1), of q s]
    show "thread_ok (lw_names w) ?f (lw_handles w) (lw_guard w) q s (lw_pc w (q, s))"
      by (rule thread_keep [OF t]) (use t o assms(3) [of q s] in auto)
  qed (rule assms(7))
  moreover have "owners_ok ?c" using assms(1,4) by (intro owners_move) (auto simp: lock_inv_def)
  moreover have "held_ok (lw_names w) ?c j h" if "?f j = Some h" for j h
  proof (cases "j = i")
    case False
    then have j: "lw_flock w j = Some h" using that by simp
    then have "h \<noteq> In_Thread p t" using assms(6) [of j] False by auto
    then show ?thesis by (intro held_moves) (use inv_held [OF assms(1) j] assms(5) in auto)
  qed (use that assms(8) in auto)
  ultimately show ?thesis using assms(1) by (simp add: lock_inv_def set_pc_def)
qed

lemma close_local_inv:
  assumes "lock_inv w" "(\<exists>l. lw_pc w (p, t) = Popped k i l) \<or> lw_pc w (p, t) = Probing k i"
  shows "lock_inv (set_pc p t Idle (w\<lparr>lw_flock := (lw_flock w)(i := None)\<rparr>))"
proof -
  have f: "lw_flock w i = Some (In_Thread p t)" using inv_thread [OF assms(1), of p t] assms(2) by auto
  have one: "j = i" if "lw_flock w j = Some (In_Thread p t)" for j using inv_local [OF assms(1) that] assms(2) by auto
  have "\<And>k l. lw_pc w (p, t) \<noteq> Owner k l" using assms(2) by auto
  then show ?thesis
    by (intro flock_change [OF assms(1) _ _ _ _ one]) (simp_all add: f)
qed

lemma probe_flock_inv:
  assumes "lock_inv w" "lw_pc w (p, t) = Probed k i"
  shows "lock_inv (probe_flock p t k i w)"
proof -
  have n: "lw_names w k = Some i" using inv_thread [OF assms(1), of p t] assms(2) by auto
  have no: "lw_flock w j \<noteq> Some (In_Thread p t)" for j using no_local [OF assms(1)] assms(2) by simp
  show ?thesis
  proof (cases "lw_flock w i = None")
    case True
    have "lock_inv (set_pc p t (Probing k i) (w\<lparr>lw_flock := (lw_flock w)(i := Some (In_Thread p t))\<rparr>))"
      by (rule flock_change [OF assms(1)]) (use True n no assms(2) in auto)
    then show ?thesis using True by (simp add: probe_flock_def)
  next
    case False
    then show ?thesis using thread_moves [OF assms(1) no] assms(2) by (auto simp: probe_flock_def)
  qed
qed

lemma crash_inv:
  assumes "lock_inv w"
  shows "lock_inv (crash p w)"
proof -
  let ?w = "crash p w"
  have eqs: "lw_names ?w = lw_names w" "lw_next ?w = lw_next w" "lw_pc ?w (q, t) = (if q = p then Idle else lw_pc w (q, t))"
    "lw_handles ?w q = (if q = p then Map.empty else lw_handles w q)" "lw_guard ?w q = (if q = p then None else lw_guard w q)" for q t
    by (auto simp: crash_def)
  have f: "lw_flock ?w i = Some h \<longleftrightarrow> lw_flock w i = Some h \<and> holder_process h \<noteq> p" for i h
    by (auto simp: crash_def split: option.splits if_splits)
  have "table_ok (lw_names ?w) (lw_flock ?w) (lw_handles ?w)" unfolding table_ok_def
  proof (intro allI impI)
    fix q k i assume "lw_handles ?w q k = Some i"
    then have "lw_handles w q k = Some i" "q \<noteq> p" by (auto simp: eqs split: if_splits)
    from inv_table [OF assms this(1)] this(2) show "lw_names ?w k = Some i \<and> lw_flock ?w i = Some (In_Table q k)" by (simp add: eqs f)
  qed
  moreover have "thread_ok (lw_names ?w) (lw_flock ?w) (lw_handles ?w) (lw_guard ?w) q s (lw_pc ?w (q, s))" for q s
    using inv_thread [OF assms, of q s] by (cases "q = p"; cases "lw_pc w (q, s)") (auto simp: eqs f)
  moreover have "owners_ok (lw_pc ?w)" unfolding owners_ok_def eqs using inv_owner [OF assms] by (auto split: if_splits)
  moreover have "held_ok (lw_names ?w) (lw_pc ?w) i h" if "lw_flock ?w i = Some h" for i h
    using inv_held [OF assms, of i h] that by (cases h) (auto simp: eqs f)
  ultimately show ?thesis using assms unfolding lock_inv_def eqs(2) by (simp add: eqs(1) lock_inv_def)
qed

lemma fetch_keeps: "fetch_lock p sid w = (r, w1) \<Longrightarrow> lock_inv w1 = lock_inv w \<and> lw_pc w1 = lw_pc w"
  by (auto simp: fetch_lock_def lock_inv_def simp del: split_paired_All split: prod.splits)

lemma unlock_thread_inv [simp]: "lock_inv (unlock_thread l w) = lock_inv w"
  by (simp add: unlock_thread_def lock_inv_def)

lemma set_pc_unlock: "set_pc p t c (unlock_thread l w) = unlock_thread l (set_pc p t c w)"
  by (simp add: set_pc_def unlock_thread_def)

text \<open>A thread that holds nothing goes to another point where it holds nothing.\<close>

lemma harmless_move:
  assumes "lock_inv w" "lw_pc w (p, t) \<in> {Idle, Checked k} \<or> (\<exists>s l. lw_pc w (p, t) = Got s l \<or> lw_pc w (p, t) = Held s l)"
    and "c = Idle \<or> c = Checked k' \<or> (\<exists>s l. c = Got s l \<or> c = Held s l)"
  shows "lock_inv (set_pc p t c w)"
  by (rule thread_moves [OF assms(1) no_local [OF assms(1)]]) (use assms(2,3) in auto)

lemma step_inv: "lock_step False w w' \<Longrightarrow> lock_inv w \<Longrightarrow> lock_inv w'"
proof (induction rule: lock_step.induct)
  case (fetch w p t sid l w1)
  then show ?case using fetch_keeps [OF fetch(2)] harmless_move [of w1 p t] by simp
next
  case (lock w p t sid l)
  have "lock_inv (w\<lparr>lw_locked := insert l (lw_locked w)\<rparr>)" using lock(3) by (simp add: lock_inv_def)
  then show ?case by (rule harmless_move) (use lock in auto)
next
  case (refuse w p t sid l i)
  then show ?case using harmless_move [of w p t _ Idle] by (simp add: set_pc_unlock)
next
  case (unlock w p t k i l)
  then show ?case using close_local_inv [of w p t k i] by (simp add: release_unlock_def set_pc_unlock)
next
  case (probe w p t k)
  obtain i w1 where o: "open_file k w = (i, w1)" by fastforce
  note op = open_file_inv [OF probe(2) o]
  have "lock_inv (set_pc p t (Probed k i) w1)"
    by (rule thread_moves [OF op(1) no_local [OF op(1)]]) (use probe op in auto)
  then show ?case by (simp add: probe_open_def o)
next
  case (probe_end w p t k i)
  then show ?case using close_local_inv [of w p t k i] by (simp add: probe_unlock_def)
next
  case (discard w p sid)
  then show ?case by (simp add: lock_inv_def)
next
  case (lock_busy w p t sid l)
  then show ?case by (intro harmless_move) auto
next
  case (check w p t k)
  then show ?case by (intro harmless_move) auto
qed (simp_all add: acquire_open_inv acquire_flock_inv release_pop_inv probe_flock_inv crash_inv fetch_keeps)

lemma reachable_inv: "(lock_step False)\<^sup>*\<^sup>* boot w \<Longrightarrow> lock_inv w"
  by (induction rule: rtranclp_induct) (use boot_inv step_inv in blast)+

section \<open>Properties of the locks\<close>

text \<open>
  C4. One owner per lock.  Whatever threads of whatever processes do, including threads that took a lock object which
  the registry has since replaced, probes, and processes that die: no two threads own the run lock or
  the worker lock of a stream at the same time.  An owner is visible to every probe, because its file is locked; and a lock
  file is found locked only while some thread owns the lock, is giving it back, or is probing it.
\<close>

theorem run_mutual_exclusion:
  assumes "(lock_step False)\<^sup>*\<^sup>* boot w"
  shows "(lw_pc w (p, t) = Owner k l \<and> lw_pc w (p', t') = Owner k l' \<longrightarrow> (p, t) = (p', t')) \<and>
    (lw_pc w (p, t) = Owner k l \<longrightarrow> (\<exists>i. lw_names w k = Some i \<and> lw_flock w i = Some (In_Table p k))) \<and>
    (\<forall>i. lw_names w k = Some i \<and> lw_flock w i \<noteq> None \<longrightarrow>
       (\<exists>q s. (\<exists>m. lw_pc w (q, s) = Owner k m) \<or> (\<exists>m. lw_pc w (q, s) = Popped k i m) \<or> lw_pc w (q, s) = Probing k i))"
proof -
  note inv = reachable_inv [OF assms]
  have owner: "\<exists>i. lw_names w k = Some i \<and> lw_flock w i = Some (In_Table q k)" if "lw_pc w (q, s) = Owner k m" for q s m
    using inv_thread [OF inv, of q s] that inv_table [OF inv, of q k] by auto
  have "(p, t) = (p', t')" if "lw_pc w (p, t) = Owner k l" "lw_pc w (p', t') = Owner k l'"
    using owner [OF that(1)] owner [OF that(2)] inv_owner [OF inv, of p t k l t' l'] that by auto
  moreover have "\<exists>q s. (\<exists>m. lw_pc w (q, s) = Owner k m) \<or> (\<exists>m. lw_pc w (q, s) = Popped k i m) \<or> lw_pc w (q, s) = Probing k i"
    if i: "lw_names w k = Some i" and h: "lw_flock w i = Some h" for i h
  proof (cases h)
    case (In_Table q k')
    then have "lw_names w k' = Some i" "\<exists>s m. lw_pc w (q, s) = Owner k' m" using inv_held [OF inv h] by auto
    moreover have "k' = k" using calculation(1) i inv unfolding lock_inv_def names_ok_def by blast
    ultimately show ?thesis by blast
  next
    case (In_Thread q s)
    then obtain k' where k': "(\<exists>m. lw_pc w (q, s) = Popped k' i m) \<or> lw_pc w (q, s) = Probing k' i" using inv_local [OF inv] h by blast
    then have "lw_names w k' = Some i" using inv_thread [OF inv, of q s] by auto
    then have "k' = k" using i inv unfolding lock_inv_def names_ok_def by blast
    with k' show ?thesis by blast
  qed
  ultimately show ?thesis using owner by blast
qed

section \<open>What the locks do not promise\<close>

lemma dset_fresh: "dget d k = None \<Longrightarrow> dset k v d = d @ [(k, v)]"
  by (induction d) (auto split: if_splits)

lemma full_registry:
  assumes "length reg = MAX_LOCKS" "\<forall>(sid', l) \<in> set reg. locked l" "dget reg sid = None" "\<not> locked fresh"
  shows "fst (get_lock locked fresh sid reg) = None"
proof -
  have "prune_loop locked (rest @ [(sid, fresh)]) r = ddel sid r"
    if "\<forall>(sid', l) \<in> set rest. locked l" "length r = Suc MAX_LOCKS" for rest r
    using that assms(4) by (induction rest) auto
  from this [of reg "reg @ [(sid, fresh)]"] assms show ?thesis
    by (simp add: get_lock_def prune_unlocked_locks_def dset_fresh dict_simps)
qed

text \<open>A thread on its way to the run lock of a stream.\<close>

lemma reach_open:
  assumes "lw_pc w (p, t) = Idle" "lw_guard w p = None" "lw_handles w p (Run_Lock, sid) = None" "lw_registry w p = []"
    "lw_fresh w \<notin> lw_locked w"
  shows "(lock_step c)\<^sup>*\<^sup>* w (acquire_open p t (Run_Lock, sid) (Some (lw_fresh w)) (set_pc p t (Held sid (lw_fresh w))
     (w\<lparr>lw_registry := (lw_registry w)(p := [(sid, lw_fresh w)]), lw_fresh := Suc (lw_fresh w), lw_locked := insert (lw_fresh w) (lw_locked w)\<rparr>)))"
proof -
  let ?w1 = "w\<lparr>lw_registry := (lw_registry w)(p := [(sid, lw_fresh w)]), lw_fresh := Suc (lw_fresh w)\<rparr>"
  let ?w2 = "set_pc p t (Got sid (lw_fresh w)) ?w1"
  let ?w3 = "set_pc p t (Held sid (lw_fresh w)) (?w2\<lparr>lw_locked := insert (lw_fresh w) (lw_locked w)\<rparr>)"
  have "fetch_lock p sid w = (Some (lw_fresh w), ?w1)"
    using assms(4) by (simp add: fetch_lock_def get_lock_def prune_unlocked_locks_def MAX_LOCKS_def)
  then have "lock_step c w ?w2" using assms(1) by (intro lock_step.fetch)
  moreover have "lock_step c ?w2 ?w3"
    using lock_step.lock [of ?w2 p t sid "lw_fresh w" c] assms(5) by (simp add: set_pc_def)
  moreover have "lock_step c ?w3 (acquire_open p t (Run_Lock, sid) (Some (lw_fresh w)) ?w3)"
    by (rule lock_step.enter) (use assms in \<open>simp_all add: set_pc_def\<close>)
  moreover have "?w3 = set_pc p t (Held sid (lw_fresh w)) (?w1\<lparr>lw_locked := insert (lw_fresh w) (lw_locked w)\<rparr>)"
    by (simp add: set_pc_def)
  ultimately show ?thesis by (metis (no_types, lifting) converse_rtranclp_into_rtranclp rtranclp.rtrancl_refl)
qed

lemma step_then: "lock_step c w w1 \<Longrightarrow> (lock_step c)\<^sup>*\<^sup>* w0 w \<Longrightarrow> (lock_step c)\<^sup>*\<^sup>* w0 w1"
  by (rule rtranclp.rtrancl_into_rtrancl)

lemma reach_open_then:
  "(lock_step c)\<^sup>*\<^sup>* w0 w \<Longrightarrow> lw_pc w (p, t) = Idle \<Longrightarrow> lw_guard w p = None \<Longrightarrow> lw_handles w p (Run_Lock, sid) = None \<Longrightarrow>
   lw_registry w p = [] \<Longrightarrow> lw_fresh w \<notin> lw_locked w \<Longrightarrow>
   (lock_step c)\<^sup>*\<^sup>* w0 (acquire_open p t (Run_Lock, sid) (Some (lw_fresh w)) (set_pc p t (Held sid (lw_fresh w))
     (w\<lparr>lw_registry := (lw_registry w)(p := [(sid, lw_fresh w)]), lw_fresh := Suc (lw_fresh w), lw_locked := insert (lw_fresh w) (lw_locked w)\<rparr>)))"
  by (rule rtranclp_trans [OF _ reach_open])

lemmas lock_eval = boot_def set_pc_def open_file_def unlock_thread_def acquire_open_def acquire_flock_def probe_open_def
  probe_flock_def probe_unlock_def

text \<open>A probe locks the file for a moment, so that a run is refused although no thread owns the lock.\<close>

lemma probe_blocks:
  "\<exists>w. (lock_step False)\<^sup>*\<^sup>* boot w \<and> lw_pc w (0, 0) = Opened (Run_Lock, 7) 0 (Some 0) \<and>
     lw_pc (acquire_flock 0 0 (Run_Lock, 7) 0 (Some 0) w) (0, 0) = Idle \<and>
     (\<forall>p t m. lw_pc w (p, t) \<noteq> Owner (Run_Lock, 7) m)"
proof -
  let ?k = "(Run_Lock, 7) :: lock_key"
  let ?a = "set_pc 1 0 (Checked ?k) boot"
  let ?b = "probe_open 1 0 ?k ?a"
  let ?c = "probe_flock 1 0 ?k 0 ?b"
  have "lock_step False boot ?a" by (rule lock_step.check) (simp_all add: boot_def)
  moreover have "lock_step False ?a ?b" by (rule lock_step.probe) (simp add: set_pc_def)
  moreover have "lock_step False ?b ?c" by (rule lock_step.probe_lock) (simp add: lock_eval)
  ultimately have r: "(lock_step False)\<^sup>*\<^sup>* boot ?c" by (blast intro: step_then)
  show ?thesis
    by (rule exI, rule conjI, rule reach_open_then [OF r, of 0 0]) (simp_all add: lock_eval)
qed

text \<open>
  With the clean-up taking part, two processes can own the lock of one stream: the file that was found free is removed after
  another process has opened it.
\<close>

lemma cleanup_two_owners:
  "\<exists>w m m'. (lock_step True)\<^sup>*\<^sup>* boot w \<and> lw_pc w (0, 0) = Owner (Run_Lock, 7) m \<and> lw_pc w (2, 0) = Owner (Run_Lock, 7) m'"
proof -
  let ?k = "(Run_Lock, 7) :: lock_key"
  have "(lock_step True)\<^sup>*\<^sup>* boot boot" by simp
  from reach_open_then [OF this, of 0 0 7] obtain a where a: "(lock_step True)\<^sup>*\<^sup>* boot a" "a = acquire_open 0 0 ?k (Some 0)
      (set_pc 0 0 (Held 7 0) (boot\<lparr>lw_registry := (\<lambda>p. [])(0 := [(7, 0)]), lw_fresh := 1, lw_locked := {0}\<rparr>))"
    by (simp add: boot_def)
  let ?b = "set_pc 1 0 (Checked ?k) a"
  let ?c = "probe_open 1 0 ?k ?b"
  let ?d = "probe_flock 1 0 ?k 0 ?c"
  let ?e = "probe_unlock 1 0 0 (Removing ?k) ?d"
  let ?f = "set_pc 1 0 Idle (?e\<lparr>lw_names := (lw_names ?e)(?k := None)\<rparr>)"
  let ?g = "acquire_flock 0 0 ?k 0 (Some 0) ?f"
  have "lock_step True a ?b" by (rule lock_step.check) (simp_all add: a(2) lock_eval)
  moreover have "lock_step True ?b ?c" by (rule lock_step.probe) (simp add: set_pc_def)
  moreover have "lock_step True ?c ?d" by (rule lock_step.probe_lock) (simp add: a(2) lock_eval)
  moreover have "lock_step True ?d ?e" by (rule lock_step.clean_end) (simp_all add: a(2) lock_eval)
  moreover have "lock_step True ?e ?f" by (rule lock_step.remove) (simp_all add: a(2) lock_eval)
  moreover have "lock_step True ?f ?g" by (rule lock_step.flock) (simp add: a(2) lock_eval)
  ultimately have r: "(lock_step True)\<^sup>*\<^sup>* boot ?g" using a(1) by (meson step_then)
  let ?h = "acquire_open 2 0 ?k (Some (lw_fresh ?g)) (set_pc 2 0 (Held 7 (lw_fresh ?g))
     (?g\<lparr>lw_registry := (lw_registry ?g)(2 := [(7, lw_fresh ?g)]), lw_fresh := Suc (lw_fresh ?g), lw_locked := insert (lw_fresh ?g) (lw_locked ?g)\<rparr>))"
  let ?w = "acquire_flock 2 0 ?k 1 (Some 1) ?h"
  have "(lock_step True)\<^sup>*\<^sup>* boot ?h" by (rule reach_open_then [OF r]) (simp_all add: a(2) lock_eval)
  moreover have "lock_step True ?h ?w" by (rule lock_step.flock) (simp add: a(2) lock_eval)
  ultimately have "(lock_step True)\<^sup>*\<^sup>* boot ?w" by (rule rtranclp.rtrancl_into_rtrancl)
  moreover have "lw_pc ?w (0, 0) = Owner ?k (Some 0)" "lw_pc ?w (2, 0) = Owner ?k (Some 1)" by (simp_all add: a(2) lock_eval)
  ultimately show ?thesis by blast
qed

text \<open>With 4096 streams running, asking for the lock of another stream raises: the pruning removes the lock that was just added.\<close>

lemma full_registry_raises:
  "fst (get_lock (\<lambda>l. l < MAX_LOCKS) MAX_LOCKS (-1) (map (\<lambda>i. (int i, i)) [0..<MAX_LOCKS])) = None"
proof -
  have "dget (map (\<lambda>i. (int i, i)) [0..<n]) (-1) = None" for n by (auto simp: map_of_eq_None_iff)
  then show ?thesis by (intro full_registry) auto
qed

theorem run_mutual_exclusion_witness:
  "\<exists>w l. (lock_step False)\<^sup>*\<^sup>* boot w \<and> lw_pc w (0, 0) = Owner (Run_Lock, 7) l \<and>
     (\<forall>p t l'. lw_pc w (p, t) = Owner (Run_Lock, 7) l' \<longrightarrow> (p, t) = (0, 0))"
proof -
  have "(lock_step False)\<^sup>*\<^sup>* boot boot" by simp
  from reach_open_then [OF this, of 0 0 7] obtain a where a: "(lock_step False)\<^sup>*\<^sup>* boot a" "a = acquire_open 0 0 (Run_Lock, 7) (Some 0)
      (set_pc 0 0 (Held 7 0) (boot\<lparr>lw_registry := (\<lambda>p. [])(0 := [(7, 0)]), lw_fresh := 1, lw_locked := {0}\<rparr>))"
    by (simp add: boot_def)
  let ?w = "acquire_flock 0 0 (Run_Lock, 7) 0 (Some 0) a"
  have "lock_step False a ?w" by (rule lock_step.flock) (simp add: a(2) lock_eval)
  then have r: "(lock_step False)\<^sup>*\<^sup>* boot ?w" using a(1) by (blast intro: step_then)
  moreover have "lw_pc ?w (0, 0) = Owner (Run_Lock, 7) (Some 0)" by (simp add: a(2) lock_eval)
  ultimately show ?thesis using run_mutual_exclusion [OF r, of _ _ "(Run_Lock, 7)" _ 0 0 "Some 0"] by blast
qed

end
