(* ===== verification/Spec2Isabelle.thy ===== *)
theory Spec2Isabelle
  imports Runtime_Engines Stream_Lock
begin

text \<open>
  Verification of the delivery core of Data Relay Control (a Python service under
  \<^verbatim>\<open>src/app\<close>).  The service polls sources, turns each response into a batch of events, runs every
  route of the stream over the batch (transform, protect, classify, decide, deliver) and moves the
  checkpoint of the stream when the batch has been delivered.

  \<^bold>\<open>The parts and their theories.\<close>

  \<^item> \<open>Prelude\<close>: Python values (\<open>json\<close>, dictionaries as association lists in insertion order, strings as lists of
    code points, floats as exact rationals), the exceptions of the language, \<open>int()\<close>, \<open>float()\<close>, \<open>str()\<close>,
    truth values, and the lemmas on them that the components share.

  \<^item> \<open>Field_Path\<close> (\<^verbatim>\<open>protection/field_path_parser.py\<close>, \<^verbatim>\<open>schema_observation/path_walker.py\<close>): the path grammar of
    protection rules.  What the schema walker prints parses back to the same steps, and the two scanners
    of the grammar agree.

  \<^item> \<open>Masking\<close> (\<^verbatim>\<open>protection/modes.py\<close>): the masking modes; a partial mask depends on the disclosed part only.

  \<^item> \<open>Identity_Vault\<close> (\<^verbatim>\<open>protection/identity_vault.py\<close>): token allocation under concurrent sessions.
    The vault has the unique keys of its table and the foreign key to the streams; \<open>other_step\<close> is what other sessions may commit between
    two statements.  A value keeps its token across any such commits, and one attempt suffices exactly when the stream exists.

  \<^item> \<open>Protection\<close> (\<^verbatim>\<open>protection/engine.py\<close>): the rules of a batch.  For every rule in effect, of any mode, each value
    its path selects comes from that mode (\<open>rule_done\<close>; items dropped by index are the exception, \<open>steady\<close>), the walk refines the reference update \<open>map_at\<close>, other paths are untouched, and malformed rules become warnings.

  \<^item> \<open>Route_Protection\<close> (\<^verbatim>\<open>route_protection\<close>): effective rules of a route, overrides, the cache of a batch
    and the stage, which fails closed.

  \<^item> \<open>Precedence\<close> holds the contract of a choice of the strongest element; \<open>Classification\<close>
    (\<^verbatim>\<open>classification\<close>, \<^verbatim>\<open>route_classification\<close>), \<open>Drift_Policy\<close> (\<^verbatim>\<open>schema_drift_policy\<close>) and \<open>Route_Policy\<close>
    (\<^verbatim>\<open>route_policy\<close>, \<^verbatim>\<open>quarantine\<close>, \<^verbatim>\<open>protection/policy_engine.py\<close>) interpret it for their levels, actions and decisions.
    Their properties say which level is stamped, which events pass the gate and what a quarantine leaves behind.

  \<^item> \<open>Rate_Limit\<close> (\<^verbatim>\<open>rate_limit\<close>): both window limiters behind one contract, and the pacing of UDP, with their bounds.

  \<^item> \<open>Dedup\<close> (\<^verbatim>\<open>runners/stream_dedup.py\<close>): the in-place queue computes a reference list of survivors.

  \<^item> \<open>Delivery\<close> (\<^verbatim>\<open>runners/stream_runner.py\<close>, \<^verbatim>\<open>failover_routing\<close>): sending a route with limiter, failover,
    retries and failure policies, and the dynamic routes.  The model keeps the history of adapter calls; a report is
    proved truthful against that history.

  \<^item> \<open>Route_Pipeline\<close> (\<^verbatim>\<open>runners/route_stage.py\<close>, \<^verbatim>\<open>route_delivery\<close>): the stages of one route and the loop over the routes.
    The locale \<open>route_sender\<close> states what the pipeline needs of its sender (the calls carry the events it was
    handed and the id of their route, a report is truthful); \<open>single_sender\<close> interprets it on \<open>deliver_single_route\<close>.  Every call of the pipeline
    names an enabled route, carries events that are done for the rules of that route, and its policy lets them through.

  \<^item> \<open>Event_Extract\<close> (\<^verbatim>\<open>parsers/event_extractor.py\<close>): from a response to events.

  \<^item> \<open>Checkpointing\<close> (\<^verbatim>\<open>http/shared_request_builder.py\<close>, \<^verbatim>\<open>checkpoints\<close>): what is written after delivery and how it is read back.

  \<^item> \<open>Stream_Run\<close> (\<^verbatim>\<open>runners/stream_runner.py\<close>, \<^verbatim>\<open>runners/route_context_builder.py\<close>, \<^verbatim>\<open>dynamic_routing\<close>): the whole run, from the lock
    to the final transaction.  \<open>run_report\<close> is the result of the pipeline of a run; the checkpoint moves only when these results
    account for the adapter calls of every enabled route.  A run that raises leaves only its markers, quarantine records and their log
    rows behind, and a dry run delivers nothing.  \<open>nv_lock\<close> is an exception of the lock file, which leaks the lock of the thread.

  \<^item> \<open>Stream_Lock\<close> (\<^verbatim>\<open>runners/stream_runtime_lock.py\<close>, the lock registry of \<^verbatim>\<open>runners/stream_runner.py\<close>): the locks that
    \<open>Stream_Run\<close> takes as given, as interleaved steps of processes and threads between the system calls.  No two threads own the
    lock of a stream; this needs that the clean-up of lock files does not run at the same time.

  \<^item> \<open>Pass_Through\<close> (\<^verbatim>\<open>mappers/pass_through.py\<close>, \<^verbatim>\<open>parsers/jsonpath_parser.py\<close>): what becomes of the fields no mapping names.  The
    in-place removal computes the reference document \<open>cut\<close>, and the merge only extends the mapped output.

  \<^item> \<open>Mapping\<close> (\<^verbatim>\<open>mappers/mapper.py\<close>, \<^verbatim>\<open>mappers/full_event_mapping.py\<close>): basic, full-event and per-field mapping.  The batch of the runtime
    and the single-event mapping of previews agree, and every configured field is in the result.

  \<^item> \<open>Expressions\<close> (\<^verbatim>\<open>enrichers/expression_evaluator.py\<close>, \<^verbatim>\<open>enrichers/field_paths.py\<close>): dotted field paths and calculated
    expressions.  The evaluation always returns, and functions of plain field values have the expected value.

  \<^item> \<open>Enrichment\<close> (\<^verbatim>\<open>enrichers/rule_executor.py\<close>, \<^verbatim>\<open>lookup_tables.py\<close>, \<^verbatim>\<open>payload_safety.py\<close>): static fields and rules.  Without override
    an enrichment only adds, nothing internal is delivered, and the trace shows what the runtime does.

  \<^item> \<open>Schema_Walk\<close> (\<^verbatim>\<open>schema_observation/path_walker.py\<close>): the bounded path inventory of a batch, equal to a reference walk below its bound.

  \<^item> \<open>Sensitive_Detection\<close> (\<^verbatim>\<open>sensitive_detection\<close>): name rules, patterns, the findings of a batch and the rows that count them.
    What is reported is characterised exactly, secret names are found in every object the walk opens, and a finding is listed after the configured number of runs.

  \<^item> \<open>Runtime_Engines\<close> (\<^verbatim>\<open>runners/route_stage.py\<close>): the pipeline with the two engines, and the run with the detector, in the place of
    their arguments.  Mapped fields reach the route, every call of an adapter carries protected events, and a secret in the events the run scans selects its dynamic route.

  \<^bold>\<open>State.\<close>  A stage that changes state returns the new state with its result; exceptions are
  values of \<open>result\<close> or \<open>stage_exc\<close>, and a state is returned in the exceptional case too.  The world of a run (adapters,
  clock, failover rows, destinations) is a value of an arbitrary type that the functions of \<open>outside\<close>
  change, so adapters may answer every call differently.  A run works on \<open>live\<close>; \<open>flush_pending_writes\<close> moves
  its pending rows into \<open>system\<close>, the database and the locks.

  \<^bold>\<open>Parameters.\<close>  Code outside the repository is an argument: HMAC and SHA-256 digests, JSONPath
  evaluation, JSONata, the regular expressions of a configuration, the reading of dates and decimal numbers, database sessions
  (as the rows they return or the exception they raise), clocks, adapters.  The
  source adapters and the drift lookup of the repository are arguments too.  The pipeline takes the mapping and the enrichment engine, and the run
  the detector, as arguments; \<open>Runtime_Engines\<close> puts the repository's own there.  Every property with such a parameter holds for all values of it, except
  where its hypotheses say otherwise (\<open>engines_ok\<close>, \<open>mapping_env_ok\<close>: what comes back is a document), and a witness instantiates them.

  \<^bold>\<open>Loops and bounds.\<close>  Loops run over lists or carry their own measure (the parser of field paths, the retries, the
  substitution of field references), so no fuel is used.  The search for the next call of an expression and nested conditionals are
  \<open>partial_function (option)\<close>, proved to return; the 64 rounds of the evaluator are the bound of the code.  Numbers are unbounded as in Python; floats are exact
  rationals with infinities and not-a-number.

  \<^bold>\<open>Not modelled.\<close>  Durations, run ids, messages of log rows, observability events, preview callbacks; case
  conversion and character classes beyond ASCII; the base-route loop of \<open>_fan_out\<close>, which \<open>run\<close> does not reach;
  what a failing statement does to the rest of the caller's transaction; governance notifications; the text of a lock file and the listing of active streams; rule validation at configuration time; the HTTP API, adapters, scheduler, services on stored records (quarantine release, replay, approval, the operator workflow of findings),
  authentication, backup and the development lab, which only call the core or are input and output.
\<close>

end
